(* ===== verification/Prelude.thy ===== *)
theory Prelude
  imports Main "HOL-Library.Word"
begin

unbundle bit_operations_syntax

text \<open>
  What every component of the development shares: the integer types of the program, the
  checked and saturating arithmetic of Rust's \<^verbatim>\<open>usize\<close>, little-endian byte strings
  (\<^verbatim>\<open>to_le_bytes\<close>, \<^verbatim>\<open>from_le_bytes\<close>), decimal printing, and generic lemmas on lists.

  A \<^verbatim>\<open>u8\<close> and a \<^verbatim>\<open>u32\<close> that the code takes apart bit by bit are machine words. A
  \<^verbatim>\<open>usize\<close> is a natural number: the code guards its address arithmetic with
  \<^verbatim>\<open>checked_add\<close> and widens to \<^verbatim>\<open>i128\<close> before it subtracts, so the bound
  \<open>usize_max\<close> appears in the definitions exactly where the code tests it.
\<close>

section \<open>Collections of facts\<close>

named_theorems usize_defs \<open>bounds of the machine integers\<close>
named_theorems le_simps \<open>little-endian encodings\<close>

section \<open>Machine integers\<close>

type_synonym u8 = "8 word"
type_synonym u32 = "32 word"
type_synonym u64 = "64 word"
type_synonym usize = nat
type_synonym thread = nat

definition usize_max :: usize where
  [usize_defs]: "usize_max = 2 ^ 64 - 1"

definition isize_max :: usize where
  [usize_defs]: "isize_max = 2 ^ 63 - 1"

definition checked_add :: "usize \<Rightarrow> usize \<Rightarrow> usize option" where
  "checked_add a b = (if a + b \<le> usize_max then Some (a + b) else None)"

definition checked_sub :: "usize \<Rightarrow> usize \<Rightarrow> usize option" where
  "checked_sub a b = (if b \<le> a then Some (a - b) else None)"

definition saturating_add :: "usize \<Rightarrow> usize \<Rightarrow> usize" where
  "saturating_add a b = min (a + b) usize_max"

definition saturating_sub :: "usize \<Rightarrow> usize \<Rightarrow> usize" where
  "saturating_sub a b = a - b"

definition abs_diff :: "usize \<Rightarrow> usize \<Rightarrow> usize" where
  "abs_diff a b = (if a < b then b - a else a - b)"

definition div_ceil :: "usize \<Rightarrow> usize \<Rightarrow> usize" where
  "div_ceil a b = (if a mod b = 0 then a div b else a div b + 1)"

lemma checked_add_eq_Some [simp]:
  "checked_add a b = Some c \<longleftrightarrow> c = a + b \<and> a + b \<le> usize_max"
  by (auto simp: checked_add_def)

lemma checked_add_eq_None [simp]: "checked_add a b = None \<longleftrightarrow> usize_max < a + b"
  by (auto simp: checked_add_def)

lemma checked_sub_eq_Some [simp]: "checked_sub a b = Some c \<longleftrightarrow> b \<le> a \<and> c = a - b"
  by (auto simp: checked_sub_def)

lemma checked_sub_eq_None [simp]: "checked_sub a b = None \<longleftrightarrow> a < b"
  by (auto simp: checked_sub_def)

lemma div_ceil_ge:
  assumes "0 < c"
  shows "a \<le> div_ceil a c * c"
proof -
  have "a div c * c + a mod c = a" "a mod c < c" using assms by simp_all
  then show ?thesis unfolding div_ceil_def by (split if_split) (simp only: add_mult_distrib, linarith)
qed

lemma round_up_ge:
  fixes e p :: nat
  assumes "0 < p"
  shows "e \<le> (e + (p - 1)) div p * p"
proof -
  have "(e + (p - 1)) mod p < p" using assms by simp
  moreover have "(e + (p - 1)) div p * p + (e + (p - 1)) mod p = e + (p - 1)" by simp
  ultimately show ?thesis by linarith
qed

text \<open>\<^verbatim>\<open>i32::try_from\<close> and \<^verbatim>\<open>usize::try_from\<close> of a wider signed integer.\<close>

definition i32_try_from :: "int \<Rightarrow> int option" where
  "i32_try_from x = (if - (2 ^ 31) \<le> x \<and> x < 2 ^ 31 then Some x else None)"

definition usize_try_from :: "int \<Rightarrow> usize option" where
  "usize_try_from x = (if 0 \<le> x \<and> x \<le> int usize_max then Some (nat x) else None)"

lemma i32_try_from_eq_Some [simp]:
  "i32_try_from x = Some y \<longleftrightarrow> y = x \<and> - 2147483648 \<le> x \<and> x < 2147483648"
  by (auto simp: i32_try_from_def)

lemma usize_try_from_eq_Some [simp]:
  "usize_try_from x = Some y \<longleftrightarrow> 0 \<le> x \<and> x \<le> int usize_max \<and> y = nat x"
  by (auto simp: usize_try_from_def)

section \<open>Little-endian bytes\<close>

fun le_bytes :: "nat \<Rightarrow> nat \<Rightarrow> u8 list" where
  "le_bytes 0 v = []"
| "le_bytes (Suc n) v = word_of_nat (v mod 256) # le_bytes n (v div 256)"

lemma le_bytes_numeral:
  "le_bytes (numeral k) v = word_of_nat (v mod 256) # le_bytes (pred_numeral k) (v div 256)"
  by (simp only: numeral_eq_Suc [of k] le_bytes.simps)

fun le_value :: "u8 list \<Rightarrow> nat" where
  "le_value [] = 0"
| "le_value (b # bs) = unat b + 256 * le_value bs"

lemma length_le_bytes [simp]: "length (le_bytes n v) = n"
  by (induction n arbitrary: v) auto

lemma le_value_le_bytes [le_simps]: "le_value (le_bytes n v) = v mod 256 ^ n"
proof (induction n arbitrary: v)
  case (Suc n)
  have "unat (word_of_nat (v mod 256) :: u8) = v mod 256"
    by (simp add: unat_of_nat)
  then show ?case
    by (simp add: Suc mod_mult2_eq)
qed simp

lemma le_value_bound: "le_value bs < 256 ^ length bs"
proof (induction bs)
  case (Cons b bs)
  have "unat b < 256" using unsigned_less [of b] by simp
  with Cons show ?case by simp
qed simp

definition u64_to_le :: "nat \<Rightarrow> u8 list" where
  "u64_to_le v = le_bytes 8 v"

definition u32_to_le :: "u32 \<Rightarrow> u8 list" where
  "u32_to_le w = le_bytes 4 (unat w)"

definition u32_from_le :: "u8 list \<Rightarrow> u32" where
  "u32_from_le bs = word_of_nat (le_value bs)"

definition i32_to_le :: "int \<Rightarrow> u8 list" where
  "i32_to_le x = le_bytes 4 (nat (x mod 2 ^ 32))"

definition i32_from_le :: "u8 list \<Rightarrow> int" where
  "i32_from_le bs = (let v = int (le_value bs) in if v < 2 ^ 31 then v else v - 2 ^ 32)"

lemma length_to_le [simp]:
  "length (u64_to_le v) = 8" "length (u32_to_le w) = 4" "length (i32_to_le x) = 4"
  by (simp_all add: u64_to_le_def u32_to_le_def i32_to_le_def)

lemma le_value_u64 [le_simps]: "v \<le> usize_max \<Longrightarrow> le_value (u64_to_le v) = v"
  by (simp add: u64_to_le_def le_value_le_bytes usize_defs)

lemma u32_from_to_le [le_simps]: "u32_from_le (u32_to_le w) = w"
proof -
  have "unat w < 2 ^ 32" using unsigned_less [of w] by simp
  then show ?thesis
    by (simp add: u32_from_le_def u32_to_le_def le_value_le_bytes)
qed

lemma le_bytes_le_value: "le_bytes (length bs) (le_value bs) = bs"
proof (induction bs)
  case (Cons b bs)
  have "unat b < 256" using unsigned_less [of b] by simp
  then have "(unat b + 256 * le_value bs) mod 256 = unat b" "(unat b + 256 * le_value bs) div 256 = le_value bs"
    by simp_all
  with Cons show ?case by simp
qed simp

lemma u32_to_from_le [le_simps]:
  assumes "length bs = 4"
  shows "u32_to_le (u32_from_le bs) = bs"
proof -
  have "le_value bs < 2 ^ 32" using le_value_bound [of bs] assms by simp
  then have "unat (word_of_nat (le_value bs) :: u32) = le_value bs" by (simp add: unat_of_nat)
  then show ?thesis using le_bytes_le_value [of bs] assms by (simp add: u32_to_le_def u32_from_le_def)
qed

lemma i32_from_to_le [le_simps]:
  assumes "- 2147483648 \<le> x" "x < 2147483648"
  shows "i32_from_le (i32_to_le x) = x"
proof -
  have v: "int (le_value (i32_to_le x)) = x mod 2 ^ 32"
    by (simp add: i32_to_le_def le_value_le_bytes nat_mod_distrib zmod_int)
  show ?thesis
  proof (cases "0 \<le> x")
    case True
    with assms v show ?thesis by (simp add: i32_from_le_def)
  next
    case False
    with assms have "x mod 2 ^ 32 = x + 2 ^ 32"
      using mod_pos_pos_trivial [of "x + 2 ^ 32" "2 ^ 32"] by simp
    with False assms v show ?thesis by (simp add: i32_from_le_def)
  qed
qed

lemma i32_from_le_bounds:
  assumes "length bs = 4"
  shows "- 2147483648 \<le> i32_from_le bs" "i32_from_le bs < 2147483648"
  using le_value_bound [of bs] assms by (auto simp: i32_from_le_def Let_def)

text \<open>A byte read as \<^verbatim>\<open>i8\<close>.\<close>

definition i8_of :: "u8 \<Rightarrow> int" where
  "i8_of b = (if b < 128 then uint b else uint b - 256)"

lemma i8_of_bounds: "- 128 \<le> i8_of b" "i8_of b < 128"
proof -
  have "uint b < 256" "- 128 \<le> uint b"
    using uint_lt2p [of b] order_trans [OF _ uint_ge_0 [of b], of "- 128"] by simp_all
  then show "- 128 \<le> i8_of b" "i8_of b < 128"
    by (simp_all add: i8_of_def word_less_def)
qed

section \<open>Decimal printing\<close>

fun show_nat :: "nat \<Rightarrow> string" where
  "show_nat n =
     (if n < 10 then [char_of (48 + n)]
      else show_nat (n div 10) @ [char_of (48 + n mod 10)])"

declare show_nat.simps [simp del]

definition show_int :: "int \<Rightarrow> string" where
  "show_int i = (if i < 0 then ''-'' @ show_nat (nat (- i)) else show_nat (nat i))"

section \<open>Lists\<close>

text \<open>
  \<^verbatim>\<open>splice_at xs i ys\<close> is the array \<open>xs\<close> after \<open>ys\<close> was copied over it
  from index \<open>i\<close> on.
\<close>

definition splice_at :: "'a list \<Rightarrow> nat \<Rightarrow> 'a list \<Rightarrow> 'a list" where
  "splice_at xs i ys = take i xs @ ys @ drop (i + length ys) xs"

lemma length_splice_at [simp]:
  "i + length ys \<le> length xs \<Longrightarrow> length (splice_at xs i ys) = length xs"
  by (simp add: splice_at_def)

lemma nth_splice_at:
  "i + length ys \<le> length xs \<Longrightarrow> k < length xs \<Longrightarrow>
   splice_at xs i ys ! k = (if i \<le> k \<and> k < i + length ys then ys ! (k - i) else xs ! k)"
  by (auto simp: splice_at_def nth_append)

lemma find_append:
  "List.find P (xs @ ys) = (case List.find P xs of None \<Rightarrow> List.find P ys | Some x \<Rightarrow> Some x)"
  by (induction xs) auto

section \<open>Byte memories\<close>

text \<open>
  A memory maps addresses to bytes. \<open>fetch mem a n\<close> are the \<open>n\<close> bytes from \<open>a\<close> on,
  \<open>write_bytes\<close> is the memory after a copy of bytes to \<open>a\<close>.
\<close>

type_synonym memory = "usize \<Rightarrow> u8"

definition fetch :: "memory \<Rightarrow> usize \<Rightarrow> nat \<Rightarrow> u8 list" where
  "fetch mem a n = map (\<lambda>k. mem (a + k)) [0..<n]"

definition write_bytes :: "memory \<Rightarrow> usize \<Rightarrow> u8 list \<Rightarrow> memory" where
  "write_bytes mem a bs = (\<lambda>b. if a \<le> b \<and> b < a + length bs then bs ! (b - a) else mem b)"

lemma length_fetch [simp]: "length (fetch mem a n) = n"
  by (simp add: fetch_def)

lemma fetch_append: "fetch mem a (m + n) = fetch mem a m @ fetch mem (a + m) n"
  by (rule nth_equalityI) (auto simp: fetch_def nth_append)

lemma fetch_split:
  "fetch mem a k = xs @ ys \<Longrightarrow> k = m + n \<Longrightarrow> length xs = m \<Longrightarrow>
   fetch mem a m = xs \<and> fetch mem (a + m) n = ys"
  by (simp add: fetch_append)

lemma fetch_Suc [simp]: "fetch mem a (Suc n) = mem a # fetch mem (a + 1) n"
  using fetch_append [of mem a 1 n] by (simp add: fetch_def)

lemma fetch_0 [simp]: "fetch mem a 0 = []"
  by (simp add: fetch_def)

lemma fetch_write_bytes: "fetch (write_bytes mem a bs) a (length bs) = bs"
  by (rule nth_equalityI) (auto simp: fetch_def write_bytes_def)

lemma fetch_write_bytes_other:
  "b + n \<le> a \<or> a + length bs \<le> b \<Longrightarrow> fetch (write_bytes mem a bs) b n = fetch mem b n"
  by (auto simp: fetch_def write_bytes_def)

definition stands_at :: "memory \<Rightarrow> usize \<Rightarrow> u8 list \<Rightarrow> bool" where
  "stands_at mem a bytes \<longleftrightarrow> fetch mem a (length bytes) = bytes"

lemma stands_at_append:
  "stands_at mem a (xs @ ys) \<longleftrightarrow> stands_at mem a xs \<and> stands_at mem (a + length xs) ys"
  by (simp add: stands_at_def fetch_append)

lemma stands_at_le: "stands_at mem a bytes \<Longrightarrow> length bytes = n \<Longrightarrow> fetch mem a n = bytes"
  by (auto simp: stands_at_def)

lemma write_bytes_fetch [simp]: "write_bytes mem a (fetch mem a n) = mem"
  by (auto simp: fetch_def write_bytes_def fun_eq_iff)

lemma write_bytes_write_bytes:
  "length cs = length bs \<Longrightarrow> write_bytes (write_bytes mem a bs) a cs = write_bytes mem a cs"
  by (auto simp: write_bytes_def fun_eq_iff)

lemma write_bytes_back:
  "fetch mem a (length bs) = cs \<Longrightarrow> write_bytes (write_bytes mem a bs) a cs = mem"
  by (auto simp: fetch_def write_bytes_def fun_eq_iff)

end
