(* ===== verification/Errors.thy ===== *)
theory Errors
  imports Prelude
begin

text \<open>
  The error type of the crate (src/error.rs) and the way a Rust call ends. A call returns
  \<open>Ok v\<close> or \<open>Err e\<close> (a \<^verbatim>\<open>Result\<close>), unwinds with a panic message
  (\<open>Panics\<close>), ends the process (\<open>Aborts\<close>, \<^verbatim>\<open>std::process::abort\<close>), or never comes
  back (\<open>Diverges\<close>). The operator \<^verbatim>\<open>?\<close> is \<open>and_then\<close>. Slice accesses are written with their bounds checks:
  an index out of range is \<open>Panics\<close>, never an unspecified value.
\<close>

section \<open>Errors\<close>

datatype error =
    Busy
  | InvalidAddress
  | InvalidRange
  | NotExecutable
  | MemoryChanged
  | SameAddress
  | Overlap
  | InsufficientSpace
  | InvalidInstruction
  | ShadowStack
  | Os string int
  | Mapping string
  | Expectation string

fun display :: "error \<Rightarrow> string" where
  "display Busy = ''another shimforge session is active''"
| "display InvalidAddress = ''address is not readable''"
| "display InvalidRange = ''invalid memory range''"
| "display NotExecutable = ''address is not readable executable memory''"
| "display MemoryChanged = ''function bytes changed unexpectedly''"
| "display SameAddress = ''source and replacement have the same address''"
| "display Overlap = ''target overlaps an active replacement''"
| "display InsufficientSpace = ''function prefix is too short for a jump''"
| "display InvalidInstruction =
     ''function prefix contains an unsupported or invalid instruction''"
| "display ShadowStack = ''this function entry cannot be mocked with shadow stacks enabled''"
| "display (Os operation code) = operation @ '' failed (OS error '' @ show_int code @ '')''"
| "display (Mapping message) = ''cannot inspect memory mapping: '' @ message"
| "display (Expectation message) = message"

section \<open>How a call ends\<close>

datatype 'a result = Ok 'a | Err error | Panics string | Aborts | Diverges

fun and_then :: "'a result \<Rightarrow> ('a \<Rightarrow> 'b result) \<Rightarrow> 'b result" where
  "and_then (Ok v) f = f v"
| "and_then (Err e) f = Err e"
| "and_then (Panics m) f = Panics m"
| "and_then Aborts f = Aborts"
| "and_then Diverges f = Diverges"

lemma and_then_cong [fundef_cong]:
  "m = n \<Longrightarrow> (\<And>v. n = Ok v \<Longrightarrow> f v = g v) \<Longrightarrow> and_then m f = and_then n g"
  by (cases n) auto

named_theorems result_simps \<open>how a sequence of fallible calls can end\<close>

lemma and_then_eq_Ok [result_simps]:
  "and_then m f = Ok v \<longleftrightarrow> (\<exists>x. m = Ok x \<and> f x = Ok v)"
  by (cases m) auto

lemma and_then_eq_Err [result_simps]:
  "and_then m f = Err e \<longleftrightarrow> m = Err e \<or> (\<exists>x. m = Ok x \<and> f x = Err e)"
  by (cases m) auto

lemma and_then_eq_Panics [result_simps]:
  "and_then m f = Panics s \<longleftrightarrow> m = Panics s \<or> (\<exists>x. m = Ok x \<and> f x = Panics s)"
  by (cases m) auto

lemma and_then_eq_Aborts [result_simps]:
  "and_then m f = Aborts \<longleftrightarrow> m = Aborts \<or> (\<exists>x. m = Ok x \<and> f x = Aborts)"
  by (cases m) auto

lemma and_then_eq_Diverges [result_simps]:
  "and_then m f = Diverges \<longleftrightarrow> m = Diverges \<or> (\<exists>x. m = Ok x \<and> f x = Diverges)"
  by (cases m) auto

text \<open>A call that ends as a \<^verbatim>\<open>Result\<close>: it neither unwinds nor ends the process,
  and it does come back.\<close>

fun returns :: "'a result \<Rightarrow> bool" where
  "returns (Ok v) = True"
| "returns (Err e) = True"
| "returns (Panics m) = False"
| "returns Aborts = False"
| "returns Diverges = False"

lemma returns_and_then [result_simps]:
  "returns (and_then m f) \<longleftrightarrow> returns m \<and> (\<forall>v. m = Ok v \<longrightarrow> returns (f v))"
  by (cases m) auto

text \<open>
  What holds of the value of a call that succeeds. The rules go through a fallible program branch
  by branch without looking at its conditions, so a long match costs one goal per branch.
\<close>

definition ensures :: "'a result \<Rightarrow> ('a \<Rightarrow> bool) \<Rightarrow> bool" where
  "ensures m P \<longleftrightarrow> (\<forall>v. m = Ok v \<longrightarrow> P v)"

lemma ensuresD: "ensures m P \<Longrightarrow> m = Ok v \<Longrightarrow> P v"
  by (simp add: ensures_def)

lemma ensures_trivial:
  "P v \<Longrightarrow> ensures (Ok v) P" "ensures (Err e) P" "ensures (Panics s) P" "ensures Aborts P"
  "ensures Diverges P"
  by (simp_all add: ensures_def)

lemma ensures_if: "ensures a P \<Longrightarrow> ensures b P \<Longrightarrow> ensures (if c then a else b) P"
  by simp

lemma ensures_Let: "(\<And>y. y = x \<Longrightarrow> ensures (f y) P) \<Longrightarrow> ensures (Let x f) P"
  by simp

lemma ensures_bind:
  "(\<And>v. m = Ok v \<Longrightarrow> ensures (f v) P) \<Longrightarrow> ensures (and_then m f) P"
  by (cases m) (auto simp: ensures_def)

lemma ensures_prod:
  "(\<And>a b. v = (a, b) \<Longrightarrow> ensures (f a b) P) \<Longrightarrow> ensures (case v of (a, b) \<Rightarrow> f a b) P"
  by (cases v) simp

text \<open>The same traversal for calls that always end as a \<^verbatim>\<open>Result\<close>.\<close>

lemma returns_bindI:
  "returns m \<Longrightarrow> (\<And>v. m = Ok v \<Longrightarrow> returns (f v)) \<Longrightarrow> returns (and_then m f)"
  by (simp add: result_simps)

lemma returns_ifI: "returns a \<Longrightarrow> returns b \<Longrightarrow> returns (if c then a else b)"
  by simp

lemma returns_LetI: "(\<And>y. y = x \<Longrightarrow> returns (f y)) \<Longrightarrow> returns (Let x f)"
  by simp

lemma returns_prodI:
  "(\<And>a b. v = (a, b) \<Longrightarrow> returns (f a b)) \<Longrightarrow> returns (case v of (a, b) \<Rightarrow> f a b)"
  by (cases v) simp

text \<open>\<^verbatim>\<open>Option::ok_or\<close> and \<^verbatim>\<open>error::check\<close>, which every public call goes through.\<close>

fun ok_or :: "'a option \<Rightarrow> error \<Rightarrow> 'a result" where
  "ok_or (Some v) e = Ok v"
| "ok_or None e = Err e"

lemma ok_or_eq_Ok [simp]: "ok_or m e = Ok v \<longleftrightarrow> m = Some v"
  by (cases m) auto

lemma ok_or_eq_Err [simp]: "ok_or m e = Err e' \<longleftrightarrow> m = None \<and> e' = e"
  by (cases m) auto

lemma returns_ok_or [simp]: "returns (ok_or m e)"
  by (cases m) auto

lemma ok_or_neq [simp]: "ok_or m e \<noteq> Panics s" "ok_or m e \<noteq> Aborts" "ok_or m e \<noteq> Diverges"
  by (cases m; simp)+

fun check :: "'a result \<Rightarrow> 'a result" where
  "check (Ok v) = Ok v"
| "check (Err e) = Panics (display e)"
| "check (Panics m) = Panics m"
| "check Aborts = Aborts"
| "check Diverges = Diverges"

section \<open>Slices with their bounds checks\<close>

definition index_panic :: string where
  "index_panic = ''index out of range''"

definition slice_from :: "'a list \<Rightarrow> nat \<Rightarrow> 'a list result" where
  "slice_from xs i = (if i \<le> length xs then Ok (drop i xs) else Panics index_panic)"

definition slice_to :: "'a list \<Rightarrow> nat \<Rightarrow> 'a list result" where
  "slice_to xs n = (if n \<le> length xs then Ok (take n xs) else Panics index_panic)"

definition subslice :: "'a list \<Rightarrow> nat \<Rightarrow> nat \<Rightarrow> 'a list result" where
  "subslice xs i j =
     (if i \<le> j \<and> j \<le> length xs then Ok (take (j - i) (drop i xs)) else Panics index_panic)"

definition index_at :: "'a list \<Rightarrow> nat \<Rightarrow> 'a result" where
  "index_at xs i = (if i < length xs then Ok (xs ! i) else Panics index_panic)"

definition copy_from_slice :: "'a list \<Rightarrow> nat \<Rightarrow> 'a list \<Rightarrow> 'a list result" where
  "copy_from_slice xs i ys =
     (if i + length ys \<le> length xs then Ok (splice_at xs i ys) else Panics index_panic)"

lemmas slice_defs = slice_from_def slice_to_def subslice_def index_at_def copy_from_slice_def

definition usize_sub :: "usize \<Rightarrow> usize \<Rightarrow> usize result" where
  "usize_sub a b = (if b \<le> a then Ok (a - b) else Panics ''attempt to subtract with overflow'')"

lemma usize_sub_Ok [simp]: "usize_sub a b = Ok c \<longleftrightarrow> b \<le> a \<and> c = a - b"
  by (auto simp: usize_sub_def)

lemma copy_from_slice_Ok:
  "copy_from_slice xs i ys = Ok zs \<longleftrightarrow> i + length ys \<le> length xs \<and> zs = splice_at xs i ys"
  by (auto simp: copy_from_slice_def)

lemma subslice_Ok:
  "subslice xs i j = Ok ys \<longleftrightarrow> i \<le> j \<and> j \<le> length xs \<and> ys = take (j - i) (drop i xs)"
  by (auto simp: subslice_def)

section \<open>Calls with effects\<close>

text \<open>
  A call that reads and changes a state returns the state it leaves behind on every path, the
  failing ones included. \<open>andThen\<close> is the operator \<^verbatim>\<open>?\<close> for such calls.
\<close>

type_synonym ('a, 'k) call = "'k \<Rightarrow> 'a result \<times> 'k"

fun andThen :: "'a result \<times> 'k \<Rightarrow> ('a \<Rightarrow> 'k \<Rightarrow> 'b result \<times> 'k) \<Rightarrow> 'b result \<times> 'k" where
  "andThen (Ok v, k) f = f v k"
| "andThen (Err e, k) f = (Err e, k)"
| "andThen (Panics m, k) f = (Panics m, k)"
| "andThen (Aborts, k) f = (Aborts, k)"
| "andThen (Diverges, k) f = (Diverges, k)"

lemma andThen_cong [fundef_cong]:
  "m = n \<Longrightarrow> (\<And>v k. n = (Ok v, k) \<Longrightarrow> f v k = g v k) \<Longrightarrow> andThen m f = andThen n g"
  by (cases "(n, f)" rule: andThen.cases) auto

lemma andThen_Ok [result_simps]:
  "andThen m f = (Ok v, k') \<longleftrightarrow> (\<exists>x k. m = (Ok x, k) \<and> f x k = (Ok v, k'))"
  by (cases "(m, f)" rule: andThen.cases) auto

lemma andThen_split:
  "P (andThen m f) \<longleftrightarrow> (\<forall>v k. m = (Ok v, k) \<longrightarrow> P (f v k)) \<and> (\<forall>e k. m = (Err e, k) \<longrightarrow> P (Err e, k)) \<and>
     (\<forall>s k. m = (Panics s, k) \<longrightarrow> P (Panics s, k)) \<and> (\<forall>k. m = (Aborts, k) \<longrightarrow> P (Aborts, k)) \<and>
     (\<forall>k. m = (Diverges, k) \<longrightarrow> P (Diverges, k))"
  by (cases "(m, f)" rule: andThen.cases) auto

text \<open>What holds of the result and of the state that a call leaves behind.\<close>

definition leaves :: "'a result \<times> 'k \<Rightarrow> ('a result \<Rightarrow> 'k \<Rightarrow> bool) \<Rightarrow> bool" where
  "leaves m Q \<longleftrightarrow> (case m of (r, k) \<Rightarrow> Q r k)"

lemma leaves_pair [simp]: "leaves (r, k) Q \<longleftrightarrow> Q r k"
  by (simp add: leaves_def)

lemma leavesD: "leaves m Q \<Longrightarrow> m = (r, k) \<Longrightarrow> Q r k"
  by simp

lemma leaves_mono: "leaves m Q \<Longrightarrow> (\<And>r k. m = (r, k) \<Longrightarrow> Q r k \<Longrightarrow> R r k) \<Longrightarrow> leaves m R"
  by (cases m) simp

text \<open>
  A call that ends as a \<^verbatim>\<open>Result\<close> is followed by the rest of the function when it succeeds; when
  it fails the error is passed on.
\<close>

lemma leaves_andThen:
  assumes "leaves m (\<lambda>r k. returns r \<and> (\<forall>v. r = Ok v \<longrightarrow> leaves (f v k) Q) \<and>
     (\<forall>e. r = Err e \<longrightarrow> Q (Err e) k))"
  shows "leaves (andThen m f) Q"
  using assms by (cases "(m, f)" rule: andThen.cases) auto

end
