(* ===== verification/Expectations.thy ===== *)
theory Expectations
  imports Errors
begin

text \<open>
  Call counts, sequences, expectations and the rule table of a mock (src/expectation.rs).

  An \<^verbatim>\<open>Arc\<close> is an identifier: the counters of an expectation (\<^verbatim>\<open>Meta\<close>) and
  of a sequence (\<^verbatim>\<open>SequenceProgress\<close>) live in the record \<open>heap\<close>, because the rule
  table and the handle given to the test share them, and one sequence orders the expectations
  of several mocks. Each operation below is one critical section of the code: the locks
  \<^verbatim>\<open>Meta.progress\<close>, \<^verbatim>\<open>Sequence.progress\<close> and \<^verbatim>\<open>State.inner\<close> are held for the
  whole of it. \<open>select\<close> is the exception (it drops the rule lock and then claims one
  expectation after the other), and theory \<open>Interleaving\<close> treats it so.
\<close>

section \<open>Call counts\<close>

record call_count =
  cc_min :: usize
  cc_max :: "usize option"

definition validate_count :: "call_count \<Rightarrow> call_count result" where
  "validate_count c =
     (if (case cc_max c of Some m \<Rightarrow> m < cc_min c | None \<Rightarrow> False)
      then Err (Expectation ''call count range is empty'') else Ok c)"

text \<open>The seven \<^verbatim>\<open>From\<close> implementations, one constructor per argument type.\<close>

datatype count_spec =
    Exactly usize
  | Range usize usize
  | RangeInclusive usize usize
  | RangeFrom usize
  | RangeTo usize
  | RangeToInclusive usize
  | RangeFull

definition from_usize :: "usize \<Rightarrow> call_count" where
  "from_usize count = \<lparr>cc_min = count, cc_max = Some count\<rparr>"

definition from_range :: "usize \<Rightarrow> usize \<Rightarrow> call_count" where
  "from_range lo hi =
     (case checked_sub hi 1 of
        Some m \<Rightarrow> \<lparr>cc_min = lo, cc_max = Some m\<rparr>
      | None \<Rightarrow> \<lparr>cc_min = 1, cc_max = Some 0\<rparr>)"

definition from_range_inclusive :: "usize \<Rightarrow> usize \<Rightarrow> call_count" where
  "from_range_inclusive lo hi = \<lparr>cc_min = lo, cc_max = Some hi\<rparr>"

definition from_range_from :: "usize \<Rightarrow> call_count" where
  "from_range_from lo = \<lparr>cc_min = lo, cc_max = None\<rparr>"

fun into_count :: "count_spec \<Rightarrow> call_count" where
  "into_count (Exactly n) = from_usize n"
| "into_count (Range lo hi) = from_range lo hi"
| "into_count (RangeInclusive lo hi) = from_range_inclusive lo hi"
| "into_count (RangeFrom lo) = from_range_from lo"
| "into_count (RangeTo hi) = from_range 0 hi"
| "into_count (RangeToInclusive hi) = from_range_inclusive 0 hi"
| "into_count RangeFull = from_range_from 0"

lemmas count_defs =
  from_usize_def from_range_def from_range_inclusive_def from_range_from_def

section \<open>Sequences\<close>

type_synonym seq_id = nat
type_synonym meta_id = nat

record sequence_progress =
  seq_next :: usize
  seq_cursor :: usize

record ticket =
  t_sequence :: seq_id
  t_index :: usize

definition new_progress :: sequence_progress where
  "new_progress = \<lparr>seq_next = 0, seq_cursor = 0\<rparr>"

text \<open>One expectation: \<^verbatim>\<open>Meta\<close> with its \<^verbatim>\<open>Progress\<close>.\<close>

record meta =
  m_name :: string
  m_count :: call_count
  m_calls :: usize
  m_ticket :: "ticket option"
  m_failure :: "string option"

record heap =
  seqs :: "seq_id \<Rightarrow> sequence_progress"
  metas :: "meta_id \<Rightarrow> meta"
  fresh_meta :: meta_id

definition reserve :: "seq_id \<Rightarrow> heap \<Rightarrow> ticket result \<times> heap" where
  "reserve s h =
     (let progress = seqs h s in
      case checked_add (seq_next progress) 1 of
        None \<Rightarrow> (Err (Expectation ''sequence is full''), h)
      | Some n \<Rightarrow>
          (Ok \<lparr>t_sequence = s, t_index = seq_next progress\<rparr>,
           h\<lparr>seqs := (seqs h)(s := progress\<lparr>seq_next := n\<rparr>)\<rparr>))"

section \<open>Configuration of an expectation\<close>

record config =
  cfg_count :: "call_count option"
  cfg_sequence :: "seq_id option"

definition default_config :: config where
  "default_config = \<lparr>cfg_count = None, cfg_sequence = None\<rparr>"

definition times :: "count_spec \<Rightarrow> config \<Rightarrow> config" where
  "times s c = c\<lparr>cfg_count := Some (into_count s)\<rparr>"

definition once :: "config \<Rightarrow> config" where
  "once c = times (Exactly 1) c"

definition in_sequence :: "seq_id \<Rightarrow> config \<Rightarrow> config" where
  "in_sequence s c = c\<lparr>cfg_sequence := Some s\<rparr>"

definition for_once :: "config \<Rightarrow> config result" where
  "for_once c =
     and_then (validate_count (case cfg_count c of Some n \<Rightarrow> n | None \<Rightarrow> from_usize 1)) (\<lambda>n.
     if (case cc_max n of None \<Rightarrow> True | Some m \<Rightarrow> 1 < m)
     then Err (Expectation ''a one-shot response allows at most one call'')
     else Ok (c\<lparr>cfg_count := Some n\<rparr>))"

definition validate_config :: "config \<Rightarrow> call_count result" where
  "validate_config c =
     and_then (validate_count (case cfg_count c of Some n \<Rightarrow> n | None \<Rightarrow> into_count RangeFull)) (\<lambda>n.
     if cfg_sequence c \<noteq> None \<and> (cc_min n = 0 \<or> cc_max n \<noteq> Some (cc_min n))
     then Err (Expectation ''sequence expectations need an exact positive count'')
     else Ok n)"

section \<open>Claiming and verifying one expectation\<close>

datatype claim = Taken | Exhausted

definition fail_meta :: "meta_id \<Rightarrow> string \<Rightarrow> heap \<Rightarrow> claim result \<times> heap" where
  "fail_meta i reason h =
     (let m = metas h i; message = m_name m @ '': '' @ reason in
      (Err (Expectation message),
       h\<lparr>metas := (metas h)(i := m\<lparr>m_failure :=
            (case m_failure m of Some f \<Rightarrow> Some f | None \<Rightarrow> Some message)\<rparr>)\<rparr>))"

definition claim :: "meta_id \<Rightarrow> heap \<Rightarrow> claim result \<times> heap" where
  "claim i h =
     (let m = metas h i; limit = cc_max (m_count m) in
      if limit = Some 0 then fail_meta i ''a forbidden call was made'' h
      else if (case limit of Some mx \<Rightarrow> mx \<le> m_calls m | None \<Rightarrow> False)
      then (Ok Exhausted, h)
      else case checked_add (m_calls m) 1 of
        None \<Rightarrow> fail_meta i ''call count overflow'' h
      | Some calls \<Rightarrow>
         (case m_ticket m of
            Some t \<Rightarrow>
              (let progress = seqs h (t_sequence t) in
               if seq_cursor progress \<noteq> t_index t
               then fail_meta i ''call arrived out of order'' h
               else
                 (Ok Taken,
                  h\<lparr>seqs := (seqs h)(t_sequence t :=
                        (if limit = Some calls
                         then progress\<lparr>seq_cursor := seq_cursor progress + 1\<rparr> else progress)),
                    metas := (metas h)(i := m\<lparr>m_calls := calls\<rparr>)\<rparr>))
          | None \<Rightarrow> (Ok Taken, h\<lparr>metas := (metas h)(i := m\<lparr>m_calls := calls\<rparr>)\<rparr>)))"

definition verify_meta :: "meta \<Rightarrow> unit result" where
  "verify_meta m =
     (case m_failure m of
        Some message \<Rightarrow> Err (Expectation message)
      | None \<Rightarrow>
         (if m_calls m < cc_min (m_count m)
          then Err (Expectation (m_name m @ '': expected at least '' @
                 show_nat (cc_min (m_count m)) @ '' calls, observed '' @ show_nat (m_calls m)))
          else Ok ()))"

text \<open>The public handle (\<^verbatim>\<open>Expectation::calls\<close>, \<^verbatim>\<open>Expectation::verify\<close>).\<close>

definition expectation_calls :: "meta_id \<Rightarrow> heap \<Rightarrow> usize" where
  "expectation_calls i h = m_calls (metas h i)"

definition expectation_verify :: "meta_id \<Rightarrow> heap \<Rightarrow> unit result" where
  "expectation_verify i h = check (verify_meta (metas h i))"

section \<open>The rule table of a mock\<close>

text \<open>
  \<open>'r\<close> is the part of a rule that differs between generated mocks (its matcher and its
  action); the code reaches its \<^verbatim>\<open>Meta\<close> through the trait \<^verbatim>\<open>Rule\<close>.
\<close>

record 'r mock_state =
  st_name :: string
  st_active :: bool
  st_rules :: "(meta_id \<times> 'r) list"
  st_failure :: "error option"

definition new_state :: "string \<Rightarrow> 'r mock_state" where
  "new_state name = \<lparr>st_name = name, st_active = True, st_rules = [], st_failure = None\<rparr>"

definition inactive_error :: "'r mock_state \<Rightarrow> error" where
  "inactive_error st = Expectation (st_name st @ '': mock is no longer active'')"

definition new_meta :: "string \<Rightarrow> call_count \<Rightarrow> meta" where
  "new_meta name count =
     \<lparr>m_name = name, m_count = count, m_calls = 0, m_ticket = None, m_failure = None\<rparr>"

text \<open>
  \<open>mk\<close> (the closure \<^verbatim>\<open>make\<close>) builds the rule from its meta. It runs while no lock is held and may itself use
  the mock (a test deactivates the state inside it), so it takes and returns the state: that is
  why the code tests \<^verbatim>\<open>active\<close> twice.
\<close>

type_synonym 'r maker = "meta_id \<Rightarrow> 'r mock_state \<Rightarrow> heap \<Rightarrow> 'r \<times> 'r mock_state \<times> heap"

definition add_with ::
  "config \<Rightarrow> 'r maker \<Rightarrow> 'r mock_state \<Rightarrow> heap \<Rightarrow> meta_id result \<times> 'r mock_state \<times> heap" where
  "add_with cfg mk st h =
     (case validate_config cfg of
        Ok count \<Rightarrow>
          (if \<not> st_active st then (Err (inactive_error st), st, h)
           else
             let i = fresh_meta h;
                 h1 = h\<lparr>metas := (metas h)(i := new_meta (st_name st) count), fresh_meta := i + 1\<rparr>;
                 (rule, st2, h2) = mk i st h1
             in
               if \<not> st_active st2 then (Err (inactive_error st2), st2, h2)
               else case cfg_sequence cfg of
                 None \<Rightarrow> (Ok i, st2\<lparr>st_rules := st_rules st2 @ [(i, rule)]\<rparr>, h2)
               | Some s \<Rightarrow>
                  (case reserve s h2 of
                     (Ok t, h3) \<Rightarrow>
                       (Ok i, st2\<lparr>st_rules := st_rules st2 @ [(i, rule)]\<rparr>,
                        h3\<lparr>metas := (metas h3)(i := (metas h3 i)\<lparr>m_ticket := Some t\<rparr>)\<rparr>)
                   | (Err e, h3) \<Rightarrow> (Err e, st2, h3)
                   | (Panics p, h3) \<Rightarrow> (Panics p, st2, h3)
                   | (Aborts, h3) \<Rightarrow> (Aborts, st2, h3)
                   | (Diverges, h3) \<Rightarrow> (Diverges, st2, h3)))
      | Err e \<Rightarrow> (Err e, st, h)
      | Panics p \<Rightarrow> (Panics p, st, h)
      | Aborts \<Rightarrow> (Aborts, st, h)
      | Diverges \<Rightarrow> (Diverges, st, h))"

text \<open>\<^verbatim>\<open>State::fail\<close> keeps the first failure and unwinds.\<close>

definition note_failure :: "error \<Rightarrow> 'r mock_state \<Rightarrow> 'r mock_state" where
  "note_failure e st =
     st\<lparr>st_failure := (case st_failure st of Some f \<Rightarrow> Some f | None \<Rightarrow> Some e)\<rparr>"

definition fail_state :: "error \<Rightarrow> 'r mock_state \<Rightarrow> 'a result \<times> 'r mock_state" where
  "fail_state e st = (Panics (display e), note_failure e st)"

definition select_reason :: "bool \<Rightarrow> string" where
  "select_reason matched =
     (if matched then ''matching expectations are exhausted''
      else ''no expectation matched this call'')"

fun select_loop ::
  "('r \<Rightarrow> bool) \<Rightarrow> (meta_id \<times> 'r) list \<Rightarrow> bool \<Rightarrow> 'r mock_state \<Rightarrow> heap \<Rightarrow>
   (meta_id \<times> 'r) result \<times> 'r mock_state \<times> heap" where
  "select_loop matches [] matched st h =
     (let (r, st') = fail_state (Expectation (st_name st @ '': '' @ select_reason matched)) st
      in (r, st', h))"
| "select_loop matches ((i, rule) # rules) matched st h =
     (if matches rule
      then case claim i h of
             (Ok Taken, h') \<Rightarrow> (Ok (i, rule), st, h')
           | (Ok Exhausted, h') \<Rightarrow> select_loop matches rules True st h'
           | (Err e, h') \<Rightarrow> (let (r, st') = fail_state e st in (r, st', h'))
           | (Panics p, h') \<Rightarrow> (Panics p, st, h')
           | (Aborts, h') \<Rightarrow> (Aborts, st, h')
           | (Diverges, h') \<Rightarrow> (Diverges, st, h')
      else select_loop matches rules matched st h)"

definition select ::
  "('r \<Rightarrow> bool) \<Rightarrow> 'r mock_state \<Rightarrow> heap \<Rightarrow> (meta_id \<times> 'r) result \<times> 'r mock_state \<times> heap" where
  "select matches st h =
     (if \<not> st_active st
      then (let (r, st') = fail_state (inactive_error st) st in (r, st', h))
      else select_loop matches (st_rules st) False st h)"

fun verify_rules :: "(meta_id \<times> 'r) list \<Rightarrow> heap \<Rightarrow> unit result" where
  "verify_rules [] h = Ok ()"
| "verify_rules ((i, rule) # rules) h =
     and_then (verify_meta (metas h i)) (\<lambda>_. verify_rules rules h)"

definition verify_state :: "'r mock_state \<Rightarrow> heap \<Rightarrow> unit result" where
  "verify_state st h =
     (case st_failure st of Some e \<Rightarrow> Err e | None \<Rightarrow> verify_rules (st_rules st) h)"

definition checkpoint :: "'r mock_state \<Rightarrow> heap \<Rightarrow> unit result \<times> 'r mock_state" where
  "checkpoint st h =
     (if \<not> st_active st then (Err (inactive_error st), st)
      else case verify_state st h of
        Ok u \<Rightarrow> (Ok u, st\<lparr>st_rules := []\<rparr>)
      | Err e \<Rightarrow> (Err e, st)
      | Panics p \<Rightarrow> (Panics p, st)
      | Aborts \<Rightarrow> (Aborts, st)
      | Diverges \<Rightarrow> (Diverges, st))"

definition deactivate :: "'r mock_state \<Rightarrow> 'r mock_state" where
  "deactivate st = st\<lparr>st_active := False, st_rules := []\<rparr>"

section \<open>The guard against a mock that calls itself\<close>

text \<open>\<open>ACTIVE_CALLS\<close> of one thread is the list of the mocks it is inside of.\<close>

definition try_enter :: "usize \<Rightarrow> usize list \<Rightarrow> unit result \<times> usize list" where
  "try_enter key calls =
     (if key \<in> set calls then (Err (Expectation ''a mock called itself recursively''), calls)
      else (Ok (), calls @ [key]))"

definition drop_guard :: "usize \<Rightarrow> usize list \<Rightarrow> usize list" where
  "drop_guard key calls = filter (\<lambda>k. k \<noteq> key) calls"

text \<open>\<^verbatim>\<open>State::enter\<close>: a recursive call is recorded as a failure of the mock and unwinds.\<close>

definition enter ::
  "usize \<Rightarrow> 'r mock_state \<Rightarrow> usize list \<Rightarrow> unit result \<times> 'r mock_state \<times> usize list" where
  "enter key st calls =
     (case try_enter key calls of
        (Err failure, calls') \<Rightarrow>
          (let (r, st') = fail_state (Expectation (st_name st @ '': '' @ display failure)) st
           in (r, st', calls'))
      | (r, calls') \<Rightarrow> (r, st, calls'))"

section \<open>Counts: what a range means\<close>

text \<open>Membership in the Rust range a count was built from.\<close>

fun in_spec :: "count_spec \<Rightarrow> nat \<Rightarrow> bool" where
  "in_spec (Exactly n) k \<longleftrightarrow> k = n"
| "in_spec (Range lo hi) k \<longleftrightarrow> lo \<le> k \<and> k < hi"
| "in_spec (RangeInclusive lo hi) k \<longleftrightarrow> lo \<le> k \<and> k \<le> hi"
| "in_spec (RangeFrom lo) k \<longleftrightarrow> lo \<le> k"
| "in_spec (RangeTo hi) k \<longleftrightarrow> k < hi"
| "in_spec (RangeToInclusive hi) k \<longleftrightarrow> k \<le> hi"
| "in_spec RangeFull k \<longleftrightarrow> True"

definition admits :: "call_count \<Rightarrow> nat \<Rightarrow> bool" where
  "admits c k \<longleftrightarrow> cc_min c \<le> k \<and> (case cc_max c of Some m \<Rightarrow> k \<le> m | None \<Rightarrow> True)"

lemma admits_into_count: "admits (into_count s) k \<longleftrightarrow> in_spec s k"
  by (cases s) (auto simp: admits_def count_defs split: option.splits)

lemma validate_count_eq_Ok: "validate_count c = Ok c' \<longleftrightarrow> c' = c \<and> (\<exists>k. admits c k)"
  by (auto simp: validate_count_def admits_def not_less split: option.splits)

lemma validate_count_returns [simp]: "returns (validate_count c)"
  by (simp add: validate_count_def)

lemma validate_config_returns [simp]: "returns (validate_config c)"
  by (simp add: validate_config_def result_simps)

section \<open>What a claim does\<close>

text \<open>
  The five ways a claim can end, as conditions on the heap before it. \<open>claim_taken\<close>
  and \<open>claim_failed\<close> give the heap after it.
\<close>

definition forbidden :: "meta \<Rightarrow> bool" where
  "forbidden m \<longleftrightarrow> cc_max (m_count m) = Some 0"

definition exhausted :: "meta \<Rightarrow> bool" where
  "exhausted m \<longleftrightarrow> (\<exists>mx. cc_max (m_count m) = Some mx \<and> 0 < mx \<and> mx \<le> m_calls m)"

definition in_turn :: "heap \<Rightarrow> meta \<Rightarrow> bool" where
  "in_turn h m \<longleftrightarrow>
     (case m_ticket m of
        None \<Rightarrow> True
      | Some t \<Rightarrow> seq_cursor (seqs h (t_sequence t)) = t_index t)"

definition claimable :: "heap \<Rightarrow> meta \<Rightarrow> bool" where
  "claimable h m \<longleftrightarrow>
     \<not> forbidden m \<and> \<not> exhausted m \<and> m_calls m < usize_max \<and> in_turn h m"

lemmas claim_conditions = forbidden_def exhausted_def in_turn_def claimable_def

lemma claim_taken_iff:
  "(\<exists>h'. claim i h = (Ok Taken, h')) \<longleftrightarrow> claimable h (metas h i)"
  by (auto simp: claim_def claim_conditions fail_meta_def Let_def not_le
      split: option.splits if_splits)

lemma claim_exhausted_iff:
  "claim i h = (Ok Exhausted, h') \<longleftrightarrow> exhausted (metas h i) \<and> h' = h"
  by (auto simp: claim_def claim_conditions fail_meta_def Let_def not_le
      split: option.splits if_splits)

lemma claim_result_disj:
  "(\<exists>h'. claim i h = (Ok Taken, h')) \<or> claim i h = (Ok Exhausted, h) \<or>
   (\<exists>reason. claim i h = fail_meta i reason h)"
  unfolding claim_def Let_def by (auto split: option.split)

lemma claim_result_cases:
  obtains h' where "claim i h = (Ok Taken, h')"
  | "claim i h = (Ok Exhausted, h)"
  | reason where "claim i h = fail_meta i reason h"
  using claim_result_disj [of i h] by blast

lemma claim_not_panics [simp]:
  "claim i h \<noteq> (Panics p, h')" "claim i h \<noteq> (Aborts, h')" "claim i h \<noteq> (Diverges, h')"
  by (cases i h rule: claim_result_cases; simp add: fail_meta_def Let_def)+

text \<open>
  The heap after a claim that was taken: one more call, and the sequence moves on when that
  call was the last one the expectation allows.
\<close>

definition after_taken :: "meta_id \<Rightarrow> heap \<Rightarrow> heap" where
  "after_taken i h =
     (let m = metas h i; m' = m\<lparr>m_calls := m_calls m + 1\<rparr> in
      case m_ticket m of
        None \<Rightarrow> h\<lparr>metas := (metas h)(i := m')\<rparr>
      | Some t \<Rightarrow>
          h\<lparr>seqs := (seqs h)(t_sequence t :=
               (let p = seqs h (t_sequence t) in
                if cc_max (m_count m) = Some (m_calls m + 1)
                then p\<lparr>seq_cursor := seq_cursor p + 1\<rparr> else p)),
            metas := (metas h)(i := m')\<rparr>)"

lemma claim_taken:
  "claim i h = (Ok Taken, h') \<Longrightarrow> claimable h (metas h i) \<and> h' = after_taken i h"
  using claim_taken_iff [of i h]
  by (auto simp: claim_def after_taken_def claim_conditions fail_meta_def Let_def
      split: option.splits if_splits)

lemma claim_claimable: "claimable h (metas h i) \<Longrightarrow> claim i h = (Ok Taken, after_taken i h)"
  using claim_taken_iff [of i h] claim_taken [of i h] by blast

lemma metas_after_taken [simp]:
  "metas (after_taken i h) =
     (metas h)(i := (metas h i)\<lparr>m_calls := m_calls (metas h i) + 1\<rparr>)"
  by (simp add: after_taken_def Let_def split: option.splits)

lemma fresh_after_taken [simp]: "fresh_meta (after_taken i h) = fresh_meta h"
  by (simp add: after_taken_def Let_def split: option.splits)

text \<open>A claim that fails records the first failure of the expectation and nothing else.\<close>

definition record_failure :: "meta_id \<Rightarrow> string \<Rightarrow> heap \<Rightarrow> heap" where
  "record_failure i message h =
     h\<lparr>metas := (metas h)(i := (metas h i)\<lparr>m_failure :=
        (case m_failure (metas h i) of Some f \<Rightarrow> Some f | None \<Rightarrow> Some message)\<rparr>)\<rparr>"

lemma fail_meta_eq:
  "fail_meta i reason h =
     (Err (Expectation (m_name (metas h i) @ '': '' @ reason)),
      record_failure i (m_name (metas h i) @ '': '' @ reason) h)"
  by (simp add: fail_meta_def record_failure_def Let_def)

definition rejection_reason :: "meta \<Rightarrow> string" where
  "rejection_reason m =
     (if forbidden m then ''a forbidden call was made''
      else if usize_max \<le> m_calls m then ''call count overflow''
      else ''call arrived out of order'')"

lemma claim_spec:
  "claim i h =
     (if exhausted (metas h i) then (Ok Exhausted, h)
      else if claimable h (metas h i) then (Ok Taken, after_taken i h)
      else fail_meta i (rejection_reason (metas h i)) h)"
proof (cases "exhausted (metas h i) \<or> claimable h (metas h i)")
  case True
  then show ?thesis
    using claim_claimable [of h i] claim_exhausted_iff [of i h h] by (auto simp: claimable_def)
next
  case False
  then show ?thesis
    by (auto simp: claim_def claim_conditions rejection_reason_def Let_def not_le
        split: option.splits)
qed

lemma claim_failed:
  assumes "claim i h = (Err e, h')"
  obtains message where "e = Expectation message" and "h' = record_failure i message h"
  using assms by (cases i h rule: claim_result_cases) (auto simp: fail_meta_eq)

lemma record_failure_simps [simp]:
  "seqs (record_failure i msg h) = seqs h"
  "fresh_meta (record_failure i msg h) = fresh_meta h"
  "m_calls (metas (record_failure i msg h) j) = m_calls (metas h j)"
  "m_count (metas (record_failure i msg h) j) = m_count (metas h j)"
  "m_ticket (metas (record_failure i msg h) j) = m_ticket (metas h j)"
  "m_name (metas (record_failure i msg h) j) = m_name (metas h j)"
  by (auto simp: record_failure_def)

section \<open>Selecting a rule\<close>

text \<open>
  The specification of a call: the first rule that matches and has calls left answers it. When
  there is none, or when that rule may not be called now (it is forbidden, its count would
  overflow, or it is not its turn in its sequence), the call is rejected.
\<close>

definition candidate :: "('r \<Rightarrow> bool) \<Rightarrow> heap \<Rightarrow> (meta_id \<times> 'r) list \<Rightarrow> (meta_id \<times> 'r) option" where
  "candidate matches h rules =
     List.find (\<lambda>(i, r). matches r \<and> \<not> exhausted (metas h i)) rules"

lemma candidate_simps [simp]:
  "candidate matches h [] = None"
  "candidate matches h ((i, r) # rules) =
     (if matches r \<and> \<not> exhausted (metas h i) then Some (i, r) else candidate matches h rules)"
  by (simp_all add: candidate_def)

lemma note_failure_simps [simp]:
  "st_rules (note_failure e st) = st_rules st"
  "st_active (note_failure e st) = st_active st"
  "st_name (note_failure e st) = st_name st"
  "st_failure (note_failure e st) = (case st_failure st of Some f \<Rightarrow> Some f | None \<Rightarrow> Some e)"
  by (simp_all add: note_failure_def)

definition rejected_call :: "error \<Rightarrow> 'r mock_state \<Rightarrow> heap \<Rightarrow> 'a result \<times> 'r mock_state \<times> heap" where
  "rejected_call e st h = (Panics (display e), note_failure e st, h)"

definition select_spec ::
  "('r \<Rightarrow> bool) \<Rightarrow> (meta_id \<times> 'r) list \<Rightarrow> bool \<Rightarrow> 'r mock_state \<Rightarrow> heap \<Rightarrow>
   (meta_id \<times> 'r) result \<times> 'r mock_state \<times> heap" where
  "select_spec matches rules matched st h =
     (case candidate matches h rules of
        None \<Rightarrow>
          rejected_call (Expectation (st_name st @ '': '' @
            select_reason (matched \<or> (\<exists>(i, r) \<in> set rules. matches r)))) st h
      | Some (i, r) \<Rightarrow>
          if claimable h (metas h i) then (Ok (i, r), st, after_taken i h)
          else let msg = m_name (metas h i) @ '': '' @ rejection_reason (metas h i)
               in rejected_call (Expectation msg) st (record_failure i msg h))"

lemma select_spec_simps [simp]:
  "select_spec matches [] matched st h =
     rejected_call (Expectation (st_name st @ '': '' @ select_reason matched)) st h"
  "\<not> matches r \<Longrightarrow>
     select_spec matches ((i, r) # rules) matched st h = select_spec matches rules matched st h"
  "matches r \<Longrightarrow> exhausted (metas h i) \<Longrightarrow>
     select_spec matches ((i, r) # rules) matched st h = select_spec matches rules True st h"
  by (simp_all add: select_spec_def split: option.split)

lemma select_loop_eq_spec:
  "select_loop matches rules matched st h = select_spec matches rules matched st h"
proof (induction rules arbitrary: matched)
  case Nil
  then show ?case by (simp add: fail_state_def rejected_call_def)
next
  case (Cons a rules)
  obtain j q where a: "a = (j, q)" by (cases a)
  consider "\<not> matches q" | "matches q" "exhausted (metas h j)"
    | "matches q" "\<not> exhausted (metas h j)" by blast
  then show ?case
  proof cases
    case 3
    then show ?thesis
      by (simp add: a claim_spec select_spec_def fail_meta_eq rejected_call_def fail_state_def Let_def)
  qed (use Cons.IH in \<open>simp_all add: a claim_spec\<close>)
qed

lemma select_eq_spec:
  "select matches st h =
     (if st_active st then select_spec matches (st_rules st) False st h
      else rejected_call (inactive_error st) st h)"
  by (simp add: select_def select_loop_eq_spec rejected_call_def fail_state_def)

lemma select_Ok_iff:
  "select matches st h = (Ok (i, r), st', h') \<longleftrightarrow>
     st_active st \<and> candidate matches h (st_rules st) = Some (i, r) \<and>
     claimable h (metas h i) \<and> st' = st \<and> h' = after_taken i h"
  by (auto simp: select_eq_spec select_spec_def rejected_call_def Let_def
      split: option.split if_splits)

lemma select_outcome:
  "(\<exists>v h'. select matches st h = (Ok v, st, h')) \<or>
   (\<exists>e h'. select matches st h = rejected_call e st h')"
  by (auto simp: select_eq_spec select_spec_def Let_def split: option.split)

section \<open>Verification of a mock\<close>

lemma verify_meta_eq_Ok:
  "verify_meta m = Ok u \<longleftrightarrow> m_failure m = None \<and> cc_min (m_count m) \<le> m_calls m"
  by (auto simp: verify_meta_def split: option.splits)

lemma verify_rules_eq_Ok:
  "verify_rules rules h = Ok u \<longleftrightarrow>
     (\<forall>(i, r) \<in> set rules. m_failure (metas h i) = None \<and>
        cc_min (m_count (metas h i)) \<le> m_calls (metas h i))"
  by (induction rules) (auto simp: result_simps verify_meta_eq_Ok)

lemma verify_meta_returns [simp]: "returns (verify_meta m)"
  by (simp add: verify_meta_def split: option.splits)

lemma verify_rules_returns [simp]: "returns (verify_rules rules h)"
  by (induction rules) (auto simp: result_simps)

lemma verify_state_returns [simp]: "returns (verify_state st h)"
  by (simp add: verify_state_def split: option.splits)

section \<open>Properties\<close>

text \<open>
  C33: every Rust range or number given to \<^verbatim>\<open>times\<close> becomes a count that admits exactly
  the call numbers of that range, and the validation accepts the count exactly when the range is
  not empty.
\<close>

theorem count_conversion:
  "(admits (into_count s) k \<longleftrightarrow> in_spec s k) \<and>
   (validate_count (into_count s) = Ok (into_count s) \<longleftrightarrow> (\<exists>n. in_spec s n)) \<and>
   returns (validate_count (into_count s))"
  by (simp add: admits_into_count validate_count_eq_Ok)

text \<open>
  C21: a call is answered by the first rule, in the order of registration, that matches and is not
  exhausted, and only if that rule may be called now (it is not forbidden, its counter does not
  overflow, it is its turn in its sequence); the claim counts one call and changes nothing else of
  the mock.
\<close>

theorem select_answers:
  "select matches st h = (Ok (i, r), st', h') \<longleftrightarrow>
     st_active st \<and>
     List.find (\<lambda>(j, q). matches q \<and> \<not> exhausted (metas h j)) (st_rules st) = Some (i, r) \<and>
     claimable h (metas h i) \<and> st' = st \<and> h' = after_taken i h"
  by (simp add: select_Ok_iff candidate_def)

text \<open>
  C30: a call that no rule answers unwinds, and the mock fails every later verification with the
  first failure it recorded, whatever happens to the counters afterwards.
\<close>

theorem rejected_call_fails_verification:
  "(\<exists>v h'. select matches st h = (Ok v, st, h')) \<or>
   (\<exists>e f st' h'. select matches st h = (Panics (display e), st', h') \<and>
      f = (case st_failure st of Some first \<Rightarrow> first | None \<Rightarrow> e) \<and>
      st_failure st' = Some f \<and> (\<forall>h2. verify_state st' h2 = Err f))"
  using select_outcome [of matches st h]
  by (auto simp: rejected_call_def verify_state_def split: option.split)

text \<open>
  C31: verification succeeds exactly when the mock recorded no failure, none of its expectations
  did, and each was called at least as often as its minimum; a checkpoint of an active mock
  removes the rules exactly in that case and otherwise leaves the mock unchanged.
\<close>

theorem verify_and_checkpoint:
  "(verify_state st h = Ok () \<longleftrightarrow>
      st_failure st = None \<and>
      (\<forall>(i, r) \<in> set (st_rules st). m_failure (metas h i) = None \<and>
         cc_min (m_count (metas h i)) \<le> m_calls (metas h i))) \<and>
   checkpoint st h =
     (if \<not> st_active st then (Err (inactive_error st), st)
      else if verify_state st h = Ok () then (Ok (), st\<lparr>st_rules := []\<rparr>)
      else (verify_state st h, st))"
proof -
  have "verify_state st h = Ok () \<longleftrightarrow> st_failure st = None \<and> verify_rules (st_rules st) h = Ok ()"
    by (auto simp: verify_state_def split: option.split)
  moreover have "returns (verify_state st h)" by simp
  ultimately show ?thesis
    by (cases "verify_state st h") (auto simp: verify_rules_eq_Ok checkpoint_def)
qed

definition example_rules :: "nat mock_state" where
  "example_rules = \<lparr>st_name = ''read'', st_active = True, st_rules = [(0, 5)], st_failure = None\<rparr>"

definition example_heap :: "usize \<Rightarrow> heap" where
  "example_heap calls = \<lparr>seqs = (\<lambda>_. new_progress),
     metas = (\<lambda>_. (new_meta ''read'' (into_count (RangeInclusive 1 2)))\<lparr>m_calls := calls\<rparr>),
     fresh_meta = 1\<rparr>"

theorem verify_and_checkpoint_witness:
  "verify_state example_rules (example_heap 1) = Ok () \<and>
   checkpoint example_rules (example_heap 1) = (Ok (), example_rules\<lparr>st_rules := []\<rparr>)"
  using verify_and_checkpoint [of example_rules "example_heap 1"]
  by (simp add: example_rules_def example_heap_def new_meta_def count_defs)

text \<open>A configuration accepted for a one-time response never allows a second call.\<close>

lemma one_shot_count:
  assumes "for_once c = Ok c'" and "validate_config c' = Ok n"
  shows "cc_max n = Some 0 \<or> cc_max n = Some 1"
  using assms
  by (auto simp: for_once_def validate_config_def result_simps not_less le_Suc_eq
      validate_count_eq_Ok split: if_splits option.splits)

text \<open>
  C32: while a thread is inside a mock, entering the same mock again unwinds and is recorded as the
  mock's failure, entering another mock is allowed, and leaving the mock makes it callable again.
\<close>

theorem recursion_guard:
  assumes "enter key st calls = (Ok (), st1, calls1)"
    and e: "e = Expectation (st_name st2 @ '': a mock called itself recursively'')"
  shows "st1 = st \<and>
    enter key st2 calls1 = (Panics (display e), note_failure e st2, calls1) \<and>
    verify_state (note_failure e st2) h \<noteq> Ok () \<and>
    (other \<notin> set calls1 \<longrightarrow> enter other st2 calls1 = (Ok (), st2, calls1 @ [other])) \<and>
    drop_guard key calls1 = calls"
proof -
  from assms(1) have c: "key \<notin> set calls" "calls1 = calls @ [key]" "st1 = st"
    by (auto simp: enter_def try_enter_def fail_state_def split: if_splits)
  then have "drop_guard key calls1 = calls" by (auto simp: drop_guard_def filter_id_conv)
  moreover have "verify_state (note_failure e st2) h \<noteq> Ok ()"
    by (simp add: verify_state_def split: option.split)
  ultimately show ?thesis
    using c e by (simp add: enter_def try_enter_def fail_state_def)
qed

theorem recursion_guard_witness:
  "enter 7 example_rules [3] = (Ok (), example_rules, [3, 7]) \<and> drop_guard 7 [3, 7] = [3]"
proof -
  have a: "enter 7 example_rules [3] = (Ok (), example_rules, [3, 7])"
    by (simp add: enter_def try_enter_def)
  from recursion_guard [OF a refl, of example_rules "example_heap 1" 0] a show ?thesis by simp
qed

end
