(* ===== verification/Interleaving.thy ===== *)
theory Interleaving
  imports Expectations
begin

text \<open>
  Several threads use several mocks at once. A step of \<open>mock_step\<close> is one critical section
  of src/expectation.rs: a call of \<^verbatim>\<open>State::select\<close> takes a snapshot of the rules under
  the rule lock (\<open>Call\<close>), then claims one expectation after the other under the lock of each
  (\<open>Skip\<close>, \<open>Take\<close>, \<open>Pass\<close>, \<open>Reject\<close>, \<open>Finish\<close>), while other
  threads add, call, check or clear expectations in between.

  The world keeps a log of the claims that were taken, oldest first: the calls the mocks
  answered, in the order in which they were answered. The invariants relate the counters of the
  program to that log, so the theorems speak about the calls themselves: no expectation answers
  more calls than its maximum, and expectations of one sequence are answered in the order in
  which they joined it, whatever the threads do.
\<close>

section \<open>Heap transitions\<close>

definition alloc :: "string \<Rightarrow> call_count \<Rightarrow> heap \<Rightarrow> heap" where
  "alloc name count h =
     h\<lparr>metas := (metas h)(fresh_meta h := new_meta name count), fresh_meta := fresh_meta h + 1\<rparr>"

definition join_sequence :: "seq_id \<Rightarrow> meta_id \<Rightarrow> heap \<Rightarrow> heap" where
  "join_sequence s i h =
     (let p = seqs h s in
      h\<lparr>seqs := (seqs h)(s := p\<lparr>seq_next := seq_next p + 1\<rparr>),
        metas := (metas h)(i := (metas h i)\<lparr>m_ticket :=
           Some \<lparr>t_sequence = s, t_index = seq_next p\<rparr>\<rparr>)\<rparr>)"

text \<open>What a step can do to the counters; the label is the expectation whose claim was taken.\<close>

inductive heap_step :: "heap \<Rightarrow> meta_id option \<Rightarrow> heap \<Rightarrow> bool" where
  Idle: "heap_step h None h"
| Taken: "claimable h (metas h i) \<Longrightarrow> i < fresh_meta h \<Longrightarrow> heap_step h (Some i) (after_taken i h)"
| Failed: "heap_step h None (record_failure i msg h)"
| Alloc: "heap_step h None (alloc name count h)"
| Joined: "cc_max count = Some (cc_min count) \<Longrightarrow> 0 < cc_min count \<Longrightarrow>
    seq_next (seqs h s) + 1 \<le> usize_max \<Longrightarrow>
    heap_step h None (join_sequence s (fresh_meta h) (alloc name count h))"

section \<open>The invariant of the counters\<close>

definition count_ok :: "meta \<Rightarrow> nat \<Rightarrow> bool" where
  "count_ok m n \<longleftrightarrow> n = m_calls m \<and> m_calls m \<le> usize_max \<and>
     (\<forall>mx. cc_max (m_count m) = Some mx \<longrightarrow> m_calls m \<le> mx)"

definition counts_ok :: "heap \<Rightarrow> meta_id list \<Rightarrow> bool" where
  "counts_ok h log \<longleftrightarrow>
     (\<forall>i. count_ok (metas h i) (count_list log i)) \<and>
     (\<forall>i. fresh_meta h \<le> i \<longrightarrow> m_calls (metas h i) = 0 \<and> m_ticket (metas h i) = None)"

lemma counts_okD:
  assumes "counts_ok h log"
  shows "count_ok (metas h i) (count_list log i)" "count_list log i = m_calls (metas h i)"
    "fresh_meta h \<le> i \<Longrightarrow> m_calls (metas h i) = 0"
    "fresh_meta h \<le> i \<Longrightarrow> m_ticket (metas h i) = None"
  using assms by (auto simp: counts_ok_def count_ok_def)

text \<open>
  Where an expectation stands in its sequence: the ones before the cursor are complete, the one
  at the cursor is not, the ones after it were never called.
\<close>

definition ticket_ok :: "heap \<Rightarrow> meta \<Rightarrow> ticket \<Rightarrow> bool" where
  "ticket_ok h m t \<longleftrightarrow>
     (let cursor = seq_cursor (seqs h (t_sequence t)); n = cc_min (m_count m) in
      0 < n \<and> cc_max (m_count m) = Some n \<and> t_index t < seq_next (seqs h (t_sequence t)) \<and>
      (t_index t < cursor \<longrightarrow> m_calls m = n) \<and> (t_index t = cursor \<longrightarrow> m_calls m < n) \<and>
      (cursor < t_index t \<longrightarrow> m_calls m = 0))"

definition tickets_ok :: "heap \<Rightarrow> bool" where
  "tickets_ok h \<longleftrightarrow>
     (\<forall>i t. m_ticket (metas h i) = Some t \<longrightarrow> ticket_ok h (metas h i) t) \<and>
     (\<forall>i j t. m_ticket (metas h i) = Some t \<longrightarrow> m_ticket (metas h j) = Some t \<longrightarrow> i = j)"

definition seqs_ok :: "heap \<Rightarrow> bool" where
  "seqs_ok h \<longleftrightarrow>
     (\<forall>s. seq_cursor (seqs h s) \<le> seq_next (seqs h s) \<and> seq_next (seqs h s) \<le> usize_max)"

text \<open>
  The log is ordered: when an expectation answered a call, every expectation before it in its
  sequence had answered all of its calls.
\<close>

definition log_ordered :: "heap \<Rightarrow> meta_id list \<Rightarrow> bool" where
  "log_ordered h log \<longleftrightarrow>
     (\<forall>pre j post i t u. log = pre @ j # post \<longrightarrow>
        m_ticket (metas h j) = Some t \<longrightarrow> m_ticket (metas h i) = Some u \<longrightarrow>
        t_sequence u = t_sequence t \<longrightarrow> t_index u < t_index t \<longrightarrow>
        cc_max (m_count (metas h i)) = Some (count_list pre i))"

definition heap_inv :: "heap \<Rightarrow> meta_id list \<Rightarrow> bool" where
  "heap_inv h log \<longleftrightarrow> counts_ok h log \<and> tickets_ok h \<and> seqs_ok h \<and> log_ordered h log"

fun extend_log :: "meta_id list \<Rightarrow> meta_id option \<Rightarrow> meta_id list" where
  "extend_log log None = log"
| "extend_log log (Some i) = log @ [i]"

lemma count_list_snoc [simp]:
  "count_list (xs @ [x]) y = count_list xs y + (if x = y then 1 else 0)"
  by (simp add: count_list_append)

lemmas heap_inv_defs = heap_inv_def counts_ok_def tickets_ok_def seqs_ok_def log_ordered_def

subsection \<open>Every heap transition keeps it\<close>

lemma seqs_after_taken:
  "seqs (after_taken i h) =
     (case m_ticket (metas h i) of
        None \<Rightarrow> seqs h
      | Some t \<Rightarrow> (seqs h)(t_sequence t := (let p = seqs h (t_sequence t) in
                if cc_max (m_count (metas h i)) = Some (m_calls (metas h i) + 1)
                then p\<lparr>seq_cursor := seq_cursor p + 1\<rparr> else p)))"
  by (simp add: after_taken_def Let_def split: option.splits)

lemma ticket_eqI: "t_sequence t = t_sequence u \<Longrightarrow> t_index t = t_index u \<Longrightarrow> t = u"
  for t u :: ticket
  by (cases t; cases u) simp

lemma counts_ok_taken:
  assumes inv: "counts_ok h log" and cl: "claimable h (metas h i)" and i: "i < fresh_meta h"
  shows "counts_ok (after_taken i h) (log @ [i])"
proof -
  have "count_ok (metas (after_taken i h) j) (count_list (log @ [i]) j)" for j
    using counts_okD(1) [OF inv, of j] cl
    by (auto simp: count_ok_def claim_conditions not_le Suc_le_eq)
  with counts_okD(3,4) [OF inv] i show ?thesis by (auto simp: counts_ok_def)
qed

lemma tickets_ok_taken:
  assumes "tickets_ok h" "claimable h (metas h i)"
  shows "tickets_ok (after_taken i h)"
  unfolding tickets_ok_def
proof (intro conjI allI impI)
  fix j t assume "m_ticket (metas (after_taken i h) j) = Some t"
  then have t: "m_ticket (metas h j) = Some t" by (auto split: if_splits)
  with assms(1) have ok: "ticket_ok h (metas h j) t" by (auto simp: tickets_ok_def)
  show "ticket_ok (after_taken i h) (metas (after_taken i h) j) t"
  proof (cases "m_ticket (metas h i)")
    case None
    with t ok show ?thesis
      by (auto simp: ticket_ok_def seqs_after_taken Let_def)
  next
    case (Some u)
    with assms have oku: "ticket_ok h (metas h i) u" by (auto simp: tickets_ok_def)
    from Some assms(2) have turn: "seq_cursor (seqs h (t_sequence u)) = t_index u"
      by (simp add: claimable_def in_turn_def)
    have same: "j = i" if "t_sequence t = t_sequence u" "t_index t = t_index u"
    proof -
      from that have "t = u" by (rule ticket_eqI)
      with assms(1) t Some show ?thesis by (auto simp: tickets_ok_def)
    qed
    show ?thesis
    proof (cases "t_sequence t = t_sequence u")
      case seq: True
      have turn': "seq_cursor (seqs h (t_sequence t)) = t_index u" using turn seq by simp
      show ?thesis
      proof (cases "j = i")
        case True
        with t Some have "u = t" by simp
        with True oku turn Some show ?thesis by (simp add: ticket_ok_def seqs_after_taken Let_def)
      next
        case False
        with same seq have "t_index t \<noteq> t_index u" by blast
        with False ok turn' Some seq show ?thesis
          by (simp add: ticket_ok_def seqs_after_taken Let_def)
      qed
    next
      case False
      with Some t ok show ?thesis
        by (auto simp: ticket_ok_def seqs_after_taken Let_def)
    qed
  qed
next
  fix j k t
  assume "m_ticket (metas (after_taken i h) j) = Some t" "m_ticket (metas (after_taken i h) k) = Some t"
  then have "m_ticket (metas h j) = Some t" "m_ticket (metas h k) = Some t"
    by (auto split: if_splits)
  with assms(1) show "j = k" by (auto simp: tickets_ok_def)
qed

lemma seqs_ok_taken:
  assumes "tickets_ok h" "seqs_ok h" "claimable h (metas h i)"
  shows "seqs_ok (after_taken i h)"
proof (cases "m_ticket (metas h i)")
  case None
  with assms(2) show ?thesis by (simp add: seqs_ok_def seqs_after_taken)
next
  case (Some u)
  with assms have "ticket_ok h (metas h i) u" "seq_cursor (seqs h (t_sequence u)) = t_index u"
    by (auto simp: tickets_ok_def claimable_def in_turn_def)
  with Some assms(2) show ?thesis
    by (auto simp: seqs_ok_def seqs_after_taken ticket_ok_def Let_def)
qed

lemma log_ordered_taken:
  assumes inv: "counts_ok h log" "tickets_ok h" "log_ordered h log"
    and cl: "claimable h (metas h i)"
  shows "log_ordered (after_taken i h) (log @ [i])"
  unfolding log_ordered_def
proof (intro allI impI)
  fix pre j post k t u
  assume log: "log @ [i] = pre @ j # post"
    and "m_ticket (metas (after_taken i h) j) = Some t"
    and "m_ticket (metas (after_taken i h) k) = Some u"
    and su: "t_sequence u = t_sequence t" "t_index u < t_index t"
  then have t: "m_ticket (metas h j) = Some t" and u: "m_ticket (metas h k) = Some u"
    by (auto split: if_splits)
  have "cc_max (m_count (metas h k)) = Some (count_list pre k)"
  proof (cases post rule: rev_cases)
    case Nil
    with log have pre: "pre = log" "j = i" by auto
    with t cl have "seq_cursor (seqs h (t_sequence t)) = t_index t"
      by (simp add: claimable_def in_turn_def)
    moreover have "ticket_ok h (metas h k) u" using inv(2) u by (auto simp: tickets_ok_def)
    ultimately have "cc_max (m_count (metas h k)) = Some (m_calls (metas h k))"
      using su by (simp add: ticket_ok_def Let_def)
    with counts_okD(2) [OF inv(1), of k] pre show ?thesis by simp
  next
    case (snoc post' x)
    with log have "log = pre @ j # post'" by simp
    with inv(3) t u su show ?thesis by (auto simp: log_ordered_def)
  qed
  then show "cc_max (m_count (metas (after_taken i h) k)) = Some (count_list pre k)" by auto
qed

lemma log_in_heap: "counts_ok h log \<Longrightarrow> j \<in> set log \<Longrightarrow> j < fresh_meta h"
  by (metis counts_okD(2,3) count_list_0_iff not_le)

lemma heap_inv_alloc:
  assumes inv: "heap_inv h log"
  shows "heap_inv (alloc name count h) log"
proof -
  have c: "counts_ok h log" using inv by (simp add: heap_inv_def)
  have "count_ok (metas (alloc name count h) i) (count_list log i)" for i
    using counts_okD [OF c, of i] by (auto simp: alloc_def new_meta_def count_ok_def)
  then have "counts_ok (alloc name count h) log"
    using counts_okD(3,4) [OF c] by (auto simp: counts_ok_def alloc_def)
  moreover have "tickets_ok (alloc name count h)"
    using inv by (auto simp: heap_inv_def tickets_ok_def ticket_ok_def alloc_def new_meta_def)
  moreover have "log_ordered (alloc name count h) log"
    using inv by (auto simp: heap_inv_def log_ordered_def alloc_def new_meta_def split: if_splits)
  ultimately show ?thesis using inv by (auto simp: heap_inv_def seqs_ok_def alloc_def)
qed

lemma heap_inv_joined:
  assumes inv: "heap_inv h log"
    and c: "cc_max count = Some (cc_min count)" "0 < cc_min count"
    and room: "seq_next (seqs h s) + 1 \<le> usize_max"
  shows "heap_inv (join_sequence s (fresh_meta h) (alloc name count h)) log"
    (is "heap_inv ?h log")
proof -
  let ?i = "fresh_meta h"
  have a: "heap_inv (alloc name count h) log" using inv by (rule heap_inv_alloc)
  have below: "t_index t < seq_next (seqs h (t_sequence t))" if "m_ticket (metas h j) = Some t" for j t
    using inv that by (auto simp: heap_inv_def tickets_ok_def ticket_ok_def Let_def)
  have cursor: "seq_cursor (seqs h s) \<le> seq_next (seqs h s)" using inv by (simp add: heap_inv_def seqs_ok_def)
  have c': "counts_ok (alloc name count h) log" using a by (simp add: heap_inv_def)
  have "count_ok (metas ?h i) (count_list log i)" for i
    using counts_okD(1) [OF c', of i] by (auto simp: join_sequence_def Let_def count_ok_def)
  with counts_okD(3,4) [OF c'] have "counts_ok ?h log"
    by (auto simp: counts_ok_def join_sequence_def alloc_def Let_def)
  moreover have "tickets_ok ?h"
  proof -
    have "ticket_ok ?h (metas ?h j) t" if "m_ticket (metas ?h j) = Some t" for j t
    proof (cases "j = ?i")
      case True
      with that c cursor show ?thesis
        by (auto simp: ticket_ok_def join_sequence_def alloc_def new_meta_def Let_def)
    next
      case False
      with that have t: "m_ticket (metas h j) = Some t"
        by (simp add: join_sequence_def alloc_def Let_def)
      with inv have "ticket_ok h (metas h j) t" by (auto simp: heap_inv_def tickets_ok_def)
      with False show ?thesis by (auto simp: ticket_ok_def join_sequence_def alloc_def Let_def)
    qed
    moreover have "j = k" if "m_ticket (metas ?h j) = Some t" "m_ticket (metas ?h k) = Some t" for j k t
      using that inv below by (auto simp: heap_inv_def tickets_ok_def join_sequence_def alloc_def Let_def
          split: if_splits dest!: below)
    ultimately show ?thesis by (auto simp: tickets_ok_def)
  qed
  moreover have "seqs_ok ?h"
    using a room by (auto simp: heap_inv_def seqs_ok_def join_sequence_def alloc_def Let_def intro: le_SucI)
  moreover have "log_ordered ?h log"
    unfolding log_ordered_def
  proof (intro allI impI)
    fix pre j post k t u
    assume log: "log = pre @ j # post" and t: "m_ticket (metas ?h j) = Some t"
      and u: "m_ticket (metas ?h k) = Some u"
      and su: "t_sequence u = t_sequence t" "t_index u < t_index t"
    have "j \<noteq> ?i" using log_in_heap [of h log j] inv log by (auto simp: heap_inv_def)
    with t have t': "m_ticket (metas h j) = Some t" by (simp add: join_sequence_def alloc_def Let_def)
    have "k \<noteq> ?i"
      using u su below [OF t'] by (auto simp: join_sequence_def alloc_def Let_def)
    with u inv t' log su show "cc_max (m_count (metas ?h k)) = Some (count_list pre k)"
      by (auto simp: heap_inv_def log_ordered_def join_sequence_def alloc_def Let_def)
  qed
  ultimately show ?thesis by (simp add: heap_inv_def)
qed

lemma heap_inv_step: "heap_step h l h' \<Longrightarrow> heap_inv h log \<Longrightarrow> heap_inv h' (extend_log log l)"
proof (induction rule: heap_step.induct)
  case (Taken h i)
  then show ?case
    by (simp add: heap_inv_def counts_ok_taken tickets_ok_taken seqs_ok_taken log_ordered_taken)
next
  case (Failed h i msg)
  then show ?case
    by (simp add: heap_inv_def counts_ok_def count_ok_def tickets_ok_def ticket_ok_def seqs_ok_def
        log_ordered_def)
qed (simp_all add: heap_inv_alloc heap_inv_joined)

section \<open>Adding a rule\<close>

text \<open>
  The closures that the macros pass to \<^verbatim>\<open>State::add\<close> only build the rule. With such a
  closure, adding an expectation is one of the heap transitions above, and the table gets the
  rule exactly when the call succeeds.
\<close>

definition builder :: "(meta_id \<Rightarrow> 'r) \<Rightarrow> 'r maker" where
  "builder f = (\<lambda>i st h. (f i, st, h))"

lemma validate_config_sequence:
  "validate_config cfg = Ok count \<Longrightarrow> cfg_sequence cfg = Some s \<Longrightarrow>
   cc_max count = Some (cc_min count) \<and> 0 < cc_min count"
  by (auto simp: validate_config_def result_simps split: if_splits)

lemma reserve_eq:
  "reserve s h =
     (if seq_next (seqs h s) + 1 \<le> usize_max
      then (Ok \<lparr>t_sequence = s, t_index = seq_next (seqs h s)\<rparr>,
            h\<lparr>seqs := (seqs h)(s := (seqs h s)\<lparr>seq_next := seq_next (seqs h s) + 1\<rparr>)\<rparr>)
      else (Err (Expectation ''sequence is full''), h))"
  by (simp add: reserve_def Let_def checked_add_def)

lemma add_with_builder:
  assumes "add_with cfg (builder f) st h = (res, st', h')"
  obtains (failed) e where "res = Err e" "st' = st" "h' = h \<or> (\<exists>c. h' = alloc (st_name st) c h)"
  | (plain) count where "validate_config cfg = Ok count" "cfg_sequence cfg = None"
      "st_active st" "res = Ok (fresh_meta h)" "h' = alloc (st_name st) count h"
      "st' = st\<lparr>st_rules := st_rules st @ [(fresh_meta h, f (fresh_meta h))]\<rparr>"
  | (sequenced) count s where "validate_config cfg = Ok count" "cfg_sequence cfg = Some s"
      "st_active st" "res = Ok (fresh_meta h)" "seq_next (seqs h s) + 1 \<le> usize_max"
      "h' = join_sequence s (fresh_meta h) (alloc (st_name st) count h)"
      "st' = st\<lparr>st_rules := st_rules st @ [(fresh_meta h, f (fresh_meta h))]\<rparr>"
proof (cases "validate_config cfg")
  case (Ok count)
  show ?thesis
  proof (cases "st_active st")
    case False
    with Ok assms show ?thesis by (intro failed) (auto simp: add_with_def)
  next
    case act: True
    show ?thesis
    proof (cases "cfg_sequence cfg")
      case None
      with Ok act assms show ?thesis
        by (intro plain [of count]) (auto simp: add_with_def builder_def alloc_def Let_def)
    next
      case (Some s)
      show ?thesis
      proof (cases "seq_next (seqs h s) + 1 \<le> usize_max")
        case True
        with Ok act Some assms show ?thesis
          by (intro sequenced [of count s])
            (auto simp: add_with_def builder_def alloc_def join_sequence_def reserve_eq Let_def)
      next
        case False
        with Ok act Some assms show ?thesis
          by (intro failed) (auto simp: add_with_def builder_def alloc_def reserve_eq Let_def)
      qed
    qed
  qed
next
  case (Err e)
  with assms show ?thesis by (intro failed) (auto simp: add_with_def)
next
  case (Panics m)
  with validate_config_returns [of cfg] show ?thesis by simp
next
  case Aborts
  with validate_config_returns [of cfg] show ?thesis by simp
next
  case Diverges
  with validate_config_returns [of cfg] show ?thesis by simp
qed

lemma fresh_grows [simp]:
  "fresh_meta (alloc name count h) = Suc (fresh_meta h)"
  "fresh_meta (join_sequence s i h) = fresh_meta h"
  by (simp_all add: alloc_def join_sequence_def Let_def)

lemma add_with_heap_step:
  assumes "add_with cfg (builder f) st h = (res, st', h')"
  shows "heap_step h None h'"
  using assms
proof (cases rule: add_with_builder)
  case (failed e)
  then show ?thesis by (auto intro: heap_step.intros)
next
  case (plain count)
  then show ?thesis by (auto intro: heap_step.intros)
next
  case (sequenced count s)
  then show ?thesis using validate_config_sequence [of cfg count s] by (auto intro: heap_step.Joined)
qed

section \<open>The steps of the threads\<close>

record 'r call =
  c_mock :: nat
  c_matches :: "'r \<Rightarrow> bool"
  c_rest :: "(meta_id \<times> 'r) list"
  c_matched :: bool

record 'r world =
  w_heap :: heap
  w_mocks :: "nat \<rightharpoonup> 'r mock_state"
  w_calls :: "nat \<rightharpoonup> 'r call"
  w_log :: "meta_id list"

definition empty_heap :: heap where
  "empty_heap = \<lparr>seqs = (\<lambda>_. new_progress),
     metas = (\<lambda>_. new_meta [] (into_count RangeFull)), fresh_meta = 0\<rparr>"

definition empty_world :: "'r world" where
  "empty_world = \<lparr>w_heap = empty_heap, w_mocks = Map.empty, w_calls = Map.empty, w_log = []\<rparr>"

inductive mock_step :: "'r world \<Rightarrow> 'r world \<Rightarrow> bool" where
  New: "w_mocks w k = None \<Longrightarrow>
    mock_step w (w\<lparr>w_mocks := (w_mocks w)(k \<mapsto> new_state name)\<rparr>)"
| Add: "w_mocks w k = Some st \<Longrightarrow>
    add_with cfg (builder f) st (w_heap w) = (res, st', h') \<Longrightarrow>
    mock_step w (w\<lparr>w_heap := h', w_mocks := (w_mocks w)(k \<mapsto> st')\<rparr>)"
| Checkpoint: "w_mocks w k = Some st \<Longrightarrow> checkpoint st (w_heap w) = (res', st') \<Longrightarrow>
    mock_step w (w\<lparr>w_mocks := (w_mocks w)(k \<mapsto> st')\<rparr>)"
| Deactivate: "w_mocks w k = Some st \<Longrightarrow>
    mock_step w (w\<lparr>w_mocks := (w_mocks w)(k \<mapsto> deactivate st)\<rparr>)"
| Enter: "w_mocks w k = Some st \<Longrightarrow> enter key st active = (res', st', active') \<Longrightarrow>
    mock_step w (w\<lparr>w_mocks := (w_mocks w)(k \<mapsto> st')\<rparr>)"
| Call: "w_mocks w k = Some st \<Longrightarrow> st_active st \<Longrightarrow> w_calls w thread = None \<Longrightarrow>
    mock_step w (w\<lparr>w_calls := (w_calls w)(thread \<mapsto>
      \<lparr>c_mock = k, c_matches = matches, c_rest = st_rules st, c_matched = False\<rparr>)\<rparr>)"
| Inactive: "w_mocks w k = Some st \<Longrightarrow> \<not> st_active st \<Longrightarrow> w_calls w thread = None \<Longrightarrow>
    mock_step w (w\<lparr>w_mocks := (w_mocks w)(k \<mapsto> note_failure (inactive_error st) st)\<rparr>)"
| Skip: "w_calls w thread = Some c \<Longrightarrow> c_rest c = (i, r) # rest \<Longrightarrow> \<not> c_matches c r \<Longrightarrow>
    mock_step w (w\<lparr>w_calls := (w_calls w)(thread \<mapsto> c\<lparr>c_rest := rest\<rparr>)\<rparr>)"
| Take: "w_calls w thread = Some c \<Longrightarrow> c_rest c = (i, r) # rest \<Longrightarrow> c_matches c r \<Longrightarrow>
    claim i (w_heap w) = (Ok Taken, h') \<Longrightarrow>
    mock_step w (w\<lparr>w_heap := h', w_calls := (w_calls w)(thread := None), w_log := w_log w @ [i]\<rparr>)"
| Pass: "w_calls w thread = Some c \<Longrightarrow> c_rest c = (i, r) # rest \<Longrightarrow> c_matches c r \<Longrightarrow>
    claim i (w_heap w) = (Ok Exhausted, h') \<Longrightarrow>
    mock_step w (w\<lparr>w_heap := h',
      w_calls := (w_calls w)(thread \<mapsto> c\<lparr>c_rest := rest, c_matched := True\<rparr>)\<rparr>)"
| Reject: "w_calls w thread = Some c \<Longrightarrow> c_rest c = (i, r) # rest \<Longrightarrow> c_matches c r \<Longrightarrow>
    claim i (w_heap w) = (Err e, h') \<Longrightarrow> w_mocks w (c_mock c) = Some st \<Longrightarrow>
    mock_step w (w\<lparr>w_heap := h', w_mocks := (w_mocks w)(c_mock c \<mapsto> note_failure e st),
      w_calls := (w_calls w)(thread := None)\<rparr>)"
| Finish: "w_calls w thread = Some c \<Longrightarrow> c_rest c = [] \<Longrightarrow> w_mocks w (c_mock c) = Some st \<Longrightarrow>
    mock_step w (w\<lparr>w_mocks := (w_mocks w)(c_mock c \<mapsto>
        note_failure (Expectation (st_name st @ '': '' @ select_reason (c_matched c))) st),
      w_calls := (w_calls w)(thread := None)\<rparr>)"

inductive reachable :: "'r world \<Rightarrow> bool" where
  Start: "reachable empty_world"
| Step: "reachable w \<Longrightarrow> mock_step w w' \<Longrightarrow> reachable w'"

section \<open>Reachable worlds satisfy the invariant\<close>

definition known_rules :: "heap \<Rightarrow> (meta_id \<times> 'r) list \<Rightarrow> bool" where
  "known_rules h rules \<longleftrightarrow> (\<forall>(i, r) \<in> set rules. i < fresh_meta h)"

definition world_inv :: "'r world \<Rightarrow> bool" where
  "world_inv w \<longleftrightarrow>
     heap_inv (w_heap w) (w_log w) \<and>
     (\<forall>k st. w_mocks w k = Some st \<longrightarrow> known_rules (w_heap w) (st_rules st)) \<and>
     (\<forall>t c. w_calls w t = Some c \<longrightarrow>
        known_rules (w_heap w) (c_rest c) \<and> w_mocks w (c_mock c) \<noteq> None)"

lemma known_rules_simps [simp]:
  "known_rules h []"
  "known_rules h ((i, r) # rules) \<longleftrightarrow> i < fresh_meta h \<and> known_rules h rules"
  "known_rules h (xs @ ys) \<longleftrightarrow> known_rules h xs \<and> known_rules h ys"
  by (auto simp: known_rules_def)

lemma known_rules_mono: "known_rules h rules \<Longrightarrow> fresh_meta h \<le> fresh_meta h' \<Longrightarrow> known_rules h' rules"
  by (fastforce simp: known_rules_def)

lemma heap_step_fresh: "heap_step h l h' \<Longrightarrow> fresh_meta h \<le> fresh_meta h'"
  by (induction rule: heap_step.induct) auto

lemma claim_Err_step: "claim i h = (Err e, h') \<Longrightarrow> heap_step h None h'"
  by (elim claim_failed) (auto intro: heap_step.intros)

lemma world_inv_empty: "world_inv (empty_world :: 'r world)"
  by (simp add: world_inv_def empty_world_def empty_heap_def heap_inv_defs count_ok_def new_meta_def
      new_progress_def count_defs)

text \<open>A step keeps the invariant when it makes one heap transition and keeps the tables known.\<close>

lemma checkpoint_cases:
  "checkpoint st h = (res, st') \<Longrightarrow> st' = st \<or> st' = st\<lparr>st_rules := []\<rparr>"
  by (auto simp: checkpoint_def split: if_splits result.splits)

lemma enter_state:
  "enter key st active = (res, st', active') \<Longrightarrow> st' = st \<or> (\<exists>e. st' = note_failure e st)"
  by (auto simp: enter_def fail_state_def split: prod.splits result.splits)

lemma world_inv_mocks:
  assumes "world_inv w" "w_mocks w k = Some st0" "known_rules (w_heap w) (st_rules st)"
  shows "world_inv (w\<lparr>w_mocks := (w_mocks w)(k \<mapsto> st)\<rparr>)"
  using assms by (auto simp: world_inv_def)

lemma world_inv_call:
  assumes "world_inv w" "known_rules (w_heap w) (c_rest c)" "w_mocks w (c_mock c) \<noteq> None"
  shows "world_inv (w\<lparr>w_calls := (w_calls w)(t \<mapsto> c)\<rparr>)"
  using assms by (auto simp: world_inv_def)

lemma world_inv_end_call: "world_inv w \<Longrightarrow> world_inv (w\<lparr>w_calls := (w_calls w)(t := None)\<rparr>)"
  by (auto simp: world_inv_def)

lemma world_inv_heap:
  assumes "world_inv w" "heap_step (w_heap w) l h'"
  shows "world_inv (w\<lparr>w_heap := h', w_log := extend_log (w_log w) l\<rparr>)"
  using assms heap_inv_step [of "w_heap w" l h' "w_log w"]
    known_rules_mono [OF _ heap_step_fresh [OF assms(2)]]
  unfolding world_inv_def by fastforce

lemma world_inv_rules: "world_inv w \<Longrightarrow> w_mocks w k = Some st \<Longrightarrow> known_rules (w_heap w) (st_rules st)"
  by (simp add: world_inv_def)

lemma world_inv_rest: "world_inv w \<Longrightarrow> w_calls w t = Some c \<Longrightarrow>
    known_rules (w_heap w) (c_rest c) \<and> w_mocks w (c_mock c) \<noteq> None"
  by (simp add: world_inv_def)

lemma world_inv_step: "mock_step w w' \<Longrightarrow> world_inv w \<Longrightarrow> world_inv w'"
proof (induction rule: mock_step.induct)
  case (New w k name)
  then show ?case by (auto simp: world_inv_def new_state_def)
next
  case (Add w k st cfg f res st' h')
  then have step: "heap_step (w_heap w) None h'" by (blast intro: add_with_heap_step)
  from world_inv_heap [OF Add.prems this] have w1: "world_inv (w\<lparr>w_heap := h'\<rparr>)" by simp
  have "known_rules h' (st_rules st')"
    using Add.hyps(2) world_inv_rules [OF w1, of k st] Add.hyps(1)
    by (cases rule: add_with_builder) auto
  with world_inv_mocks [OF w1, of k st st'] Add.hyps(1) show ?case by simp
next
  case (Checkpoint w k st res' st')
  then show ?case
    using checkpoint_cases [OF Checkpoint.hyps(2)] world_inv_rules [of w k st]
    by (auto intro!: world_inv_mocks)
next
  case (Enter w k st key active res' st' active')
  then show ?case
    using enter_state [OF Enter.hyps(2)] world_inv_rules [of w k st]
    by (auto intro!: world_inv_mocks)
next
  case (Take w thread c i r rest h')
  have "claimable (w_heap w) (metas (w_heap w) i)" "h' = after_taken i (w_heap w)"
    using claim_taken [OF Take.hyps(4)] by auto
  moreover have "i < fresh_meta (w_heap w)"
    using world_inv_rest [OF Take.prems Take.hyps(1)] Take.hyps(2) by simp
  ultimately have "heap_step (w_heap w) (Some i) h'" by (simp add: heap_step.Taken)
  from world_inv_heap [OF world_inv_end_call [OF Take.prems], of thread "Some i" h'] this
  show ?case by (simp add: world_inv_def)
next
  case (Pass w thread c i r rest h')
  then have "h' = w_heap w" by (simp add: claim_exhausted_iff)
  with Pass show ?case
    using world_inv_call [of w "c\<lparr>c_rest := rest, c_matched := True\<rparr>" thread]
      world_inv_rest [OF Pass.prems Pass.hyps(1)] by simp
next
  case (Reject w thread c i r rest e h' st)
  have "heap_step (w_heap w) None h'" using Reject.hyps(4) by (rule claim_Err_step)
  from world_inv_heap [OF Reject.prems this] have w1: "world_inv (w\<lparr>w_heap := h'\<rparr>)" by simp
  from world_inv_end_call [OF world_inv_mocks [OF w1, of "c_mock c" st "note_failure e st"]]
    world_inv_rules [OF w1, of "c_mock c" st] Reject.hyps(5)
  show ?case by simp
next
  case (Finish w thread c st)
  from world_inv_end_call [OF world_inv_mocks [OF Finish.prems, of "c_mock c" st]]
    world_inv_rules [OF Finish.prems Finish.hyps(3)] Finish.hyps(3)
  show ?case by simp
qed (auto intro!: world_inv_mocks world_inv_call simp: deactivate_def dest: world_inv_rules world_inv_rest)

lemma reachable_inv: "reachable w \<Longrightarrow> world_inv w"
  by (induction rule: reachable.induct) (auto intro: world_inv_empty world_inv_step)

section \<open>A failure stays\<close>

lemma mock_step_failure:
  assumes "mock_step w w'" "w_mocks w k = Some st" "st_failure st = Some e"
  shows "\<exists>st'. w_mocks w' k = Some st' \<and> st_failure st' = Some e"
  using assms
proof (induction rule: mock_step.induct)
  case (Add w k' st0 cfg f res st' h')
  from Add.hyps(2) have "st_failure st' = st_failure st0"
    by (cases rule: add_with_builder) auto
  with Add show ?case by auto
next
  case (Checkpoint w k' st0 res' st')
  then show ?case using checkpoint_cases [OF Checkpoint.hyps(2)] by auto
next
  case (Enter w k' st0 key active res' st' active')
  then show ?case using enter_state [OF Enter.hyps(2)] by auto
qed (auto simp: deactivate_def)

section \<open>A whole call as a run of steps\<close>

text \<open>
  \<open>select\<close> is the run of one call that no other thread interrupts. So every sequential use
  of the mocks is a run of \<open>mock_step\<close>, and \<open>run_actions\<close> computes reachable worlds.
\<close>

fun taken_by :: "(meta_id \<times> 'r) result \<Rightarrow> meta_id list" where
  "taken_by (Ok (i, r)) = [i]"
| "taken_by _ = []"

lemma select_loop_steps:
  assumes "w_calls w t = Some c" "w_mocks w (c_mock c) = Some st"
    and "select_loop (c_matches c) (c_rest c) (c_matched c) st (w_heap w) = (res, st', h')"
  shows "mock_step\<^sup>*\<^sup>* w (w\<lparr>w_heap := h', w_mocks := (w_mocks w)(c_mock c \<mapsto> st'),
           w_calls := (w_calls w)(t := None), w_log := w_log w @ taken_by res\<rparr>)"
  using assms
proof (induction "c_rest c" arbitrary: c w)
  case Nil
  from Nil(1) Nil.prems(3) have res: "res = Panics (display e)" "st' = note_failure e st" "h' = w_heap w"
    if "e = Expectation (st_name st @ '': '' @ select_reason (c_matched c))" for e
    using that by (auto simp: fail_state_def simp flip: Nil(1))
  show ?case
    using r_into_rtranclp [of mock_step, OF mock_step.Finish
        [OF Nil.prems(1) Nil(1) [symmetric] Nil.prems(2)]] res [OF refl] by (simp add: fun_upd_def)
next
  case (Cons a rest)
  obtain i r where a: "a = (i, r)" by (cases a)
  have cr: "c_rest c = (i, r) # rest" using Cons.hyps(2) a by simp
  let ?more = "\<lambda>c'. w\<lparr>w_calls := (w_calls w)(t \<mapsto> c')\<rparr>"
  have go: "mock_step\<^sup>*\<^sup>* w (w\<lparr>w_heap := h', w_mocks := (w_mocks w)(c_mock c \<mapsto> st'),
           w_calls := (w_calls w)(t := None), w_log := w_log w @ taken_by res\<rparr>)"
    if s: "mock_step w (?more c')" and c': "c_rest c' = rest" "c_mock c' = c_mock c"
      "c_matches c' = c_matches c"
      and l: "select_loop (c_matches c) rest (c_matched c') st (w_heap w) = (res, st', h')" for c'
  proof -
    have "mock_step\<^sup>*\<^sup>* (?more c') (?more c'\<lparr>w_heap := h', w_mocks := (w_mocks (?more c'))(c_mock c' \<mapsto> st'),
           w_calls := (w_calls (?more c'))(t := None), w_log := w_log (?more c') @ taken_by res\<rparr>)"
      by (rule Cons.hyps(1)) (use c' l Cons.prems in auto)
    with converse_rtranclp_into_rtranclp [of mock_step, OF s] c' show ?thesis by simp
  qed
  consider "\<not> c_matches c r" | "c_matches c r" "exhausted (metas (w_heap w) i)"
    | "c_matches c r" "\<not> exhausted (metas (w_heap w) i)" "claimable (w_heap w) (metas (w_heap w) i)"
    | "c_matches c r" "\<not> exhausted (metas (w_heap w) i)" "\<not> claimable (w_heap w) (metas (w_heap w) i)"
    by blast
  then show ?case
  proof cases
    case 1
    then show ?thesis
      using go [OF mock_step.Skip [OF Cons.prems(1) cr]] Cons.prems(3) by (simp add: cr)
  next
    case 2
    then have cl: "claim i (w_heap w) = (Ok Exhausted, w_heap w)" by (simp add: claim_spec)
    from 2 show ?thesis
      using go [of "c\<lparr>c_rest := rest, c_matched := True\<rparr>"] mock_step.Pass [OF Cons.prems(1) cr _ cl]
        Cons.prems(3) by (simp add: cr cl)
  next
    case 3
    then have cl: "claim i (w_heap w) = (Ok Taken, after_taken i (w_heap w))" by (simp add: claim_spec)
    from 3 have "res = Ok (i, r)" "st' = st" "h' = after_taken i (w_heap w)"
      using Cons.prems(3) by (simp_all add: cr cl)
    with mock_step.Take [OF Cons.prems(1) cr _ cl] 3 Cons.prems(2) show ?thesis
      by (simp add: fun_upd_idem r_into_rtranclp)
  next
    case 4
    then obtain e h1 where cl: "claim i (w_heap w) = (Err e, h1)" by (simp add: claim_spec fail_meta_eq)
    from 4 have "res = Panics (display e)" "st' = note_failure e st" "h' = h1"
      using Cons.prems(3) by (simp_all add: cr cl fail_state_def)
    with mock_step.Reject [OF Cons.prems(1) cr _ cl Cons.prems(2)] 4 show ?thesis
      by (simp add: r_into_rtranclp)
  qed
qed

lemma select_steps:
  assumes "w_calls w t = None" "w_mocks w k = Some st" "select matches st (w_heap w) = (res, st', h')"
  shows "mock_step\<^sup>*\<^sup>* w (w\<lparr>w_heap := h', w_mocks := (w_mocks w)(k \<mapsto> st'),
           w_log := w_log w @ taken_by res\<rparr>)"
proof (cases "st_active st")
  case False
  then have "res = Panics (display (inactive_error st))" "st' = note_failure (inactive_error st) st"
    "h' = w_heap w"
    using assms(3) by (auto simp: select_def fail_state_def)
  with mock_step.Inactive [OF assms(2) False assms(1)] show ?thesis by (simp add: r_into_rtranclp)
next
  case True
  let ?c = "\<lparr>c_mock = k, c_matches = matches, c_rest = st_rules st, c_matched = False\<rparr>"
  let ?w = "w\<lparr>w_calls := (w_calls w)(t \<mapsto> ?c)\<rparr>"
  have "mock_step w ?w" using assms(1,2) True by (intro mock_step.Call)
  moreover have "mock_step\<^sup>*\<^sup>* ?w (?w\<lparr>w_heap := h', w_mocks := (w_mocks ?w)(k \<mapsto> st'),
           w_calls := (w_calls ?w)(t := None), w_log := w_log ?w @ taken_by res\<rparr>)"
    using select_loop_steps [of ?w t ?c st res st' h'] assms True by (simp add: select_def)
  moreover have "(w_calls w)(t := None) = w_calls w" using assms(1) by auto
  ultimately show ?thesis by (simp add: converse_rtranclp_into_rtranclp)
qed

lemma reachable_steps: "mock_step\<^sup>*\<^sup>* w w' \<Longrightarrow> reachable w \<Longrightarrow> reachable w'"
  by (induction rule: rtranclp_induct) (auto intro: reachable.Step)

datatype 'r action =
    New_mock nat string
  | Add_rule nat config 'r
  | Call_mock nat "'r \<Rightarrow> bool"
  | Check_point nat
  | Deactivate_mock nat

fun run_action :: "'r action \<Rightarrow> 'r world \<Rightarrow> 'r world" where
  "run_action (New_mock k name) w =
     (case w_mocks w k of
        Some st \<Rightarrow> w
      | None \<Rightarrow> w\<lparr>w_mocks := (w_mocks w)(k \<mapsto> new_state name)\<rparr>)"
| "run_action (Add_rule k cfg r) w =
     (case w_mocks w k of
        None \<Rightarrow> w
      | Some st \<Rightarrow>
          (case add_with cfg (builder (\<lambda>_. r)) st (w_heap w) of
             (res, st', h') \<Rightarrow> w\<lparr>w_heap := h', w_mocks := (w_mocks w)(k \<mapsto> st')\<rparr>))"
| "run_action (Call_mock k matches) w =
     (case w_mocks w k of
        None \<Rightarrow> w
      | Some st \<Rightarrow>
          (case select matches st (w_heap w) of
             (res, st', h') \<Rightarrow> w\<lparr>w_heap := h', w_mocks := (w_mocks w)(k \<mapsto> st'),
                                w_log := w_log w @ taken_by res\<rparr>))"
| "run_action (Check_point k) w =
     (case w_mocks w k of
        None \<Rightarrow> w
      | Some st \<Rightarrow>
          (case checkpoint st (w_heap w) of
             (res, st') \<Rightarrow> w\<lparr>w_mocks := (w_mocks w)(k \<mapsto> st')\<rparr>))"
| "run_action (Deactivate_mock k) w =
     (case w_mocks w k of
        None \<Rightarrow> w
      | Some st \<Rightarrow> w\<lparr>w_mocks := (w_mocks w)(k \<mapsto> deactivate st)\<rparr>)"

definition run_actions :: "'r action list \<Rightarrow> 'r world" where
  "run_actions acts = fold run_action acts empty_world"

lemma run_action_calls: "w_calls (run_action a w) = w_calls w"
  by (cases a) (auto split: option.splits prod.splits)

lemma run_action_steps: "(\<forall>t. w_calls w t = None) \<Longrightarrow> mock_step\<^sup>*\<^sup>* w (run_action a w)"
proof (cases a)
  case (Call_mock k matches)
  assume "\<forall>t. w_calls w t = None"
  with Call_mock show ?thesis
    using select_steps [of w 0 k _ matches] by (auto split: option.splits prod.splits)
qed (auto intro!: r_into_rtranclp mock_step.New mock_step.Add mock_step.Deactivate
    intro: mock_step.Checkpoint split: option.splits prod.splits)

lemma run_actions_reachable: "reachable (run_actions acts)"
proof -
  have "reachable (fold run_action acts w)" if "reachable w" "\<forall>t. w_calls w t = None" for w
    using that
  proof (induction acts arbitrary: w)
    case (Cons a acts)
    from reachable_steps [OF run_action_steps [of w a]] Cons.prems
    have "reachable (run_action a w)" by simp
    with Cons show ?case by (simp add: run_action_calls)
  qed simp
  from this [OF reachable.Start] show ?thesis by (simp add: run_actions_def empty_world_def)
qed

section \<open>Properties\<close>

text \<open>
  C18: however the threads interleave, the counter of an expectation is the number of calls it
  answered, and that number never exceeds the maximum of its count; the counter and the cursor of
  a sequence stay within \<^verbatim>\<open>usize\<close>, so the unchecked increment of the cursor never wraps.
\<close>

theorem calls_within_count:
  assumes "reachable w"
  shows "expectation_calls i (w_heap w) = count_list (w_log w) i \<and>
    (\<forall>mx. cc_max (m_count (metas (w_heap w) i)) = Some mx \<longrightarrow> count_list (w_log w) i \<le> mx) \<and>
    (\<forall>h' s. claim i (w_heap w) = (Ok Taken, h') \<longrightarrow>
       m_calls (metas h' i) \<le> usize_max \<and> seq_cursor (seqs h' s) \<le> usize_max)"
proof -
  from assms have inv: "heap_inv (w_heap w) (w_log w)"
    using reachable_inv by (auto simp: world_inv_def)
  then have c: "counts_ok (w_heap w) (w_log w)" by (simp add: heap_inv_def)
  have "m_calls (metas h' i) \<le> usize_max \<and> seq_cursor (seqs h' s) \<le> usize_max"
    if "claim i (w_heap w) = (Ok Taken, h')" for h' s
  proof -
    from claim_taken [OF that] have cl: "claimable (w_heap w) (metas (w_heap w) i)"
      and h': "h' = after_taken i (w_heap w)" by auto
    with inv have "seqs_ok h'" by (simp add: heap_inv_def seqs_ok_taken)
    then have "seq_cursor (seqs h' s) \<le> usize_max"
      by (meson seqs_ok_def order_trans)
    with cl h' show ?thesis by (simp add: claimable_def)
  qed
  with counts_okD(1) [OF c, of i] show ?thesis
    by (auto simp: count_ok_def expectation_calls_def)
qed

text \<open>Two mocks in one sequence: open twice, then close once.\<close>

definition example_session :: "nat action list" where
  "example_session =
     [New_mock 0 ''open'', New_mock 1 ''close'',
      Add_rule 0 (in_sequence 0 (times (Exactly 2) default_config)) 10,
      Add_rule 1 (in_sequence 0 (once default_config)) 20,
      Call_mock 0 (\<lambda>r. True), Call_mock 0 (\<lambda>r. True), Call_mock 1 (\<lambda>r. True)]"

lemmas example_simps = run_actions_def empty_world_def empty_heap_def new_state_def
  new_progress_def new_meta_def builder_def default_config_def times_def once_def in_sequence_def
  add_with_def validate_config_def validate_count_def count_defs reserve_eq select_def claim_def
  checked_add_def usize_defs Let_def

lemma example_session_heap:
  "w_log (run_actions example_session) = [0, 0, 1]"
  "m_ticket (metas (w_heap (run_actions example_session)) 0) = Some \<lparr>t_sequence = 0, t_index = 0\<rparr>"
  "m_ticket (metas (w_heap (run_actions example_session)) 1) = Some \<lparr>t_sequence = 0, t_index = 1\<rparr>"
  "cc_max (m_count (metas (w_heap (run_actions example_session)) 0)) = Some 2"
  by (simp_all add: example_session_def example_simps)

theorem calls_within_count_witness:
  "reachable (run_actions example_session) \<and>
   expectation_calls 0 (w_heap (run_actions example_session)) = 2"
  using calls_within_count [OF run_actions_reachable [of example_session], of 0]
    run_actions_reachable [of example_session]
  by (simp add: example_session_heap)

text \<open>
  C7: expectations that joined one sequence are answered in that order, across mocks and threads:
  when one of them answers a call, every earlier one has already answered exactly as many calls
  as its count demands, and it answers none afterwards.
\<close>

theorem sequence_order:
  assumes "reachable w" and "w_log w = pre @ j # post"
    and "m_ticket (metas (w_heap w) i) = Some u" and "m_ticket (metas (w_heap w) j) = Some t"
    and "t_sequence u = t_sequence t" and "t_index u < t_index t"
  shows "cc_max (m_count (metas (w_heap w) i)) = Some (count_list pre i) \<and> i \<notin> set post"
proof -
  from assms(1) have inv: "counts_ok (w_heap w) (w_log w)" "log_ordered (w_heap w) (w_log w)"
    using reachable_inv by (auto simp: world_inv_def heap_inv_def)
  then have mx: "cc_max (m_count (metas (w_heap w) i)) = Some (count_list pre i)"
    using assms by (auto simp: log_ordered_def)
  with counts_okD(1) [OF inv(1), of i] assms(2) have "count_list post i = 0"
    by (auto simp: count_ok_def count_list_append split: if_splits)
  with mx show ?thesis by (simp add: count_list_0_iff)
qed

theorem sequence_order_witness:
  "w_log (run_actions example_session) = [0, 0] @ 1 # [] \<and>
   cc_max (m_count (metas (w_heap (run_actions example_session)) 0)) = Some (count_list [0, 0] 0)"
  using sequence_order [OF run_actions_reachable [of example_session], of "[0, 0]" 1 "[]" 0]
  by (simp add: example_session_heap)

text \<open>
  C29: a failure is permanent: once a mock recorded a failure, it reports that same failure to every
  later verification, no matter which further calls, additions, checkpoints or deactivations any
  thread performs.
\<close>

theorem failure_is_permanent:
  assumes "mock_step\<^sup>*\<^sup>* w w'" and "w_mocks w k = Some st" and "st_failure st = Some e"
  shows "\<exists>st'. w_mocks w' k = Some st' \<and> verify_state st' (w_heap w') = Err e"
proof -
  have "\<exists>st'. w_mocks w' k = Some st' \<and> st_failure st' = Some e"
    using assms
  proof (induction rule: rtranclp_induct)
    case (step y z)
    then obtain st' where "w_mocks y k = Some st'" "st_failure st' = Some e" by auto
    with mock_step_failure [OF step.hyps(2)] show ?case by blast
  qed simp
  then show ?thesis by (auto simp: verify_state_def)
qed

definition failed_world :: "nat world" where
  "failed_world = empty_world\<lparr>w_mocks := [0 \<mapsto> note_failure Busy (new_state ''read'')]\<rparr>"

theorem failure_is_permanent_witness:
  "\<exists>st'. w_mocks (run_action (Deactivate_mock 0) failed_world) 0 = Some st' \<and>
     verify_state st' (w_heap (run_action (Deactivate_mock 0) failed_world)) = Err Busy"
proof (rule failure_is_permanent [where w = failed_world and st = "note_failure Busy (new_state ''read'')"])
  show "mock_step\<^sup>*\<^sup>* failed_world (run_action (Deactivate_mock 0) failed_world)"
    by (rule run_action_steps) (simp add: failed_world_def empty_world_def)
qed (simp_all add: failed_world_def new_state_def)



end
