(* ===== verification/X86_Prefix.thy ===== *)
theory X86_Prefix
  imports Errors
begin

text \<open>
  The x86-64 length decoder for function entries (src/code/prefix.rs). It sizes the instructions
  it knows and rejects every other form, so that a patch never cuts an instruction in half and a
  trampoline never moves code it does not understand.

  The reader and the decoder follow the source branch by branch: \<open>read_prefixes\<close> is the loop
  over legacy and REX prefixes, \<open>decode_opcode\<close> the match on the opcode, \<open>decode_0f\<close> the
  nested match on two-byte opcodes.
\<close>

section \<open>The reader\<close>

record reader =
  rd_bytes :: "u8 list"
  rd_offset :: nat
  rd_relative :: "nat option"
  rd_memory :: bool

definition skip :: "nat \<Rightarrow> reader \<Rightarrow> reader result" where
  "skip count r =
     (let e = rd_offset r + count in
      if length (rd_bytes r) < e \<or> 15 < e then Err InvalidInstruction
      else Ok (r\<lparr>rd_offset := e\<rparr>))"

definition read_byte :: "reader \<Rightarrow> (u8 \<times> reader) result" where
  "read_byte r =
     and_then (skip 1 r) (\<lambda>r1.
     and_then (index_at (rd_bytes r1) (rd_offset r1 - 1)) (\<lambda>b. Ok (b, r1)))"

text \<open>The ModRM byte, an optional SIB byte and the displacement they announce.\<close>

definition modrm_displacement :: "u8 \<Rightarrow> u8 \<Rightarrow> nat" where
  "modrm_displacement mode sib_base =
     (if mode = 0 \<and> sib_base = 5 then 4
      else if mode = 1 then 1
      else if mode = 2 then 4
      else 0)"

definition modrm :: "reader \<Rightarrow> (u8 \<times> reader) result" where
  "modrm r0 =
     and_then (read_byte r0) (\<lambda>(byte, r1).
       let mode = drop_bit 6 byte;
           r2 = r1\<lparr>rd_memory := (mode \<noteq> 3)\<rparr>;
           register = drop_bit 3 byte AND 7;
           base = byte AND 7
       in if mode \<noteq> 3
          then and_then (if base = 4
                         then and_then (read_byte r2) (\<lambda>(sib, r3). Ok (sib AND 7, r3))
                         else Ok (base, r2)) (\<lambda>(sib_base, r3).
               let r4 = (if mode = 0 \<and> base = 5 then r3\<lparr>rd_relative := Some (rd_offset r3)\<rparr> else r3)
               in and_then (skip (modrm_displacement mode sib_base) r4) (\<lambda>r5. Ok (register, r5)))
          else Ok (register, r2))"

section \<open>Decoded instructions\<close>

datatype call_kind = Direct nat | Indirect nat

record branch =
  br_displacement :: nat
  br_width :: nat
  br_condition :: "u8 option"

record instruction =
  ins_size :: nat
  ins_terminal :: bool
  ins_relative_memory :: "nat option"
  ins_cannot_move :: bool
  ins_branch :: "branch option"
  ins_call :: "call_kind option"

text \<open>The mutable locals of \<^verbatim>\<open>decode\<close> that the match on the opcode sets.\<close>

record flow =
  fl_terminal :: bool
  fl_cannot_move :: bool
  fl_branch :: "branch option"
  fl_call :: "call_kind option"
  fl_lockable :: bool

definition no_flow :: flow where
  "no_flow = \<lparr>fl_terminal = False, fl_cannot_move = False, fl_branch = None, fl_call = None,
              fl_lockable = False\<rparr>"

record prefixes =
  px_word :: bool
  px_rex :: u8
  px_address32 :: bool
  px_locked :: bool

definition no_prefixes :: prefixes where
  "no_prefixes = \<lparr>px_word = False, px_rex = 0, px_address32 = False, px_locked = False\<rparr>"

abbreviation between :: "u8 \<Rightarrow> u8 \<Rightarrow> u8 \<Rightarrow> bool" where
  "between lo hi b \<equiv> lo \<le> b \<and> b \<le> hi"

lemma skip_Ok:
  "skip n r = Ok r' \<longleftrightarrow> r' = r\<lparr>rd_offset := rd_offset r + n\<rparr> \<and>
     rd_offset r + n \<le> length (rd_bytes r) \<and> rd_offset r + n \<le> 15"
  by (auto simp: skip_def Let_def not_less)

lemma read_byte_Ok:
  "read_byte r = Ok (b, r') \<longleftrightarrow> r' = r\<lparr>rd_offset := rd_offset r + 1\<rparr> \<and>
     rd_offset r < length (rd_bytes r) \<and> rd_offset r < 15 \<and> b = rd_bytes r ! rd_offset r"
  by (auto simp: read_byte_def result_simps skip_Ok index_at_def)

function read_prefixes :: "prefixes \<Rightarrow> reader \<Rightarrow> (u8 \<times> prefixes \<times> reader) result" where
  "read_prefixes p r =
     and_then (read_byte r) (\<lambda>(b, r').
       if b = 0xf0 then read_prefixes (p\<lparr>px_locked := True, px_rex := 0\<rparr>) r'
       else if b = 0x66 then read_prefixes (p\<lparr>px_word := True, px_rex := 0\<rparr>) r'
       else if b = 0x67 then read_prefixes (p\<lparr>px_address32 := True, px_rex := 0\<rparr>) r'
       else if b \<in> {0x26, 0x2e, 0x36, 0x3e, 0x64, 0x65, 0xf2, 0xf3}
       then read_prefixes (p\<lparr>px_rex := 0\<rparr>) r'
       else if between 0x40 0x4f b then read_prefixes (p\<lparr>px_rex := b\<rparr>) r'
       else Ok (b, p, r'))"
  by pat_completeness auto
termination
  by (relation "measure (\<lambda>(p, r). 15 - rd_offset r)") (auto simp: read_byte_Ok)

declare read_prefixes.simps [simp del]

section \<open>The match on the opcode\<close>

definition two_byte_modrm :: "u8 \<Rightarrow> bool" where
  "two_byte_modrm b \<longleftrightarrow>
     between 0x10 0x17 b \<or> between 0x28 0x2f b \<or> between 0x40 0x4f b \<or> between 0x54 0x59 b \<or>
     b = 0x6e \<or> b = 0x6f \<or> b = 0x7e \<or> b = 0x7f \<or> between 0x90 0x9f b \<or> b = 0xaf \<or>
     b = 0xb6 \<or> b = 0xb7 \<or> b = 0xbe \<or> b = 0xbf \<or> b = 0xef"

definition decode_0f :: "reader \<Rightarrow> (flow \<times> reader) result" where
  "decode_0f r0 =
     and_then (read_byte r0) (\<lambda>(b, r).
       if b = 0x0b then Ok (no_flow\<lparr>fl_terminal := True\<rparr>, r)
       else if b = 0x1f
       then and_then (modrm r) (\<lambda>(group, r'). if group \<noteq> 0 then Err InvalidInstruction else Ok (no_flow, r'))
       else if two_byte_modrm b then and_then (modrm r) (\<lambda>(group, r'). Ok (no_flow, r'))
       else if between 0x80 0x8f b
       then and_then (skip 4 r) (\<lambda>r'.
              Ok (no_flow\<lparr>fl_branch := Some \<lparr>br_displacement = rd_offset r, br_width = 4,
                                             br_condition = Some (b AND 15)\<rparr>\<rparr>, r'))
       else if between 0xc8 0xcf b then Ok (no_flow, r)
       else Err InvalidInstruction)"

definition decode_opcode :: "nat \<Rightarrow> prefixes \<Rightarrow> u8 \<Rightarrow> reader \<Rightarrow> (flow \<times> reader) result" where
  "decode_opcode immediate p opcode r =
     (if between 0x50 0x5f opcode \<or> between 0x90 0x99 opcode \<or>
         opcode \<in> {0x9c, 0x9d, 0xc9, 0xfc, 0xfd}
      then Ok (no_flow, r)
      else if opcode \<in> {0xc3, 0xcb, 0xcc, 0xcf, 0xf1, 0xf4}
      then Ok (no_flow\<lparr>fl_terminal := True\<rparr>, r)
      else if opcode = 0xc2 \<or> opcode = 0xca
      then and_then (skip 2 r) (\<lambda>r'. Ok (no_flow\<lparr>fl_terminal := True\<rparr>, r'))
      else if opcode = 0xcd
      then and_then (skip 1 r) (\<lambda>r'. Ok (no_flow\<lparr>fl_terminal := True, fl_cannot_move := True\<rparr>, r'))
      else if opcode = 0xe9 \<or> opcode = 0xeb
      then let width = (if opcode = 0xe9 then 4 else 1) in
           and_then (skip width r) (\<lambda>r'.
             Ok (no_flow\<lparr>fl_terminal := True,
                  fl_branch := Some \<lparr>br_displacement = rd_offset r, br_width = width,
                                     br_condition = None\<rparr>\<rparr>, r'))
      else if opcode = 0xe8
      then and_then (skip 4 r) (\<lambda>r'. Ok (no_flow\<lparr>fl_call := Some (Direct (rd_offset r))\<rparr>, r'))
      else if between 0x70 0x7f opcode
      then and_then (skip 1 r) (\<lambda>r'.
             Ok (no_flow\<lparr>fl_branch := Some \<lparr>br_displacement = rd_offset r, br_width = 1,
                                            br_condition = Some (opcode AND 15)\<rparr>\<rparr>, r'))
      else if between 0xe0 0xe3 opcode
      then and_then (skip 1 r) (\<lambda>r'. Ok (no_flow\<lparr>fl_cannot_move := True\<rparr>, r'))
      else if opcode = 0x6a \<or> between 0xb0 0xb7 opcode \<or> opcode = 0xa8
      then and_then (skip 1 r) (\<lambda>r'. Ok (no_flow, r'))
      else if opcode = 0x68 then and_then (skip immediate r) (\<lambda>r'. Ok (no_flow, r'))
      else if between 0xb8 0xbf opcode
      then and_then (skip (if px_rex p AND 8 \<noteq> 0 then 8 else immediate) r) (\<lambda>r'. Ok (no_flow, r'))
      else if between 0xa0 0xa3 opcode
      then and_then (skip (if px_address32 p then 4 else 8) r) (\<lambda>r'. Ok (no_flow, r'))
      else if opcode = 0xa9 then and_then (skip immediate r) (\<lambda>r'. Ok (no_flow, r'))
      else if between 0x00 0x3d opcode \<and> opcode AND 7 \<le> 5
      then (if opcode AND 7 \<le> 3
            then and_then (modrm r) (\<lambda>(group, r').
                   Ok (no_flow\<lparr>fl_lockable := (opcode < 0x38 \<and> opcode AND 7 \<le> 1)\<rparr>, r'))
            else if opcode AND 7 = 4 then and_then (skip 1 r) (\<lambda>r'. Ok (no_flow, r'))
            else and_then (skip immediate r) (\<lambda>r'. Ok (no_flow, r')))
      else if opcode = 0x63 \<or> between 0x84 0x8b opcode \<or> opcode = 0x8d \<or> between 0xd0 0xd3 opcode
      then and_then (modrm r) (\<lambda>(group, r').
             Ok (no_flow\<lparr>fl_lockable := (opcode = 0x86 \<or> opcode = 0x87)\<rparr>, r'))
      else if opcode \<in> {0x69, 0x6b, 0x80, 0x81, 0x83, 0xc0, 0xc1}
      then and_then (modrm r) (\<lambda>(group, r').
           and_then (skip (if opcode = 0x69 \<or> opcode = 0x81 then immediate else 1) r') (\<lambda>r2.
             Ok (no_flow\<lparr>fl_lockable := (opcode \<in> {0x80, 0x81, 0x83} \<and> group \<noteq> 7)\<rparr>, r2)))
      else if opcode = 0x8f \<or> opcode = 0xc6 \<or> opcode = 0xc7
      then and_then (modrm r) (\<lambda>(group, r').
             if group \<noteq> 0 then Err InvalidInstruction
             else if opcode = 0xc6 then and_then (skip 1 r') (\<lambda>r2. Ok (no_flow, r2))
             else if opcode = 0xc7 then and_then (skip immediate r') (\<lambda>r2. Ok (no_flow, r2))
             else Ok (no_flow, r'))
      else if opcode = 0xf6 \<or> opcode = 0xf7
      then and_then (modrm r) (\<lambda>(group, r').
             if group = 1 then Err InvalidInstruction
             else and_then (if group = 0 then skip (if opcode = 0xf6 then 1 else immediate) r' else Ok r')
                    (\<lambda>r2. Ok (no_flow\<lparr>fl_lockable := (group = 2 \<or> group = 3)\<rparr>, r2)))
      else if opcode = 0xfe \<or> opcode = 0xff
      then and_then (modrm r) (\<lambda>(group, r').
             if (opcode = 0xfe \<and> 1 < group) \<or> group \<in> {3, 5, 7} then Err InvalidInstruction
             else let f = no_flow\<lparr>fl_lockable := (group \<le> 1),
                                  fl_terminal := (opcode = 0xff \<and> group = 4)\<rparr>
                  in if opcode = 0xff \<and> group = 2
                     then and_then (index_at (rd_bytes r) (rd_offset r)) (\<lambda>b.
                            Ok (f\<lparr>fl_cannot_move := (b AND 7 = 4),
                                  fl_call := Some (Indirect (rd_offset r))\<rparr>, r'))
                     else Ok (f, r'))
      else if opcode = 0x0f then decode_0f r
      else Err InvalidInstruction)"

definition decode :: "u8 list \<Rightarrow> instruction result" where
  "decode bytes =
     and_then (read_prefixes no_prefixes
        \<lparr>rd_bytes = bytes, rd_offset = 0, rd_relative = None, rd_memory = False\<rparr>)
       (\<lambda>(opcode, p, r).
         let immediate = (if px_word p \<and> px_rex p AND 8 = 0 then 2 else 4) in
         and_then (decode_opcode immediate p opcode r) (\<lambda>(f, r').
           if px_locked p \<and> \<not> (fl_lockable f \<and> rd_memory r') then Err InvalidInstruction
           else Ok \<lparr>ins_size = rd_offset r', ins_terminal = fl_terminal f,
                     ins_relative_memory = rd_relative r',
                     ins_cannot_move = (fl_cannot_move f \<or> (px_address32 p \<and> rd_relative r' \<noteq> None)),
                     ins_branch = fl_branch f, ins_call = fl_call f\<rparr>))"

text \<open>\<^verbatim>\<open>prefix::instruction\<close>: the size, and whether control never falls through.\<close>

definition instruction_size :: "u8 list \<Rightarrow> (nat \<times> bool) result" where
  "instruction_size bytes =
     and_then (decode bytes) (\<lambda>ins. Ok (ins_size ins, ins_terminal ins))"

section \<open>The reader stays in bounds\<close>

text \<open>
  Reading moves the offset forward within the first 15 bytes of the input; a RIP-relative operand
  is recorded only together with its four displacement bytes.
\<close>

definition advances :: "reader \<Rightarrow> reader \<Rightarrow> bool" where
  "advances r r' \<longleftrightarrow> rd_bytes r' = rd_bytes r \<and> rd_offset r \<le> rd_offset r' \<and>
     (rd_offset r < rd_offset r' \<longrightarrow> rd_offset r' \<le> 15 \<and> rd_offset r' \<le> length (rd_bytes r)) \<and>
     (rd_relative r' = rd_relative r \<or>
      (\<exists>d. rd_relative r' = Some d \<and> rd_offset r < d \<and> d + 4 \<le> rd_offset r'))"

lemma advances_refl [simp]: "advances r r"
  by (simp add: advances_def)

lemma advances_trans: "advances r1 r2 \<Longrightarrow> advances r2 r3 \<Longrightarrow> advances r1 r3"
  by (auto simp: advances_def)

lemma skip_advances:
  "skip n r = Ok r' \<Longrightarrow>
   advances r r' \<and> rd_relative r' = rd_relative r \<and> rd_offset r' = rd_offset r + n"
  by (auto simp: skip_Ok advances_def)

lemma read_byte_advances:
  "read_byte r = Ok (b, r') \<Longrightarrow>
   advances r r' \<and> rd_offset r' = rd_offset r + 1 \<and> rd_relative r' = rd_relative r"
  by (auto simp: read_byte_Ok advances_def)

lemma modrm_advances: "modrm r = Ok (g, r') \<Longrightarrow> advances r r' \<and> rd_offset r < rd_offset r'"
  by (auto simp: modrm_def Let_def result_simps read_byte_Ok skip_Ok advances_def
      modrm_displacement_def split: if_splits)

lemmas reader_steps = read_byte_advances modrm_advances skip_advances

text \<open>What the match on the opcode may report about the bytes after the opcode.\<close>

definition flow_ok :: "reader \<Rightarrow> flow \<Rightarrow> reader \<Rightarrow> bool" where
  "flow_ok r f r' \<longleftrightarrow>
     (\<forall>b. fl_branch f = Some b \<longrightarrow> fl_call f = None \<and> rd_relative r' = rd_relative r \<and>
        rd_offset r \<le> br_displacement b \<and> br_displacement b + br_width b = rd_offset r' \<and>
        (br_width b = 1 \<or> br_width b = 4) \<and>
        (br_width b = 4 \<and> br_condition b \<noteq> None \<longrightarrow> rd_offset r < br_displacement b)) \<and>
     (\<forall>d. fl_call f = Some (Direct d) \<longrightarrow>
        d = rd_offset r \<and> d + 4 = rd_offset r' \<and> rd_relative r' = rd_relative r) \<and>
     (\<forall>m. fl_call f = Some (Indirect m) \<longrightarrow>
        m = rd_offset r \<and> m < rd_offset r')"

lemma flow_ok_simps [simp]:
  "flow_ok r no_flow r'"
  "flow_ok r (f\<lparr>fl_terminal := a\<rparr>) r' \<longleftrightarrow> flow_ok r f r'"
  "flow_ok r (f\<lparr>fl_cannot_move := a\<rparr>) r' \<longleftrightarrow> flow_ok r f r'"
  "flow_ok r (f\<lparr>fl_lockable := a\<rparr>) r' \<longleftrightarrow> flow_ok r f r'"
  by (simp_all add: flow_ok_def no_flow_def)

lemma decode_0f_ok: "ensures (decode_0f r) (\<lambda>(f, r'). advances r r' \<and> flow_ok r f r')"
  unfolding decode_0f_def
  by (intro ensures_bind ensures_prod ensures_if ensures_trivial)
    (auto dest!: reader_steps intro: advances_trans simp: flow_ok_def no_flow_def)

lemma decode_opcode_ok:
  "ensures (decode_opcode imm p op r) (\<lambda>(f, r'). advances r r' \<and> flow_ok r f r')"
  unfolding decode_opcode_def
  apply (intro ensures_bind ensures_prod ensures_if ensures_trivial ensures_Let decode_0f_ok)
  apply ((auto dest!: reader_steps intro: advances_trans split: if_splits; fail))+
  apply (auto dest!: reader_steps intro: advances_trans simp: flow_ok_def no_flow_def split: if_splits)
  done

lemma read_prefixes_ok:
  "read_prefixes p r = Ok (op, p', r') \<Longrightarrow>
   advances r r' \<and> rd_offset r < rd_offset r' \<and> rd_relative r' = rd_relative r"
proof (induction p r rule: read_prefixes.induct)
  case (1 p r)
  from "1.prems" obtain b r1 where b: "read_byte r = Ok (b, r1)"
    by (subst (asm) read_prefixes.simps) (auto simp: result_simps)
  note adv = read_byte_advances [OF b]
  have "(\<exists>p1. read_prefixes p1 r1 = Ok (op, p', r') \<and>
           advances r1 r' \<and> rd_offset r1 < rd_offset r' \<and> rd_relative r' = rd_relative r1) \<or> r' = r1"
    using "1.prems" "1.IH" [OF b refl] b
    by (subst (asm) read_prefixes.simps) (auto split: if_splits)
  with adv show ?case by (auto intro: advances_trans)
qed

text \<open>
  The shape of a decoded instruction: between 1 and 15 bytes of the input, every reported field
  inside it. The displacement of a branch or of a direct call ends the instruction, at most one of
  branch and call is reported, and neither comes with a RIP-relative operand except the indirect
  call.
\<close>

definition instruction_ok :: "u8 list \<Rightarrow> instruction \<Rightarrow> bool" where
  "instruction_ok bytes ins \<longleftrightarrow>
     0 < ins_size ins \<and> ins_size ins \<le> 15 \<and> ins_size ins \<le> length bytes \<and>
     (\<forall>d. ins_relative_memory ins = Some d \<longrightarrow>
        0 < d \<and> d + 4 \<le> ins_size ins \<and> ins_branch ins = None \<and>
        (\<forall>c. ins_call ins \<noteq> Some (Direct c))) \<and>
     (\<forall>b. ins_branch ins = Some b \<longrightarrow> ins_call ins = None \<and>
        br_displacement b + br_width b = ins_size ins \<and> (br_width b = 1 \<or> br_width b = 4) \<and>
        (if br_width b = 4 \<and> br_condition b \<noteq> None then 2 else 1) \<le> br_displacement b) \<and>
     (\<forall>d. ins_call ins = Some (Direct d) \<longrightarrow> 0 < d \<and> d + 4 = ins_size ins) \<and>
     (\<forall>m. ins_call ins = Some (Indirect m) \<longrightarrow> 0 < m \<and> m < ins_size ins)"

lemma decode_instruction_ok: "ensures (decode bytes) (instruction_ok bytes)"
proof -
  let ?r = "\<lparr>rd_bytes = bytes, rd_offset = 0, rd_relative = None, rd_memory = False\<rparr>"
  have "instruction_ok bytes \<lparr>ins_size = rd_offset r', ins_terminal = t,
          ins_relative_memory = rd_relative r', ins_cannot_move = c,
          ins_branch = fl_branch f, ins_call = fl_call f\<rparr>"
    if r: "read_prefixes no_prefixes ?r = Ok (op, p, r)"
      and d: "decode_opcode imm p op r = Ok (f, r')" for op p r imm f r' t c
  proof -
    have a: "advances ?r r" "0 < rd_offset r" "rd_relative r = None"
      using read_prefixes_ok [OF r] by auto
    have b: "advances r r'" "flow_ok r f r'" using ensuresD [OF decode_opcode_ok d] by auto
    have size: "rd_offset r \<le> rd_offset r'" "rd_offset r' \<le> 15" "rd_offset r' \<le> length bytes"
      using a b(1) by (auto simp: advances_def)
    have rel: "0 < x \<and> x + 4 \<le> rd_offset r'" if "rd_relative r' = Some x" for x
      using b(1) a that by (auto simp: advances_def)
    show ?thesis
      using a(2,3) b(2) size rel by (auto simp: instruction_ok_def flow_ok_def)
  qed
  then show ?thesis
    unfolding decode_def by (intro ensures_bind ensures_prod ensures_Let ensures_if ensures_trivial) auto
qed

lemmas decode_ok = ensuresD [OF decode_instruction_ok]

section \<open>The decoder always answers\<close>

lemma skip_returns [intro!, simp]: "returns (skip n r)"
  by (simp add: skip_def Let_def)

lemma read_byte_returns [intro!, simp]: "returns (read_byte r)"
  by (auto simp: read_byte_def result_simps skip_Ok index_at_def)

lemma modrm_returns [intro!, simp]: "returns (modrm r)"
  unfolding modrm_def by (intro returns_bindI returns_prodI returns_ifI returns_LetI) simp_all

lemma read_prefixes_returns [intro!, simp]: "returns (read_prefixes p r)"
proof (induction p r rule: read_prefixes.induct)
  case (1 p r)
  show ?case
    by (subst read_prefixes.simps) (auto simp: result_simps "1")
qed

lemma decode_0f_returns [intro!, simp]: "returns (decode_0f r)"
  unfolding decode_0f_def by (intro returns_bindI returns_prodI returns_ifI) simp_all

lemma modrm_in_range: "modrm r = Ok v \<Longrightarrow> rd_offset r < length (rd_bytes r)"
  by (auto simp: modrm_def result_simps read_byte_Ok)

lemma decode_opcode_returns [intro!, simp]: "returns (decode_opcode imm p op r)"
  unfolding decode_opcode_def
  by (intro returns_bindI returns_prodI returns_ifI returns_LetI)
    (auto simp: index_at_def dest: modrm_in_range)

lemma decode_returns [intro!, simp]: "returns (decode bytes)"
  unfolding decode_def by (intro returns_bindI returns_prodI returns_ifI returns_LetI) simp_all

end
