(* ===== verification/X86_Code.thy ===== *)
theory X86_Code
  imports X86_Prefix
begin

text \<open>
  Planning an entry patch on x86-64 (src/code/x86.rs): the jump that replaces the first
  instructions of a function, and how many whole instructions it covers.
\<close>

section \<open>Definitions\<close>

definition MAX_PREFIX :: nat where
  "MAX_PREFIX = 32"

definition ENDBR64 :: "u8 list" where
  "ENDBR64 = [0xf3, 0x0f, 0x1e, 0xfa]"

record plan =
  plan_offset :: usize
  plan_original :: "u8 list"
  plan_replacement :: "u8 list"

definition starts_with :: "'a list \<Rightarrow> 'a list \<Rightarrow> bool" where
  "starts_with xs ys \<longleftrightarrow> take (length ys) xs = ys"

definition jump :: "usize \<Rightarrow> usize \<Rightarrow> u8 list result" where
  "jump source target =
     and_then (ok_or (checked_add source 5) InvalidRange) (\<lambda>after.
       case i32_try_from (int target - int after) of
         Some relative \<Rightarrow> Ok ([0xe9] @ i32_to_le relative)
       | None \<Rightarrow> Ok ([0xff, 0x25, 0, 0, 0, 0] @ u64_to_le target))"

text \<open>
  The loop of \<^verbatim>\<open>plan\<close>: add up whole instructions until the jump fits, and stop at one that
  never falls through. Every instruction has at least one byte, so \<open>length\<close> grows.
\<close>

lemma instruction_size_pos: "instruction_size bytes = Ok (n, terminal) \<Longrightarrow> 0 < n"
  by (auto simp: instruction_size_def result_simps instruction_ok_def dest!: decode_ok)

function plan_length :: "u8 list \<Rightarrow> nat \<Rightarrow> nat \<Rightarrow> nat result" where
  "plan_length prefix needed len =
     (if len < needed
      then if len = length prefix then Err InsufficientSpace
           else and_then (slice_from prefix len) (\<lambda>rest.
                and_then (instruction_size rest) (\<lambda>(count, terminal).
                  if terminal \<and> len + count < needed then Err InsufficientSpace
                  else plan_length prefix needed (len + count)))
      else Ok len)"
  by pat_completeness auto
termination
  by (relation "measure (\<lambda>(prefix, needed, len). needed - len)")
    (auto dest: instruction_size_pos)

declare plan_length.simps [simp del]

definition plan :: "usize \<Rightarrow> usize \<Rightarrow> u8 list \<Rightarrow> plan result" where
  "plan source target bytes =
     (if source = 0 \<or> target = 0 then Err InvalidAddress
      else if source = target then Err SameAddress
      else
        let offset = (if starts_with bytes ENDBR64 then 4 else 0) in
        and_then (ok_or (checked_add source offset) InvalidRange) (\<lambda>address.
        and_then (jump address target) (\<lambda>replacement.
        and_then (slice_from bytes offset) (\<lambda>prefix.
        and_then (plan_length prefix (length replacement) 0) (\<lambda>len.
        and_then (slice_to prefix len) (\<lambda>original.
          Ok \<lparr>plan_offset = offset, plan_original = original,
              plan_replacement = replacement @ replicate (len - length replacement) 0x90\<rparr>))))))"

section \<open>What the emitted jump does\<close>

text \<open>
  The reference semantics of the two jump instructions the code emits: \<^verbatim>\<open>E9 rel32\<close> and
  \<^verbatim>\<open>FF 25 rel32\<close> (a jump through the quadword at a RIP-relative address), on a byte-addressed
  memory with 64-bit addresses.
\<close>

definition wrap64 :: "int \<Rightarrow> usize" where
  "wrap64 x = nat (x mod 2 ^ 64)"

definition x86_jump :: "(usize \<Rightarrow> u8) \<Rightarrow> usize \<Rightarrow> usize option" where
  "x86_jump mem pc =
     (if mem pc = 0xe9
      then Some (wrap64 (int pc + 5 + i32_from_le (fetch mem (pc + 1) 4)))
      else if mem pc = 0xff \<and> mem (pc + 1) = 0x25
      then Some (le_value (fetch mem (wrap64 (int pc + 6 + i32_from_le (fetch mem (pc + 2) 4))) 8))
      else None)"

lemma wrap64_id: "0 \<le> x \<Longrightarrow> x \<le> int usize_max \<Longrightarrow> wrap64 x = nat x"
  by (simp add: wrap64_def usize_defs)

lemma jump_eq_Ok:
  "jump source target = Ok bytes \<longleftrightarrow> source + 5 \<le> usize_max \<and>
     bytes = (let d = int target - int (source + 5) in
       if - 2147483648 \<le> d \<and> d < 2147483648 then [0xe9] @ i32_to_le d
       else [0xff, 0x25, 0, 0, 0, 0] @ u64_to_le target)"
  by (auto simp: jump_def result_simps i32_try_from_def Let_def split: option.splits if_splits)

lemma jump_length: "jump source target = Ok bytes \<Longrightarrow> length bytes = 5 \<or> length bytes = 14"
  by (auto simp: jump_eq_Ok Let_def split: if_splits)

lemma jump_returns [simp]: "returns (jump source target)"
  by (auto simp: jump_def result_simps split: option.splits)

lemma jump_reaches_near:
  assumes "- 2147483648 \<le> d" "d < 2147483648" "int source + 5 + d = int target"
    and t: "target \<le> usize_max"
    and mem: "fetch mem source 5 = [0xe9] @ i32_to_le d"
  shows "x86_jump mem source = Some target"
proof -
  have "fetch mem source 1 = [0xe9]" "fetch mem (source + 1) 4 = i32_to_le d"
    using fetch_split [OF mem, of 1 4] by simp_all
  moreover have "i32_from_le (i32_to_le d) = d" using assms(1,2) by (rule i32_from_to_le)
  moreover have "wrap64 (int source + 5 + d) = target"
    using t by (subst wrap64_id) (auto simp: assms(3))
  ultimately show ?thesis by (simp add: x86_jump_def)
qed

lemma jump_reaches_far:
  assumes t: "target \<le> usize_max" and far: "source + 6 \<le> usize_max"
    and mem: "fetch mem source 14 = [0xff, 0x25, 0, 0, 0, 0] @ u64_to_le target"
  shows "x86_jump mem source = Some target"
proof -
  have m: "fetch mem (source + 6) 8 = u64_to_le target"
      "fetch mem source 6 = [0xff, 0x25] @ [0, 0, 0, 0]"
    using fetch_split [OF mem, of 6 8] by simp_all
  have h: "fetch mem source 2 = [0xff, 0x25]" "fetch mem (source + 2) 4 = [0, 0, 0, 0]"
    using fetch_split [OF m(2), of 2 4] by simp_all
  have op: "mem source = 0xff" "mem (source + 1) = 0x25"
    using h(1) unfolding numeral_2_eq_2 by simp_all
  have z: "i32_from_le [0, 0, 0, 0] = 0" by (simp add: i32_from_le_def)
  have "wrap64 (int source + 6) = source + 6"
    using far by (subst wrap64_id) auto
  with h(2) op z m(1) t show ?thesis by (simp add: x86_jump_def le_simps)
qed

lemma jump_reaches:
  assumes j: "jump source target = Ok bytes" and t: "target \<le> usize_max"
    and mem: "fetch mem source (length bytes) = bytes"
    and far: "source + 6 \<le> usize_max"
  shows "x86_jump mem source = Some target"
proof -
  let ?d = "int target - int (source + 5)"
  show ?thesis
  proof (cases "- 2147483648 \<le> ?d \<and> ?d < 2147483648")
    case True
    with j have b: "bytes = [0xe9] @ i32_to_le ?d" by (simp add: jump_eq_Ok Let_def)
    with mem have "fetch mem source 5 = [0xe9] @ i32_to_le ?d" by simp
    with True t show ?thesis by (intro jump_reaches_near [of ?d]) auto
  next
    case False
    with j have b: "bytes = [0xff, 0x25, 0, 0, 0, 0] @ u64_to_le target"
      by (simp only: jump_eq_Ok Let_def if_False)
    with mem have "fetch mem source 14 = [0xff, 0x25, 0, 0, 0, 0] @ u64_to_le target" by simp
    then show ?thesis by (rule jump_reaches_far [OF t far])
  qed
qed

section \<open>Plans cover whole instructions\<close>

text \<open>
  \<open>decoded bytes n inss\<close>: the first \<open>n\<close> bytes are exactly the instructions
  \<open>inss\<close>, one after the other.
\<close>

inductive decoded :: "u8 list \<Rightarrow> nat \<Rightarrow> instruction list \<Rightarrow> bool" for bytes where
  Entry: "decoded bytes 0 []"
| Insn: "decoded bytes n inss \<Longrightarrow> decode (drop n bytes) = Ok ins \<Longrightarrow>
    decoded bytes (n + ins_size ins) (inss @ [ins])"

lemma decode_size:
  "decode (drop n bytes) = Ok ins \<Longrightarrow>
   0 < ins_size ins \<and> ins_size ins \<le> 15 \<and> n + ins_size ins \<le> length bytes"
  by (drule decode_ok) (auto simp: instruction_ok_def)

lemma decoded_le: "decoded bytes n inss \<Longrightarrow> n \<le> length bytes"
  by (induction rule: decoded.induct) (auto dest: decode_size)

lemma decoded_size: "decoded bytes n inss \<Longrightarrow> n = sum_list (map ins_size inss)"
  by (induction rule: decoded.induct) auto

lemma plan_length_step:
  assumes "plan_length prefix needed len = Ok n" "len < needed"
  obtains ins where "decode (drop len prefix) = Ok ins"
    "\<not> (ins_terminal ins \<and> len + ins_size ins < needed)"
    "plan_length prefix needed (len + ins_size ins) = Ok n"
    "slice_from prefix len = Ok (drop len prefix)"
  using assms
  by (subst (asm) (2) plan_length.simps)
    (auto simp: result_simps instruction_size_def slice_from_def split: if_splits)

lemma plan_length_ok:
  assumes "plan_length prefix needed len = Ok n" "len < needed" "decoded prefix len inss"
    "\<forall>i\<in>set inss. \<not> ins_terminal i"
  shows "\<exists>inss'. decoded prefix n inss' \<and> needed \<le> n \<and> n < needed + 15 \<and>
     (\<forall>i\<in>set (butlast inss'). \<not> ins_terminal i)"
  using assms
proof (induction prefix needed len arbitrary: inss rule: plan_length.induct)
  case (1 prefix needed len)
  from "1.prems"(1,2) obtain ins where d: "decode (drop len prefix) = Ok ins"
    and t: "\<not> (ins_terminal ins \<and> len + ins_size ins < needed)"
    and p: "plan_length prefix needed (len + ins_size ins) = Ok n"
    and s: "slice_from prefix len = Ok (drop len prefix)"
    by (rule plan_length_step)
  have b: "decoded prefix (len + ins_size ins) (inss @ [ins])"
    using "1.prems"(3) d by (rule decoded.Insn)
  show ?case
  proof (cases "len + ins_size ins < needed")
    case False
    with p have "n = len + ins_size ins" by (subst (asm) plan_length.simps) simp
    with False b decode_size [OF d] "1.prems"(2,4) show ?thesis
      by (intro exI [of _ "inss @ [ins]"]) auto
  next
    case True
    have "len \<noteq> length prefix" using decode_size [OF d] by auto
    from "1.IH" [OF "1.prems"(2) this s _ refl _ p True b, of "ins_terminal ins"] d t True "1.prems"(4)
    show ?thesis by (auto simp: instruction_size_def)
  qed
qed

lemma plan_length_returns:
  "len \<le> length prefix \<Longrightarrow> returns (plan_length prefix needed len)"
proof (induction prefix needed len rule: plan_length.induct)
  case (1 prefix needed len)
  have "returns (plan_length prefix needed (len + ins_size ins))"
    if "len < needed" "len \<noteq> length prefix" "decode (drop len prefix) = Ok ins"
      "\<not> (ins_terminal ins \<and> len + ins_size ins < needed)" for ins
    by (rule "1.IH" [OF that(1,2)]) (use that "1.prems" decode_size [OF that(3)] in
        \<open>auto simp: slice_from_def instruction_size_def\<close>)
  with "1.prems" show ?case
    by (subst plan_length.simps) (auto simp: result_simps instruction_size_def slice_from_def)
qed

lemma plan_Ok:
  assumes "plan source target bytes = Ok p"
  obtains j n where
    "jump (source + plan_offset p) target = Ok j"
    "plan_length (drop (plan_offset p) bytes) (length j) 0 = Ok n"
    "plan_offset p = (if starts_with bytes ENDBR64 then 4 else 0)"
    "plan_offset p \<le> length bytes" "n \<le> length bytes - plan_offset p"
    "plan_original p = take n (drop (plan_offset p) bytes)"
    "plan_replacement p = j @ replicate (n - length j) 0x90"
    "source \<noteq> 0" "target \<noteq> 0" "source \<noteq> target"
  using assms
  by (auto simp: plan_def Let_def result_simps slice_from_def slice_to_def simp del: append.simps
      split: if_splits)

lemma starts_with_length: "starts_with xs ys \<Longrightarrow> length ys \<le> length xs"
  by (metis starts_with_def length_take min.cobounded1)

text \<open>
  The state after a patch is written: the bytes of the plan stand at the patched address, and the
  instruction there is a jump to the replacement.
\<close>

definition patched_entry :: "usize \<Rightarrow> plan \<Rightarrow> (usize \<Rightarrow> u8) \<Rightarrow> bool" where
  "patched_entry source p mem \<longleftrightarrow>
     fetch mem (source + plan_offset p) (length (plan_replacement p)) = plan_replacement p"

lemma plan_shape:
  assumes p: "plan source target bytes = Ok p"
  shows "\<exists>inss. decoded (drop (plan_offset p) bytes) (length (plan_original p)) inss \<and>
       (\<forall>i\<in>set (butlast inss). \<not> ins_terminal i)"
    and "plan_original p = take (length (plan_original p)) (drop (plan_offset p) bytes)"
    and "length (plan_replacement p) = length (plan_original p)"
    and "plan_offset p + length (plan_original p) \<le> MAX_PREFIX"
    and "plan_offset p + length (plan_original p) \<le> length bytes"
proof -
  from p obtain j n where j: "jump (source + plan_offset p) target = Ok j"
    and n: "plan_length (drop (plan_offset p) bytes) (length j) 0 = Ok n"
    and o: "plan_offset p = (if starts_with bytes ENDBR64 then 4 else 0)" "plan_offset p \<le> length bytes"
      "n \<le> length bytes - plan_offset p"
    and eq: "plan_original p = take n (drop (plan_offset p) bytes)"
      "plan_replacement p = j @ replicate (n - length j) 0x90"
    by (rule plan_Ok)
  have len: "length j = 5 \<or> length j = 14" using j by (rule jump_length)
  then have "0 < length j" by auto
  from plan_length_ok [OF n this decoded.Entry] obtain inss where
    d: "decoded (drop (plan_offset p) bytes) n inss" "length j \<le> n" "n < length j + 15"
      "\<forall>i\<in>set (butlast inss). \<not> ins_terminal i" by auto
  have l: "length (plan_original p) = n" using o eq by simp
  show "\<exists>inss. decoded (drop (plan_offset p) bytes) (length (plan_original p)) inss \<and>
      (\<forall>i\<in>set (butlast inss). \<not> ins_terminal i)"
    using d l by auto
  show "plan_original p = take (length (plan_original p)) (drop (plan_offset p) bytes)"
    unfolding l by (rule eq)
  show "length (plan_replacement p) = length (plan_original p)" using l eq d by simp
  show "plan_offset p + length (plan_original p) \<le> MAX_PREFIX"
    using l d(3) len o(1) by (auto simp: MAX_PREFIX_def)
  show "plan_offset p + length (plan_original p) \<le> length bytes" using l o by simp
qed

lemma plan_reaches:
  assumes p: "plan source target bytes = Ok p" and t: "target \<le> usize_max"
    and room: "source + length bytes \<le> usize_max" and mem: "patched_entry source p mem"
  shows "x86_jump mem (source + plan_offset p) = Some target"
proof -
  from p obtain j n where j: "jump (source + plan_offset p) target = Ok j"
    and n: "plan_length (drop (plan_offset p) bytes) (length j) 0 = Ok n"
    and o: "plan_offset p \<le> length bytes" "n \<le> length bytes - plan_offset p"
    and eq: "plan_replacement p = j @ replicate (n - length j) 0x90"
    by (rule plan_Ok)
  have len: "length j = 5 \<or> length j = 14" using j by (rule jump_length)
  then have "0 < length j" by auto
  from plan_length_ok [OF n this decoded.Entry] have nj: "length j \<le> n" by auto
  have m: "fetch mem (source + plan_offset p) (length j) = j"
    using fetch_split [OF mem [unfolded patched_entry_def eq], of "length j" "n - length j"] nj by simp
  from len show ?thesis
  proof
    assume "length j = 14"
    with nj o room have "source + plan_offset p + 6 \<le> usize_max" by simp
    with j t m show ?thesis by (rule jump_reaches)
  next
    assume five: "length j = 5"
    let ?d = "int target - int (source + plan_offset p + 5)"
    have d: "j = [0xe9] @ i32_to_le ?d" "- 2147483648 \<le> ?d" "?d < 2147483648"
      using j five by (auto simp: jump_eq_Ok Let_def split: if_splits)
    have "fetch mem (source + plan_offset p) 5 = [0xe9] @ i32_to_le ?d"
      using m unfolding five d(1) [symmetric] .
    with d(2,3) _ t show ?thesis by (rule jump_reaches_near) simp
  qed
qed

lemma plan_returns [simp]: "returns (plan source target bytes)"
proof -
  have "returns (slice_to prefix n)"
    if "plan_length prefix (length j) 0 = Ok n" "jump a target = Ok j" for prefix n j a
  proof -
    have "0 < length j" using jump_length [OF that(2)] by auto
    from plan_length_ok [OF that(1) this decoded.Entry] decoded_le show ?thesis
      by (auto simp: slice_to_def dest: decoded_le)
  qed
  then show ?thesis
    by (auto simp: plan_def Let_def result_simps slice_from_def plan_length_returns ENDBR64_def
        dest: starts_with_length)
qed

section \<open>Properties\<close>

text \<open>
  C24: Decoding any byte string ends as a \<^verbatim>\<open>Result\<close>, without a slice access out of range; a
  decoded instruction has 1 to 15 bytes, all of them input bytes, and every field the decoder
  reports (displacement of a RIP-relative operand, of a branch, of a call, the ModRM byte of an
  indirect call) lies inside it.
\<close>

theorem decode_in_bounds:
  "returns (decode bytes) \<and> (\<forall>ins. decode bytes = Ok ins \<longrightarrow> instruction_ok bytes ins)"
  by (auto dest: decode_ok)

theorem decode_in_bounds_witness:
  "decode [0x48, 0x8b, 0x05, 1, 2, 3, 4] = Ok \<lparr>ins_size = 7, ins_terminal = False,
     ins_relative_memory = Some 3, ins_cannot_move = False, ins_branch = None, ins_call = None\<rparr> \<and>
   instruction_ok [0x48, 0x8b, 0x05, 1, 2, 3, 4] \<lparr>ins_size = 7, ins_terminal = False,
     ins_relative_memory = Some 3, ins_cannot_move = False, ins_branch = None, ins_call = None\<rparr>"
proof -
  have d: "decode [0x48, 0x8b, 0x05, 1, 2, 3, 4] = Ok \<lparr>ins_size = 7, ins_terminal = False,
     ins_relative_memory = Some 3, ins_cannot_move = False, ins_branch = None, ins_call = None\<rparr>"
    by code_simp
  with decode_in_bounds [of "[0x48, 0x8b, 0x05, 1, 2, 3, 4]"] show ?thesis by blast
qed

text \<open>
  C11: Planning a patch ends as a \<^verbatim>\<open>Result\<close> for every pair of addresses and every entry. A plan
  replaces a run of whole instructions, none but the last of which ends the function, by the same
  number of bytes, within the \<^verbatim>\<open>MAX_PREFIX\<close> bytes that are read; and once the plan's bytes stand
  in memory the entry jumps to the target, however far away it is.
\<close>

theorem plan_sound:
  assumes "plan source target bytes = Ok p" "target \<le> usize_max"
    "source + length bytes \<le> usize_max" "patched_entry source p mem"
  shows "(\<exists>inss. decoded (drop (plan_offset p) bytes) (length (plan_original p)) inss \<and>
            (\<forall>i\<in>set (butlast inss). \<not> ins_terminal i)) \<and>
         plan_original p = take (length (plan_original p)) (drop (plan_offset p) bytes) \<and>
         length (plan_replacement p) = length (plan_original p) \<and>
         plan_offset p + length (plan_original p) \<le> min MAX_PREFIX (length bytes) \<and>
         x86_jump mem (source + plan_offset p) = Some target"
  using plan_shape [OF assms(1)] plan_reaches [OF assms] by simp

definition sample_entry :: "u8 list" where
  "sample_entry = [0x55, 0x48, 0x89, 0xe5, 0x5d, 0xc3]"

definition sample_plan :: plan where
  "sample_plan = \<lparr>plan_offset = 0, plan_original = [0x55, 0x48, 0x89, 0xe5, 0x5d],
     plan_replacement = [0xe9, 0xfb, 0x0f, 0, 0]\<rparr>"

definition sample_memory :: "usize \<Rightarrow> u8" where
  "sample_memory a = (if a < 4096 \<or> 4101 \<le> a then 0 else plan_replacement sample_plan ! (a - 4096))"

lemma sample_jump: "jump 4096 8192 = Ok [0xe9, 0xfb, 0x0f, 0, 0]"
  by (simp add: jump_def checked_add_def usize_defs i32_try_from_def i32_to_le_def
      le_bytes_numeral)

lemma sample_sizes:
  "instruction_size [0x55, 0x48, 0x89, 0xe5, 0x5d, 0xc3] = Ok (1, False)"
  "instruction_size [0x48, 0x89, 0xe5, 0x5d, 0xc3] = Ok (3, False)"
  "instruction_size [0x5d, 0xc3] = Ok (1, False)"
  by code_simp+

lemma sample_plan_computed: "plan 4096 8192 sample_entry = Ok sample_plan"
  by (simp add: plan_def sample_entry_def sample_plan_def starts_with_def ENDBR64_def Let_def
      checked_add_def usize_defs sample_jump slice_from_def slice_to_def plan_length.simps sample_sizes)

theorem plan_sound_witness:
  "plan 4096 8192 sample_entry = Ok sample_plan \<and>
   x86_jump sample_memory (4096 + plan_offset sample_plan) = Some 8192"
proof -
  have "patched_entry 4096 sample_plan sample_memory"
    by (simp add: patched_entry_def sample_plan_def sample_memory_def fetch_def upt_rec)
  from plan_sound [OF sample_plan_computed _ _ this] sample_plan_computed show ?thesis
    by (simp add: sample_entry_def usize_defs)
qed

end
