(* ===== verification/X86_Relocate.thy ===== *)
theory X86_Relocate
  imports X86_Code
begin

text \<open>
  Moving a function prefix on x86-64 (src/code/relocate.rs): the trampoline that lets a mock call
  the original function. The displaced instructions are copied to new memory, their relative
  operands are rewritten for the new place, and a jump leads back behind the patch.

  \<open>trampoline_step\<close> is the body of the loop over the prefix, \<open>fixup\<close> the body of the loop
  that fills in branch displacements once every instruction has its place. Slices and indices keep
  their bounds checks, so that the absence of a panic is a theorem.
\<close>

section \<open>Definitions\<close>

text \<open>\<^verbatim>\<open>i32::from_le_bytes(original[field..field + 4].try_into().unwrap())\<close>\<close>

definition read_i32 :: "u8 list \<Rightarrow> nat \<Rightarrow> int result" where
  "read_i32 bytes field =
     and_then (subslice bytes field (field + 4)) (\<lambda>b. Ok (i32_from_le b))"

definition read_i8 :: "u8 list \<Rightarrow> nat \<Rightarrow> int result" where
  "read_i8 bytes field = and_then (index_at bytes field) (\<lambda>b. Ok (i8_of b))"

record tramp =
  tr_output :: "u8 list"
  tr_positions :: "(nat \<times> nat) list"
  tr_branches :: "(nat \<times> int) list"

text \<open>The instruction itself, with room for a branch displacement that is known only later.\<close>

definition branch_opcode :: "branch \<Rightarrow> u8 list" where
  "branch_opcode b = (case br_condition b of Some c \<Rightarrow> [0x0f, 0x80 OR c] | None \<Rightarrow> [0xe9])"

definition branch_prefix :: "branch \<Rightarrow> nat result" where
  "branch_prefix b =
     usize_sub (br_displacement b) (if br_width b = 4 \<and> br_condition b \<noteq> None then 2 else 1)"

definition copy_instruction ::
  "usize \<Rightarrow> u8 list \<Rightarrow> nat \<Rightarrow> instruction \<Rightarrow> u8 list \<Rightarrow> (u8 list \<times> (nat \<times> int) list) result" where
  "copy_instruction source original off ins output =
     (let e = off + ins_size ins in
      case ins_branch ins of
        Some b \<Rightarrow>
          let field = off + br_displacement b in
          and_then (if br_width b = 1 then read_i8 original field else read_i32 original field) (\<lambda>value.
          and_then (branch_prefix b) (\<lambda>n.
          and_then (subslice original off (off + n)) (\<lambda>prefix.
            let output1 = output @ prefix @ branch_opcode b in
            Ok (output1 @ [0, 0, 0, 0], [(length output1, int source + int e + value)]))))
      | None \<Rightarrow>
          (case ins_call ins of
             Some (Direct d) \<Rightarrow>
               and_then (read_i32 original (off + d)) (\<lambda>value.
                 let output1 = output @ [0xe9] in
                 Ok (output1 @ [0, 0, 0, 0], [(length output1, int source + int e + value)]))
           | Some (Indirect m) \<Rightarrow>
               and_then (subslice original off e) (\<lambda>copied.
               and_then (index_at (output @ copied) (length output + m)) (\<lambda>b.
                 Ok ((output @ copied)[length output + m := (b AND NOT 0x38) OR 0x20], [])))
           | None \<Rightarrow>
               and_then (subslice original off e) (\<lambda>copied. Ok (output @ copied, []))))"

text \<open>A RIP-relative operand keeps its absolute address.\<close>

definition relocate_memory ::
  "usize \<Rightarrow> usize \<Rightarrow> u8 list \<Rightarrow> nat \<Rightarrow> instruction \<Rightarrow> nat \<Rightarrow> u8 list \<Rightarrow> u8 list result" where
  "relocate_memory source destination original off ins copied_start output =
     (case ins_relative_memory ins of
        None \<Rightarrow> Ok output
      | Some displacement \<Rightarrow>
          and_then (read_i32 original (off + displacement)) (\<lambda>value.
            let target = int source + int (off + ins_size ins) + value in
            if \<not> (0 \<le> target \<and> target \<le> int usize_max) then Err InvalidRange
            else and_then (ok_or (checked_add destination (length output)) InvalidRange) (\<lambda>after.
                 and_then (ok_or (i32_try_from (target - int after)) InvalidRange) (\<lambda>relative.
                   copy_from_slice output (copied_start + displacement) (i32_to_le relative)))))"

text \<open>
  A call becomes a push of the real return address and a jump; the pushed quadword follows the
  jump, and the push reads it relative to its own end.
\<close>

definition push_return :: "usize \<Rightarrow> instruction \<Rightarrow> nat \<Rightarrow> u8 list \<Rightarrow> u8 list result" where
  "push_return continuation ins start output =
     (if ins_call ins = None then Ok output
      else and_then (usize_sub (length output) start) (\<lambda>n.
           and_then (usize_sub n 6) (\<lambda>displacement.
           and_then (copy_from_slice output (start + 2) (i32_to_le (int displacement))) (\<lambda>patched.
             Ok (patched @ u64_to_le continuation)))))"

definition trampoline_step ::
  "usize \<Rightarrow> usize \<Rightarrow> usize \<Rightarrow> u8 list \<Rightarrow> nat \<Rightarrow> tramp \<Rightarrow> (nat \<times> tramp) result" where
  "trampoline_step source destination continuation original off st =
     and_then (slice_from original off) (\<lambda>rest.
     and_then (decode rest) (\<lambda>ins.
       if ins_cannot_move ins then Err InvalidInstruction
       else
         let e = off + ins_size ins; start = length (tr_output st) in
         and_then (if ins_call ins \<noteq> None
                   then if e \<noteq> length original then Err InvalidInstruction
                        else Ok (tr_output st @ [0xff, 0x35, 0, 0, 0, 0])
                   else Ok (tr_output st)) (\<lambda>output1.
         and_then (copy_instruction source original off ins output1) (\<lambda>(output2, new).
         and_then (relocate_memory source destination original off ins (length output1) output2) (\<lambda>output3.
         and_then (push_return continuation ins start output3) (\<lambda>output4.
           Ok (e, \<lparr>tr_output = output4, tr_positions = tr_positions st @ [(off, start)],
                   tr_branches = tr_branches st @ new\<rparr>)))))))"

lemma trampoline_step_grows:
  "trampoline_step source destination continuation original off st = Ok (e, st') \<Longrightarrow> off < e"
  by (auto simp: trampoline_step_def result_simps Let_def instruction_ok_def split: if_splits
      dest!: decode_ok)

function trampoline_loop ::
  "usize \<Rightarrow> usize \<Rightarrow> usize \<Rightarrow> u8 list \<Rightarrow> nat \<Rightarrow> tramp \<Rightarrow> tramp result" where
  "trampoline_loop source destination continuation original off st =
     (if off < length original
      then and_then (trampoline_step source destination continuation original off st)
             (\<lambda>(e, st'). trampoline_loop source destination continuation original e st')
      else Ok st)"
  by pat_completeness auto
termination
  by (relation "measure (\<lambda>(s, d, c, original, off, st). length original - off)")
    (auto dest: trampoline_step_grows)

declare trampoline_loop.simps [simp del]

definition fixup ::
  "usize \<Rightarrow> usize \<Rightarrow> usize \<Rightarrow> (nat \<times> nat) list \<Rightarrow> nat \<times> int \<Rightarrow> u8 list \<Rightarrow> u8 list result" where
  "fixup source destination continuation positions br output =
     (let field = fst br in
      and_then (ok_or (usize_try_from (snd br)) InvalidRange) (\<lambda>target.
      and_then (if source \<le> target \<and> target < continuation
                then and_then (ok_or (List.find (\<lambda>position. fst position = target - source) positions)
                                 InvalidInstruction) (\<lambda>mapped.
                     ok_or (checked_add destination (snd mapped)) InvalidRange)
                else Ok target) (\<lambda>target'.
      and_then (ok_or (checked_add destination (field + 4)) InvalidRange) (\<lambda>after.
      and_then (ok_or (i32_try_from (int target' - int after)) InvalidRange) (\<lambda>relative.
        copy_from_slice output field (i32_to_le relative))))))"

primrec fixups ::
  "usize \<Rightarrow> usize \<Rightarrow> usize \<Rightarrow> (nat \<times> nat) list \<Rightarrow> (nat \<times> int) list \<Rightarrow> u8 list \<Rightarrow> u8 list result" where
  "fixups source destination continuation positions [] output = Ok output"
| "fixups source destination continuation positions (br # brs) output =
     and_then (fixup source destination continuation positions br output)
       (fixups source destination continuation positions brs)"

definition trampoline :: "usize \<Rightarrow> usize \<Rightarrow> u8 list \<Rightarrow> u8 list result" where
  "trampoline source destination original =
     (if source = 0 \<or> destination = 0 then Err InvalidAddress
      else
        and_then (ok_or (checked_add source (length original)) InvalidRange) (\<lambda>continuation.
        and_then (trampoline_loop source destination continuation original 0
            \<lparr>tr_output = ENDBR64, tr_positions = [], tr_branches = []\<rparr>) (\<lambda>st.
        and_then (fixups source destination continuation (tr_positions st) (tr_branches st)
            (tr_output st)) (\<lambda>output.
        and_then (ok_or (case checked_add destination (length output) of
              Some address \<Rightarrow> checked_add address 5
            | None \<Rightarrow> None) InvalidRange) (\<lambda>after.
        and_then (ok_or (i32_try_from (int continuation - int after)) InvalidRange) (\<lambda>relative.
          Ok (output @ [0xe9] @ i32_to_le relative)))))))"

text \<open>\<^verbatim>\<open>needs_call_bridge\<close>: does the prefix contain a call?\<close>

function call_bridge_loop :: "u8 list \<Rightarrow> nat \<Rightarrow> bool result" where
  "call_bridge_loop original off =
     (if off < length original
      then and_then (slice_from original off) (\<lambda>rest.
           and_then (decode rest) (\<lambda>ins.
             if ins_call ins \<noteq> None then Ok True
             else call_bridge_loop original (off + ins_size ins)))
      else Ok False)"
  by pat_completeness auto
termination
  by (relation "measure (\<lambda>(original, off). length original - off)")
    (auto simp: instruction_ok_def dest!: decode_ok)

declare call_bridge_loop.simps [simp del]

definition needs_call_bridge :: "u8 list \<Rightarrow> bool result" where
  "needs_call_bridge original = call_bridge_loop original 0"

section \<open>A reference layout\<close>

text \<open>
  The trampoline described block by block, without back-patching. \<open>branch_goal\<close> is the address
  that the branch or direct call at \<open>off\<close> goes to in the original function; \<open>emit fill\<close> is
  the block that replaces the instruction, with \<open>fill goal after\<close> in the displacement field of
  its branch, where \<open>after\<close> is the address of the byte behind that field.
\<close>

definition branch_value :: "u8 list \<Rightarrow> nat \<Rightarrow> branch \<Rightarrow> int" where
  "branch_value original off b =
     (if br_width b = 1 then i8_of (original ! (off + br_displacement b))
      else i32_from_le (take 4 (drop (off + br_displacement b) original)))"

definition branch_goal :: "usize \<Rightarrow> u8 list \<Rightarrow> nat \<Rightarrow> instruction \<Rightarrow> int option" where
  "branch_goal source original off ins =
     (case ins_branch ins of
        Some b \<Rightarrow> Some (int source + int (off + ins_size ins) + branch_value original off b)
      | None \<Rightarrow>
          (case ins_call ins of
             Some (Direct d) \<Rightarrow>
               Some (int source + int (off + ins_size ins) +
                     i32_from_le (take 4 (drop (off + d) original)))
           | _ \<Rightarrow> None))"

definition memory_goal :: "usize \<Rightarrow> u8 list \<Rightarrow> nat \<Rightarrow> instruction \<Rightarrow> int option" where
  "memory_goal source original off ins =
     map_option (\<lambda>d. int source + int (off + ins_size ins) +
                     i32_from_le (take 4 (drop (off + d) original)))
       (ins_relative_memory ins)"

definition branch_head :: "u8 list \<Rightarrow> nat \<Rightarrow> instruction \<Rightarrow> u8 list" where
  "branch_head original off ins =
     (case ins_branch ins of
        Some b \<Rightarrow>
          take (br_displacement b - (if br_width b = 4 \<and> br_condition b \<noteq> None then 2 else 1))
            (drop off original) @ branch_opcode b
      | None \<Rightarrow> [0xff, 0x35] @ i32_to_le 5 @ [0xe9])"

definition moved_code :: "usize \<Rightarrow> usize \<Rightarrow> u8 list \<Rightarrow> nat \<Rightarrow> nat \<Rightarrow> instruction \<Rightarrow> u8 list" where
  "moved_code source destination original off start ins =
     (let copied = take (ins_size ins) (drop off original);
          code = (case ins_call ins of
                    Some (Indirect m) \<Rightarrow> copied[m := (copied ! m AND NOT 0x38) OR 0x20]
                  | _ \<Rightarrow> copied)
      in case ins_relative_memory ins of
           None \<Rightarrow> code
         | Some d \<Rightarrow>
             splice_at code d
               (i32_to_le (the (memory_goal source original off ins) -
                           int (destination + start + ins_size ins))))"

definition return_slot :: "usize \<Rightarrow> instruction \<Rightarrow> u8 list" where
  "return_slot continuation ins = (if ins_call ins = None then [] else u64_to_le continuation)"

definition push_slot :: "instruction \<Rightarrow> u8 list" where
  "push_slot ins = (if ins_call ins = None then [] else [0xff, 0x35] @ i32_to_le (int (ins_size ins)))"

definition emit ::
  "(int \<Rightarrow> nat \<Rightarrow> u8 list) \<Rightarrow> usize \<Rightarrow> usize \<Rightarrow> usize \<Rightarrow> u8 list \<Rightarrow> nat \<Rightarrow> nat \<Rightarrow> instruction \<Rightarrow> u8 list" where
  "emit fill source destination continuation original off pos ins =
     (case branch_goal source original off ins of
        Some goal \<Rightarrow>
          (let head = branch_head original off ins
           in head @ fill goal (destination + pos + length head + 4) @ return_slot continuation ins)
      | None \<Rightarrow>
          push_slot ins @
          moved_code source destination original off (pos + length (push_slot ins)) ins @
          return_slot continuation ins)"

definition blank :: "int \<Rightarrow> nat \<Rightarrow> u8 list" where
  "blank goal after = [0, 0, 0, 0]"

definition emit_branches :: "usize \<Rightarrow> u8 list \<Rightarrow> nat \<Rightarrow> nat \<Rightarrow> instruction \<Rightarrow> (nat \<times> int) list" where
  "emit_branches source original off pos ins =
     (case branch_goal source original off ins of
        Some goal \<Rightarrow> [(pos + length (branch_head original off ins), goal)]
      | None \<Rightarrow> [])"

text \<open>The new displacement of a RIP-relative operand fits its field.\<close>

definition memory_in_reach ::
  "usize \<Rightarrow> usize \<Rightarrow> u8 list \<Rightarrow> nat \<Rightarrow> nat \<Rightarrow> instruction \<Rightarrow> bool" where
  "memory_in_reach source destination original off pos ins \<longleftrightarrow>
     (case memory_goal source original off ins of
        None \<Rightarrow> True
      | Some goal \<Rightarrow>
          let d = goal - int (destination + pos + length (push_slot ins) + ins_size ins)
          in 0 \<le> goal \<and> goal \<le> int usize_max \<and> - 2147483648 \<le> d \<and> d < 2147483648)"

section \<open>One step of the loop\<close>

lemma read_i32_Ok: "read_i32 bytes i = Ok v \<longleftrightarrow> i + 4 \<le> length bytes \<and> v = i32_from_le (take 4 (drop i bytes))"
  by (auto simp: read_i32_def result_simps subslice_def)

lemma read_i8_Ok: "read_i8 bytes i = Ok v \<longleftrightarrow> i < length bytes \<and> v = i8_of (bytes ! i)"
  by (auto simp: read_i8_def result_simps index_at_def)

lemma splice_at_append [simp]:
  "i = length xs + k \<Longrightarrow> splice_at (xs @ ys) i zs = xs @ splice_at ys k zs"
  by (simp add: splice_at_def)

lemma splice_at_prefix [simp]:
  "i + length zs \<le> length xs \<Longrightarrow> splice_at (xs @ ys) i zs = splice_at xs i zs @ ys"
  by (simp add: splice_at_def)

lemma copy_instruction_Ok:
  assumes "copy_instruction source original off ins output = Ok (output', new)"
    and ok: "instruction_ok (drop off original) ins"
  shows "case branch_goal source original off ins of
      Some goal \<Rightarrow>
        (let head = (if ins_branch ins = None then [0xe9] else branch_head original off ins)
         in output' = output @ head @ [0, 0, 0, 0] \<and> new = [(length output + length head, goal)])
    | None \<Rightarrow>
        new = [] \<and> output' = output @
          (case ins_call ins of
             Some (Indirect m) \<Rightarrow>
               (take (ins_size ins) (drop off original))
                 [m := (take (ins_size ins) (drop off original) ! m AND NOT 0x38) OR 0x20]
           | _ \<Rightarrow> take (ins_size ins) (drop off original))"
proof (cases "ins_branch ins")
  case (Some b)
  with assms show ?thesis
    by (auto simp: copy_instruction_def branch_goal_def branch_head_def branch_value_def
        branch_prefix_def result_simps Let_def read_i8_Ok read_i32_Ok subslice_Ok split: if_splits)
next
  case None
  show ?thesis
  proof (cases "ins_call ins")
    case (Some c)
    with None assms show ?thesis
      by (cases c) (auto simp: copy_instruction_def branch_goal_def result_simps Let_def read_i32_Ok
          subslice_Ok index_at_def nth_append list_update_append split: if_splits)
  qed (use None assms in \<open>auto simp: copy_instruction_def branch_goal_def result_simps Let_def
      subslice_Ok\<close>)
qed

lemma instruction_ok_relative:
  "instruction_ok bytes ins \<Longrightarrow> ins_relative_memory ins = Some d \<Longrightarrow>
   ins_branch ins = None \<and> (\<forall>c. ins_call ins \<noteq> Some (Direct c)) \<and> d + 4 \<le> ins_size ins"
  by (simp add: instruction_ok_def)

lemma relocate_memory_Ok:
  assumes "relocate_memory source destination original off ins (length output) (output @ code) = Ok output'"
    and len: "length code = ins_size ins"
    and rel: "ins_relative_memory ins = Some d" "d + 4 \<le> ins_size ins"
    and pos: "length output = pos + length (push_slot ins)"
  shows "output' = output @ splice_at code d
      (i32_to_le (the (memory_goal source original off ins) - int (destination + length output + ins_size ins))) \<and>
    memory_in_reach source destination original off pos ins"
  using assms
  by (auto simp: relocate_memory_def result_simps Let_def read_i32_Ok copy_from_slice_Ok
      memory_goal_def memory_in_reach_def add.assoc split: if_splits)

lemma push_return_Ok:
  assumes "push_return continuation ins (length output) (output @ push @ code) = Ok output'"
    and "push = (if ins_call ins = None then [] else [0xff, 0x35, 0, 0, 0, 0])"
  shows "output' = output @ (if ins_call ins = None then [] else [0xff, 0x35] @ i32_to_le (int (length code)))
    @ code @ return_slot continuation ins"
  using assms
  by (auto simp: push_return_def return_slot_def result_simps copy_from_slice_Ok splice_at_def
      split: if_splits)

text \<open>
  One turn of the loop decodes the instruction at \<open>off\<close>, appends its block with a blank branch
  field, and records where the block starts and where the field is.
\<close>

lemma trampoline_step_Ok:
  assumes "trampoline_step source destination continuation original off st = Ok (e, st')"
    "off \<le> length original"
  obtains ins where "decode (drop off original) = Ok ins" "\<not> ins_cannot_move ins"
    "e = off + ins_size ins" "ins_call ins \<noteq> None \<longrightarrow> e = length original"
    "tr_output st' = tr_output st @
       emit blank source destination continuation original off (length (tr_output st)) ins"
    "tr_positions st' = tr_positions st @ [(off, length (tr_output st))]"
    "tr_branches st' = tr_branches st @
       emit_branches source original off (length (tr_output st)) ins"
    "memory_in_reach source destination original off (length (tr_output st)) ins"
proof -
  let ?out = "tr_output st" and ?pos = "length (tr_output st)"
  from assms obtain ins output2 new output3 where d: "decode (drop off original) = Ok ins"
    and m: "\<not> ins_cannot_move ins" and c: "ins_call ins \<noteq> None \<longrightarrow> e = length original"
    and e: "e = off + ins_size ins"
    and st': "tr_positions st' = tr_positions st @ [(off, ?pos)]" "tr_branches st' = tr_branches st @ new"
    and steps: "copy_instruction source original off ins
       (?out @ (if ins_call ins = None then [] else [0xff, 0x35, 0, 0, 0, 0])) = Ok (output2, new)"
      "relocate_memory source destination original off ins
         (length (?out @ (if ins_call ins = None then [] else [0xff, 0x35, 0, 0, 0, 0]))) output2 = Ok output3"
      "push_return continuation ins ?pos output3 = Ok (tr_output st')"
    by (auto simp: trampoline_step_def slice_from_def result_simps Let_def split: if_splits)
  let ?push = "if ins_call ins = None then [] else [0xff, 0x35, 0, 0, 0, 0] :: u8 list"
  have ok: "instruction_ok (drop off original) ins" using d by (rule decode_ok)
  have size: "length (take (ins_size ins) (drop off original)) = ins_size ins"
    using ok by (auto simp: instruction_ok_def)
  note copied = copy_instruction_Ok [OF steps(1) ok]
  have "tr_output st' = ?out @ emit blank source destination continuation original off ?pos ins \<and>
    new = emit_branches source original off ?pos ins \<and>
    memory_in_reach source destination original off ?pos ins"
  proof (cases "branch_goal source original off ins")
    case (Some goal)
    then have norel: "ins_relative_memory ins = None"
      using instruction_ok_relative [OF ok] by (fastforce simp: branch_goal_def split: option.splits call_kind.splits)
    let ?head = "if ins_branch ins = None then [0xe9] else branch_head original off ins"
    from copied Some have o2: "output2 = (?out @ ?push) @ ?head @ [0, 0, 0, 0]"
      and new: "new = [(length (?out @ ?push) + length ?head, goal)]" by (auto simp: Let_def)
    have "output3 = ?out @ ?push @ (?head @ [0, 0, 0, 0])"
      using steps(2) norel o2 by (simp add: relocate_memory_def)
    from push_return_Ok [OF steps(3) [unfolded this] refl]
    have o4: "tr_output st' = ?out @ (if ins_call ins = None then []
        else [0xff, 0x35] @ i32_to_le (int (length (?head @ [0, 0, 0, 0 :: u8])))) @
        (?head @ [0, 0, 0, 0]) @ return_slot continuation ins" .
    have call: "ins_branch ins \<noteq> None \<Longrightarrow> ins_call ins = None"
      using ok by (auto simp: instruction_ok_def)
    have direct: "ins_branch ins = None \<Longrightarrow> ins_call ins \<noteq> None"
      using Some by (auto simp: branch_goal_def split: option.splits)
    show ?thesis
      using Some o4 new norel call direct
      by (cases "ins_branch ins") (auto simp: emit_def emit_branches_def blank_def branch_head_def
          memory_in_reach_def memory_goal_def return_slot_def Let_def)
  next
    case None
    define code where "code = (case ins_call ins of
             Some (Indirect m) \<Rightarrow>
               (take (ins_size ins) (drop off original))
                 [m := (take (ins_size ins) (drop off original) ! m AND NOT 0x38) OR 0x20]
           | _ \<Rightarrow> take (ins_size ins) (drop off original))"
    have len: "length code = ins_size ins"
      using size by (auto simp: code_def split: option.splits call_kind.splits)
    from copied None have o2: "output2 = (?out @ ?push) @ code" and new: "new = []"
      by (auto simp: code_def)
    have pos: "length (?out @ ?push) = ?pos + length (push_slot ins)" by (simp add: push_slot_def)
    have o3: "output3 = ?out @ ?push @ moved_code source destination original off (?pos + length (push_slot ins)) ins
        \<and> memory_in_reach source destination original off ?pos ins"
    proof (cases "ins_relative_memory ins")
      case None
      with steps(2) o2 show ?thesis
        by (simp add: relocate_memory_def moved_code_def memory_in_reach_def memory_goal_def code_def Let_def)
    next
      case (Some d)
      from relocate_memory_Ok [OF steps(2) [unfolded o2] len Some _ pos] instruction_ok_relative [OF ok Some]
      show ?thesis by (simp add: moved_code_def Some code_def push_slot_def Let_def)
    qed
    have "length (moved_code source destination original off (?pos + length (push_slot ins)) ins) = ins_size ins"
      using len instruction_ok_relative [OF ok]
      by (auto simp: moved_code_def code_def Let_def split: option.splits)
    with push_return_Ok [OF steps(3) [unfolded conjunct1 [OF o3]] refl] o3 new None
    show ?thesis by (simp add: emit_def emit_branches_def push_slot_def)
  qed
  with st' show ?thesis by (intro that [OF d m e c]) simp_all
qed

section \<open>The whole layout\<close>

text \<open>
  An item is an instruction with its offset in the original prefix and its position in the
  trampoline. \<open>placed\<close> says that the items are the instructions of the prefix from \<open>off\<close> on,
  block after block from position \<open>pos\<close> on.
\<close>

type_synonym item = "nat \<times> nat \<times> instruction"

primrec placed ::
  "usize \<Rightarrow> usize \<Rightarrow> usize \<Rightarrow> u8 list \<Rightarrow> nat \<Rightarrow> nat \<Rightarrow> item list \<Rightarrow> bool" where
  "placed source destination continuation original off pos [] \<longleftrightarrow> off = length original"
| "placed source destination continuation original off pos (it # its) \<longleftrightarrow>
     (case it of (o', p', ins) \<Rightarrow> o' = off \<and> p' = pos \<and> decode (drop off original) = Ok ins \<and>
        \<not> ins_cannot_move ins \<and>
        (ins_call ins \<noteq> None \<longrightarrow> off + ins_size ins = length original) \<and>
        memory_in_reach source destination original off pos ins \<and>
        placed source destination continuation original (off + ins_size ins)
          (pos + length (emit blank source destination continuation original off pos ins)) its)"

definition blocks ::
  "(int \<Rightarrow> nat \<Rightarrow> u8 list) \<Rightarrow> usize \<Rightarrow> usize \<Rightarrow> usize \<Rightarrow> u8 list \<Rightarrow> item list \<Rightarrow> u8 list" where
  "blocks fill source destination continuation original its =
     concat (map (\<lambda>(off, pos, ins). emit fill source destination continuation original off pos ins) its)"

definition item_branches :: "usize \<Rightarrow> u8 list \<Rightarrow> item list \<Rightarrow> (nat \<times> int) list" where
  "item_branches source original its =
     concat (map (\<lambda>(off, pos, ins). emit_branches source original off pos ins) its)"

definition places :: "item list \<Rightarrow> (nat \<times> nat) list" where
  "places its = map (\<lambda>(off, pos, ins). (off, pos)) its"

lemma layout_simps [simp]:
  "blocks fill s d c original [] = []"
  "blocks fill s d c original ((off, pos, ins) # its) =
     emit fill s d c original off pos ins @ blocks fill s d c original its"
  "item_branches s original [] = []"
  "item_branches s original ((off, pos, ins) # its) =
     emit_branches s original off pos ins @ item_branches s original its"
  "places [] = []"
  "places ((off, pos, ins) # its) = (off, pos) # places its"
  by (simp_all add: blocks_def item_branches_def places_def)

lemma trampoline_loop_Ok:
  assumes "trampoline_loop source destination continuation original off st = Ok st'"
    "off \<le> length original"
  shows "\<exists>its. placed source destination continuation original off (length (tr_output st)) its \<and>
     tr_output st' = tr_output st @ blocks blank source destination continuation original its \<and>
     tr_positions st' = tr_positions st @ places its \<and>
     tr_branches st' = tr_branches st @ item_branches source original its"
  using assms
proof (induction source destination continuation original off st rule: trampoline_loop.induct)
  case (1 source destination continuation original off st)
  show ?case
  proof (cases "off < length original")
    case False
    with "1.prems" show ?thesis
      by (subst (asm) trampoline_loop.simps) (auto intro!: exI [of _ "[]"])
  next
    case True
    with "1.prems"(1) obtain e st1 where
      s: "trampoline_step source destination continuation original off st = Ok (e, st1)"
      and l: "trampoline_loop source destination continuation original e st1 = Ok st'"
      by (subst (asm) trampoline_loop.simps) (auto simp: result_simps)
    from trampoline_step_Ok [OF s "1.prems"(2)] obtain ins where
      d: "decode (drop off original) = Ok ins" "\<not> ins_cannot_move ins"
      "e = off + ins_size ins" "ins_call ins \<noteq> None \<longrightarrow> e = length original"
      and o: "tr_output st1 = tr_output st @
        emit blank source destination continuation original off (length (tr_output st)) ins"
      and pb: "tr_positions st1 = tr_positions st @ [(off, length (tr_output st))]"
        "tr_branches st1 = tr_branches st @ emit_branches source original off (length (tr_output st)) ins"
      and r: "memory_in_reach source destination original off (length (tr_output st)) ins"
      by blast
    have "e \<le> length original" using d(1,3) decode_size [of off original ins] by simp
    from "1.IH" [OF True s refl l this] obtain its where
      "placed source destination continuation original e (length (tr_output st1)) its"
      "tr_output st' = tr_output st1 @ blocks blank source destination continuation original its"
      "tr_positions st' = tr_positions st1 @ places its"
      "tr_branches st' = tr_branches st1 @ item_branches source original its" by blast
    with d o pb r show ?thesis
      by (intro exI [of _ "(off, length (tr_output st), ins) # its"]) simp
  qed
qed

text \<open>
  Where a branch goes after the move: a goal inside the prefix is the block of that instruction,
  any other goal is unchanged.
\<close>

definition landing :: "usize \<Rightarrow> usize \<Rightarrow> usize \<Rightarrow> (nat \<times> nat) list \<Rightarrow> int \<Rightarrow> usize option" where
  "landing source destination continuation positions goal =
     (if int source \<le> goal \<and> goal < int continuation
      then map_option (\<lambda>position. destination + snd position)
             (List.find (\<lambda>position. int source + int (fst position) = goal) positions)
      else if 0 \<le> goal \<and> goal \<le> int usize_max then Some (nat goal)
      else None)"

definition resolve ::
  "usize \<Rightarrow> usize \<Rightarrow> usize \<Rightarrow> (nat \<times> nat) list \<Rightarrow> int \<Rightarrow> nat \<Rightarrow> u8 list" where
  "resolve source destination continuation positions goal after =
     (case landing source destination continuation positions goal of
        Some t \<Rightarrow> i32_to_le (int t - int after)
      | None \<Rightarrow> [0, 0, 0, 0])"

definition lands :: "usize \<Rightarrow> usize \<Rightarrow> usize \<Rightarrow> (nat \<times> nat) list \<Rightarrow> int \<Rightarrow> nat \<Rightarrow> bool" where
  "lands source destination continuation positions goal after \<longleftrightarrow>
     (case landing source destination continuation positions goal of
        Some t \<Rightarrow> t \<le> usize_max \<and> - 2147483648 \<le> int t - int after \<and> int t - int after < 2147483648
      | None \<Rightarrow> False)"

lemma length_resolve [simp]: "length (resolve s d c positions goal after) = 4"
  by (simp add: resolve_def split: option.splits)

lemma fixup_Ok:
  assumes "fixup source destination continuation positions (field, goal) output = Ok output'"
  shows "field + 4 \<le> length output \<and>
    output' = splice_at output field (resolve source destination continuation positions goal (destination + field + 4)) \<and>
    lands source destination continuation positions goal (destination + field + 4)"
proof -
  have f: "List.find (\<lambda>position. fst position = nat goal - source) positions =
      List.find (\<lambda>position. int source + int (fst position) = goal) positions"
    if "int source \<le> goal"
    by (rule arg_cong [where f = "\<lambda>P. List.find P positions"]) (use that in \<open>auto simp: fun_eq_iff\<close>)
  show ?thesis
    using assms
    by (auto simp: fixup_def result_simps copy_from_slice_Ok lands_def resolve_def landing_def f
        add.assoc nat_le_iff split: if_splits)
qed

definition item_lands ::
  "usize \<Rightarrow> usize \<Rightarrow> usize \<Rightarrow> u8 list \<Rightarrow> (nat \<times> nat) list \<Rightarrow> item \<Rightarrow> bool" where
  "item_lands source destination continuation original positions it \<longleftrightarrow>
     (case it of (off, pos, ins) \<Rightarrow>
        (\<forall>goal. branch_goal source original off ins = Some goal \<longrightarrow>
           lands source destination continuation positions goal
             (destination + pos + length (branch_head original off ins) + 4)))"

lemma length_emit_resolve:
  "length (emit (resolve s d c positions) s d c original off pos ins) =
   length (emit blank s d c original off pos ins)"
  by (simp add: emit_def blank_def Let_def split: option.splits)

lemma fixups_Ok:
  assumes "fixups source destination continuation positions (item_branches source original its)
      (pre @ blocks blank source destination continuation original its) = Ok output"
    "placed source destination continuation original off (length pre) its"
  shows "output = pre @ blocks (resolve source destination continuation positions)
      source destination continuation original its \<and>
    (\<forall>it\<in>set its. item_lands source destination continuation original positions it)"
  using assms
proof (induction its arbitrary: pre off)
  case (Cons it its)
  obtain ins where it: "it = (off, length pre, ins)" using Cons.prems(2) by (cases it) auto
  let ?raw = "emit blank source destination continuation original off (length pre) ins"
  let ?fin = "emit (resolve source destination continuation positions)
      source destination continuation original off (length pre) ins"
  let ?rest = "blocks blank source destination continuation original its"
  have "fixups source destination continuation positions (item_branches source original its)
      ((pre @ ?fin) @ ?rest) = Ok output \<and>
    item_lands source destination continuation original positions it"
  proof (cases "branch_goal source original off ins")
    case None
    with Cons.prems(1) it show ?thesis by (simp add: emit_branches_def emit_def item_lands_def)
  next
    case (Some goal)
    let ?head = "branch_head original off ins"
    from Cons.prems(1) it Some obtain out1 where
      f: "fixup source destination continuation positions (length pre + length ?head, goal)
        (pre @ ?raw @ ?rest) = Ok out1"
      and r: "fixups source destination continuation positions (item_branches source original its) out1
        = Ok output"
      by (auto simp: emit_branches_def result_simps)
    have "out1 = pre @ ?fin @ ?rest"
      using fixup_Ok [OF f] Some
      by (simp add: emit_def blank_def Let_def splice_at_def add.assoc)
    with fixup_Ok [OF f] r Some it show ?thesis by (simp add: item_lands_def add.assoc)
  qed
  moreover have "placed source destination continuation original (off + ins_size ins)
      (length (pre @ ?fin)) its"
    using Cons.prems(2) it by (simp add: length_emit_resolve)
  ultimately show ?case using Cons.IH [of "pre @ ?fin" "off + ins_size ins"] it by simp
qed simp

lemma trampoline_Ok:
  assumes "trampoline source destination original = Ok out"
  obtains its body where
    "placed source destination (source + length original) original 0 4 its"
    "body = ENDBR64 @ blocks (resolve source destination (source + length original) (places its))
       source destination (source + length original) original its"
    "\<forall>it\<in>set its. item_lands source destination (source + length original) original (places its) it"
    "out = body @ [0xe9] @ i32_to_le (int (source + length original) - int (destination + length out))"
    "- 2147483648 \<le> int (source + length original) - int (destination + length out)"
    "int (source + length original) - int (destination + length out) < 2147483648"
    "source + length original \<le> usize_max" "destination + length out \<le> usize_max"
proof -
  let ?c = "source + length original"
  from assms obtain st body where
    c: "?c \<le> usize_max"
    and l: "trampoline_loop source destination ?c original 0
        \<lparr>tr_output = ENDBR64, tr_positions = [], tr_branches = []\<rparr> = Ok st"
    and f: "fixups source destination ?c (tr_positions st) (tr_branches st) (tr_output st) = Ok body"
    and o: "destination + length body + 5 \<le> usize_max"
      "out = body @ [0xe9] @ i32_to_le (int ?c - int (destination + length body + 5))"
      "- 2147483648 \<le> int ?c - int (destination + length body + 5)"
      "int ?c - int (destination + length body + 5) < 2147483648"
    by (auto simp: trampoline_def result_simps simp del: append_Cons split: if_splits option.splits)
  have four: "length ENDBR64 = 4" by (simp add: ENDBR64_def)
  from trampoline_loop_Ok [OF l] four obtain its where
    p: "placed source destination ?c original 0 4 its"
    and st: "tr_output st = ENDBR64 @ blocks blank source destination ?c original its"
      "tr_positions st = places its" "tr_branches st = item_branches source original its" by auto
  have "body = ENDBR64 @ blocks (resolve source destination ?c (places its))
      source destination ?c original its \<and>
    (\<forall>it\<in>set its. item_lands source destination ?c original (places its) it)"
    using fixups_Ok [OF f [unfolded st]] p four by simp
  moreover have "length out = length body + 5" using o(2) by simp
  ultimately show ?thesis using that [OF p] o c by (simp add: add.assoc)
qed

section \<open>What the moved code does\<close>

text \<open>A displacement field that was filled for the address \<open>t\<close> leads to \<open>t\<close>.\<close>

lemma displacement_reaches:
  assumes "stands_at mem a (i32_to_le (int t - int after))" "t \<le> usize_max"
    "- 2147483648 \<le> int t - int after" "int t - int after < 2147483648"
  shows "wrap64 (int after + i32_from_le (fetch mem a 4)) = t"
proof -
  have "fetch mem a 4 = i32_to_le (int t - int after)" using assms(1) by (rule stands_at_le) simp
  then have "i32_from_le (fetch mem a 4) = int t - int after" using assms(3,4) by (simp add: le_simps)
  with assms(2) show ?thesis by (simp add: wrap64_id)
qed

lemma block_stands:
  assumes "placed s d c original off pos its" "(o', p', ins) \<in> set its"
    "stands_at mem (d + pos) (blocks (resolve s d c positions) s d c original its)"
  shows "stands_at mem (d + p') (emit (resolve s d c positions) s d c original o' p' ins) \<and>
    decode (drop o' original) = Ok ins \<and> memory_in_reach s d original o' p' ins \<and>
    \<not> ins_cannot_move ins \<and> (ins_call ins \<noteq> None \<longrightarrow> o' + ins_size ins = length original) \<and>
    p' + length (emit (resolve s d c positions) s d c original o' p' ins) \<le>
      pos + length (blocks (resolve s d c positions) s d c original its)"
  using assms
proof (induction its arbitrary: off pos)
  case (Cons it its)
  from Cons.prems(1) obtain i where it: "it = (off, pos, i)" by (cases it) auto
  let ?e = "emit (resolve s d c positions) s d c original off pos i"
  have st: "stands_at mem (d + pos) ?e"
    "stands_at mem (d + (pos + length ?e)) (blocks (resolve s d c positions) s d c original its)"
    using Cons.prems(3) it by (simp_all add: stands_at_append add.assoc)
  show ?case
  proof (cases "(o', p', ins) = it")
    case True
    with st(1) it Cons.prems(1) show ?thesis by simp
  next
    case False
    with Cons.prems it have "(o', p', ins) \<in> set its"
      "placed s d c original (off + ins_size i) (pos + length ?e) its"
      by (auto simp: length_emit_resolve)
    from Cons.IH [OF this(2,1) st(2)] it show ?thesis by simp
  qed
qed simp

text \<open>
  The moved instruction does what the original did: its branch goes to the landing of the original
  goal, its RIP-relative operand is the same absolute address, a call pushes the return address of
  the original call, and everything else is copied as it was.
\<close>

definition branch_moved ::
  "usize \<Rightarrow> usize \<Rightarrow> u8 list \<Rightarrow> (nat \<times> nat) list \<Rightarrow> (usize \<Rightarrow> u8) \<Rightarrow> item \<Rightarrow> bool" where
  "branch_moved source destination original positions mem it \<longleftrightarrow>
     (case it of (off, pos, ins) \<Rightarrow>
        \<forall>goal. branch_goal source original off ins = Some goal \<longrightarrow>
          (let field = destination + pos + length (branch_head original off ins) in
           fetch mem (destination + pos) (length (branch_head original off ins)) = branch_head original off ins \<and>
           landing source destination (source + length original) positions goal =
             Some (wrap64 (int (field + 4) + i32_from_le (fetch mem field 4)))))"

definition memory_moved :: "usize \<Rightarrow> usize \<Rightarrow> u8 list \<Rightarrow> (usize \<Rightarrow> u8) \<Rightarrow> item \<Rightarrow> bool" where
  "memory_moved source destination original mem it \<longleftrightarrow>
     (case it of (off, pos, ins) \<Rightarrow>
        \<forall>d goal. ins_relative_memory ins = Some d \<longrightarrow> memory_goal source original off ins = Some goal \<longrightarrow>
          (let code = destination + pos + length (push_slot ins) in
           goal = int (wrap64 (int (code + ins_size ins) + i32_from_le (fetch mem (code + d) 4)))))"

definition call_moved :: "usize \<Rightarrow> usize \<Rightarrow> u8 list \<Rightarrow> (usize \<Rightarrow> u8) \<Rightarrow> item \<Rightarrow> bool" where
  "call_moved source destination original mem it \<longleftrightarrow>
     (case it of (off, pos, ins) \<Rightarrow> ins_call ins \<noteq> None \<longrightarrow>
        fetch mem (destination + pos) 2 = [0xff, 0x35] \<and>
        le_value (fetch mem (wrap64 (int (destination + pos + 6) +
            i32_from_le (fetch mem (destination + pos + 2) 4))) 8) = source + off + ins_size ins)"

definition plain_moved :: "usize \<Rightarrow> u8 list \<Rightarrow> (usize \<Rightarrow> u8) \<Rightarrow> item \<Rightarrow> bool" where
  "plain_moved destination original mem it \<longleftrightarrow>
     (case it of (off, pos, ins) \<Rightarrow>
        ins_branch ins = None \<longrightarrow> ins_call ins = None \<longrightarrow> ins_relative_memory ins = None \<longrightarrow>
        fetch mem (destination + pos) (ins_size ins) = take (ins_size ins) (drop off original))"

lemma branch_moved_emit:
  assumes "stands_at mem (d + pos) (emit (resolve s d (s + length original) positions) s d
      (s + length original) original off pos ins)"
    "item_lands s d (s + length original) original positions (off, pos, ins)"
  shows "branch_moved s d original positions mem (off, pos, ins)"
  unfolding branch_moved_def prod.case Let_def
proof (intro allI impI)
  fix goal
  assume g: "branch_goal s original off ins = Some goal"
  let ?h = "branch_head original off ins"
  from g assms(2) obtain t where t: "landing s d (s + length original) positions goal = Some t"
    "t \<le> usize_max" "- 2147483648 \<le> int t - int (d + pos + length ?h + 4)"
    "int t - int (d + pos + length ?h + 4) < 2147483648"
    by (auto simp: item_lands_def lands_def split: option.splits)
  from assms(1) g t(1) have st: "stands_at mem (d + pos) ?h"
    "stands_at mem (d + pos + length ?h) (i32_to_le (int t - int (d + pos + length ?h + 4)))"
    by (simp_all add: emit_def Let_def stands_at_append resolve_def)
  from displacement_reaches [OF st(2) t(2-4)] st(1) t(1)
  show "fetch mem (d + pos) (length ?h) = ?h \<and>
      landing s d (s + length original) positions goal =
      Some (wrap64 (int (d + pos + length ?h + 4) + i32_from_le (fetch mem (d + pos + length ?h) 4)))"
    by (simp add: stands_at_def)
qed

lemma stands_at_splice:
  assumes "stands_at mem a (splice_at xs i ys)" "i + length ys \<le> length xs"
  shows "stands_at mem (a + i) ys"
  using assms by (simp add: splice_at_def stands_at_append)

lemma no_branch_goal:
  "instruction_ok bytes ins \<Longrightarrow> ins_relative_memory ins \<noteq> None \<Longrightarrow> branch_goal s original off ins = None"
  by (auto simp: branch_goal_def instruction_ok_def split: option.splits call_kind.splits)

lemma memory_moved_emit:
  assumes st: "stands_at mem (d + pos) (emit fill s d c original off pos ins)"
    and ok: "instruction_ok (drop off original) ins"
    and reach: "memory_in_reach s d original off pos ins"
  shows "memory_moved s d original mem (off, pos, ins)"
  unfolding memory_moved_def prod.case Let_def
proof (intro allI impI)
  fix disp goal
  assume r: "ins_relative_memory ins = Some disp" and g: "memory_goal s original off ins = Some goal"
  let ?code = "d + pos + length (push_slot ins)"
  from reach g have range: "0 \<le> goal" "goal \<le> int usize_max"
    "- 2147483648 \<le> goal - int (?code + ins_size ins)" "goal - int (?code + ins_size ins) < 2147483648"
    by (simp_all add: memory_in_reach_def Let_def)
  have "stands_at mem ?code (moved_code s d original off (pos + length (push_slot ins)) ins)"
    using st no_branch_goal [OF ok, of s original off] r by (simp add: emit_def stands_at_append)
  moreover have "disp + 4 \<le> ins_size ins" "ins_size ins \<le> length (drop off original)"
    using ok r by (auto simp: instruction_ok_def)
  ultimately have "stands_at mem (?code + disp) (i32_to_le (int (nat goal) - int (?code + ins_size ins)))"
    using r g range(1)
    by (intro stands_at_splice [of mem ?code "case ins_call ins of
          Some (Indirect m) \<Rightarrow> (take (ins_size ins) (drop off original))
            [m := (take (ins_size ins) (drop off original) ! m AND NOT 0x38) OR 0x20]
        | _ \<Rightarrow> take (ins_size ins) (drop off original)"])
      (auto simp: moved_code_def Let_def add.assoc split: option.splits call_kind.splits)
  from displacement_reaches [OF this] range
  show "goal = int (wrap64 (int (?code + ins_size ins) + i32_from_le (fetch mem (?code + disp) 4)))"
    by simp
qed

lemma plain_moved_emit:
  assumes "stands_at mem (d + pos) (emit fill s d c original off pos ins)"
    "instruction_ok (drop off original) ins"
  shows "plain_moved d original mem (off, pos, ins)"
  using assms
  by (auto simp: plain_moved_def emit_def branch_goal_def push_slot_def moved_code_def
      return_slot_def stands_at_def instruction_ok_def min_def split: if_splits)

text \<open>The quadword behind a call block is the one its push reads.\<close>

lemma pushed_quadword:
  assumes "stands_at mem a ([0xff, 0x35] @ i32_to_le (int n) @ code @ u64_to_le r)"
    "length code = n" "n \<le> 15" "r \<le> usize_max" "a + 6 + n \<le> usize_max"
  shows "fetch mem a 2 = [0xff, 0x35] \<and>
    le_value (fetch mem (wrap64 (int (a + 6) + i32_from_le (fetch mem (a + 2) 4))) 8) = r"
proof -
  have st: "stands_at mem a [0xff, 0x35]" "stands_at mem (a + 2) (i32_to_le (int n))"
    "stands_at mem (a + 6 + n) (u64_to_le r)"
    using assms(1,2) by (simp_all only: stands_at_append) (simp_all add: ac_simps)
  have "fetch mem (a + 6 + n) 8 = u64_to_le r" using st(3) by (rule stands_at_le) simp
  moreover have "wrap64 (int (a + 6) + i32_from_le (fetch mem (a + 2) 4)) = a + 6 + n"
    by (rule displacement_reaches) (use st(2) assms(3,5) in auto)
  moreover have "fetch mem a 2 = [0xff, 0x35]" using st(1) by (rule stands_at_le) simp
  ultimately show ?thesis using assms(4) by (simp add: le_simps)
qed

lemma call_moved_emit:
  assumes st: "stands_at mem (d + pos) (emit (resolve s d c positions) s d c original off pos ins)"
    and ok: "instruction_ok (drop off original) ins"
    and fits: "d + pos + length (emit (resolve s d c positions) s d c original off pos ins) \<le> usize_max"
    and c: "c = s + length original" "c \<le> usize_max"
    and last: "ins_call ins \<noteq> None \<longrightarrow> off + ins_size ins = length original"
  shows "call_moved s d original mem (off, pos, ins)"
proof (cases "ins_call ins")
  case (Some k)
  from ok Some have b: "ins_branch ins = None" by (auto simp: instruction_ok_def)
  have "\<exists>code. emit (resolve s d c positions) s d c original off pos ins =
      [0xff, 0x35] @ i32_to_le (int (length code)) @ code @ u64_to_le c \<and> length code \<le> 15"
  proof (cases k)
    case (Direct x)
    obtain goal where "branch_goal s original off ins = Some goal"
      using Some Direct b by (simp add: branch_goal_def)
    then show ?thesis
      using Some Direct b
      by (intro exI [of _ "0xe9 # resolve s d c positions goal (d + pos + 7 + 4)"])
        (simp add: emit_def branch_head_def return_slot_def Let_def)
  next
    case (Indirect m)
    let ?code = "moved_code s d original off (pos + length (push_slot ins)) ins"
    have "length ?code = ins_size ins"
      using ok by (auto simp: moved_code_def Let_def instruction_ok_def split: option.splits call_kind.splits)
    with Some Indirect b ok show ?thesis
      by (intro exI [of _ ?code])
        (simp add: emit_def branch_goal_def push_slot_def return_slot_def instruction_ok_def)
  qed
  then obtain code where e: "emit (resolve s d c positions) s d c original off pos ins =
      [0xff, 0x35] @ i32_to_le (int (length code)) @ code @ u64_to_le c" "length code \<le> 15" by blast
  from pushed_quadword [OF st [unfolded e(1)] refl e(2) c(2)] fits e(1) last Some c(1)
  show ?thesis by (simp add: call_moved_def add.assoc)
qed (simp add: call_moved_def)

section \<open>Building a trampoline never panics\<close>

lemma returns_read_i32: "i + 4 \<le> length bytes \<Longrightarrow> returns (read_i32 bytes i)"
  by (simp add: read_i32_def subslice_def)

lemma returns_read_i8: "i < length bytes \<Longrightarrow> returns (read_i8 bytes i)"
  by (simp add: read_i8_def index_at_def)

lemma copy_instruction_returns:
  assumes ok: "instruction_ok (drop off original) ins"
  shows "returns (copy_instruction source original off ins output)"
proof (cases "ins_branch ins")
  case (Some b)
  with ok have "off + br_displacement b + br_width b \<le> length original"
    "br_width b = 1 \<or> br_width b = 4"
    "(if br_width b = 4 \<and> br_condition b \<noteq> None then 2 else 1) \<le> br_displacement b"
    by (auto simp: instruction_ok_def)
  with Some show ?thesis
    by (auto simp: copy_instruction_def Let_def result_simps branch_prefix_def usize_sub_def
        subslice_def returns_read_i32 returns_read_i8 split: if_splits)
next
  case None
  with ok show ?thesis
    by (auto simp: copy_instruction_def Let_def result_simps subslice_def index_at_def
        instruction_ok_def returns_read_i32 split: option.splits call_kind.splits)
qed

lemma relocate_memory_returns:
  assumes ok: "instruction_ok (drop off original) ins"
    and "ins_relative_memory ins \<noteq> None \<Longrightarrow> copied_start + ins_size ins \<le> length output"
  shows "returns (relocate_memory source destination original off ins copied_start output)"
proof (cases "ins_relative_memory ins")
  case (Some d)
  with ok have "off + d + 4 \<le> length original" "d + 4 \<le> ins_size ins"
    by (auto simp: instruction_ok_def)
  with Some assms(2) show ?thesis
    by (auto simp: relocate_memory_def result_simps Let_def copy_from_slice_def returns_read_i32)
qed (simp add: relocate_memory_def)

lemma relocate_memory_length:
  "relocate_memory source destination original off ins copied_start output = Ok output' \<Longrightarrow>
   length output' = length output"
  by (auto simp: relocate_memory_def result_simps Let_def copy_from_slice_Ok split: option.splits if_splits)

lemma copy_instruction_length:
  assumes "copy_instruction source original off ins output = Ok (output', new)"
    and ok: "instruction_ok (drop off original) ins"
  shows "length output \<le> length output' \<and>
    (ins_relative_memory ins \<noteq> None \<longrightarrow> length output + ins_size ins \<le> length output')"
proof (cases "branch_goal source original off ins")
  case None
  with copy_instruction_Ok [OF assms] ok show ?thesis
    by (auto simp: instruction_ok_def split: option.splits call_kind.splits)
next
  case (Some goal)
  with copy_instruction_Ok [OF assms] no_branch_goal [OF ok, of source original off] show ?thesis
    by (auto simp: Let_def)
qed

lemma push_return_returns:
  "ins_call ins = None \<or> start + 6 \<le> length code \<Longrightarrow> returns (push_return continuation ins start code)"
  by (auto simp: push_return_def result_simps usize_sub_def copy_from_slice_def)

lemma trampoline_step_returns:
  assumes "off \<le> length original"
  shows "returns (trampoline_step source destination continuation original off st)"
  using assms unfolding trampoline_step_def
  by (intro returns_bindI returns_ifI returns_LetI returns_prodI)
    (auto simp: slice_from_def dest!: decode_ok copy_instruction_length relocate_memory_length
      intro!: copy_instruction_returns relocate_memory_returns push_return_returns split: if_splits)

lemma trampoline_loop_returns:
  assumes "off \<le> length original"
  shows "returns (trampoline_loop source destination continuation original off st)"
  using assms
proof (induction source destination continuation original off st rule: trampoline_loop.induct)
  case (1 source destination continuation original off st)
  have "e \<le> length original"
    if "trampoline_step source destination continuation original off st = Ok (e, st')" for e st'
    using that "1.prems" by (rule trampoline_step_Ok) (use decode_size in auto)
  with 1 show ?case
    by (subst trampoline_loop.simps)
      (auto intro!: returns_bindI returns_prodI returns_ifI trampoline_step_returns)
qed

text \<open>Every recorded branch field is inside the output, so the second loop stays in range too.\<close>

lemma fixup_returns:
  "field + 4 \<le> length code \<Longrightarrow> returns (fixup source destination continuation positions (field, goal) code)"
  by (auto simp: fixup_def result_simps copy_from_slice_def)

lemma fixups_returns:
  "\<forall>br\<in>set brs. fst br + 4 \<le> length code \<Longrightarrow>
   returns (fixups source destination continuation positions brs code)"
proof (induction brs arbitrary: code)
  case (Cons br brs)
  obtain field goal where br: "br = (field, goal)" by (cases br)
  have "length code' = length code"
    if "fixup source destination continuation positions br code = Ok code'" for code'
    using fixup_Ok [OF that [unfolded br]] by simp
  with Cons br show ?case by (auto intro!: returns_bindI fixup_returns)
qed simp

lemma item_branches_in_range:
  assumes "placed s d c original off pos its" "br \<in> set (item_branches s original its)"
  shows "fst br + 4 \<le> pos + length (blocks blank s d c original its)"
  using assms
proof (induction its arbitrary: off pos)
  case (Cons it its)
  obtain ins where it: "it = (off, pos, ins)" using Cons.prems(1) by (cases it) auto
  let ?e = "emit blank s d c original off pos ins"
  have "fst br + 4 \<le> pos + length ?e" if "br \<in> set (emit_branches s original off pos ins)"
    using that by (auto simp: emit_branches_def emit_def blank_def Let_def split: option.splits)
  with Cons it show ?case by fastforce
qed simp

lemma trampoline_returns: "returns (trampoline source destination original)"
proof -
  have "returns (fixups source destination c (tr_positions st) (tr_branches st) (tr_output st))"
    if "trampoline_loop source destination c original 0
      \<lparr>tr_output = ENDBR64, tr_positions = [], tr_branches = []\<rparr> = Ok st" for c st
    using trampoline_loop_Ok [OF that] by (auto intro!: fixups_returns dest: item_branches_in_range)
  then show ?thesis
    unfolding trampoline_def
    by (intro returns_ifI returns_bindI) (auto simp: trampoline_loop_returns)
qed

lemma call_bridge_loop_returns: "returns (call_bridge_loop original off)"
proof (induction original off rule: call_bridge_loop.induct)
  case (1 original off)
  then show ?case
    by (subst call_bridge_loop.simps) (auto simp: slice_from_def intro!: returns_bindI)
qed

text \<open>\<open>needs_call_bridge\<close> finds a call exactly when one is decoded.\<close>

lemma call_bridge_loop_Ok:
  assumes "call_bridge_loop original off = Ok v" "decoded original off inss"
    "\<forall>i\<in>set inss. ins_call i = None"
  shows "\<exists>n inss'. decoded original n inss' \<and> (if v then \<exists>i\<in>set inss'. ins_call i \<noteq> None
      else n = length original \<and> (\<forall>i\<in>set inss'. ins_call i = None))"
  using assms
proof (induction original off arbitrary: inss rule: call_bridge_loop.induct)
  case (1 original off)
  show ?case
  proof (cases "off < length original")
    case False
    with decoded_le [OF "1.prems"(2)] have "off = length original" by simp
    with "1.prems" show ?thesis by (subst (asm) call_bridge_loop.simps) auto
  next
    case True
    with "1.prems"(1) obtain ins where d: "decode (drop off original) = Ok ins"
      and v: "if ins_call ins \<noteq> None then v else call_bridge_loop original (off + ins_size ins) = Ok v"
      by (subst (asm) call_bridge_loop.simps) (auto simp: result_simps slice_from_def split: if_splits)
    have b: "decoded original (off + ins_size ins) (inss @ [ins])"
      using "1.prems"(2) d by (rule decoded.Insn)
    show ?thesis
    proof (cases "ins_call ins = None")
      case False
      with v b show ?thesis by (intro exI [of _ "off + ins_size ins"] exI [of _ "inss @ [ins]"]) auto
    next
      case none: True
      have s: "slice_from original off = Ok (drop off original)" using True by (simp add: slice_from_def)
      from "1.IH" [OF True s d _ _ b] none v "1.prems"(3) show ?thesis by simp
    qed
  qed
qed

text \<open>Every item of a layout whose blocks stand in memory does what its instruction did.\<close>

lemma item_moved:
  assumes p: "placed source destination c original 0 4 its" and c: "c = source + length original" "c \<le> usize_max"
    and lands: "\<forall>it\<in>set its. item_lands source destination c original (places its) it"
    and blk: "stands_at mem (destination + 4) (blocks (resolve source destination c (places its)) source destination c original its)"
    and max: "destination + 4 + length (blocks (resolve source destination c (places its)) source destination c original its) \<le> usize_max"
    and it: "(off, pos, ins) \<in> set its"
  shows "branch_moved source destination original (places its) mem (off, pos, ins) \<and>
      memory_moved source destination original mem (off, pos, ins) \<and>
      call_moved source destination original mem (off, pos, ins) \<and> plain_moved destination original mem (off, pos, ins)"
proof -
  note b = block_stands [OF p it blk]
  have ok: "instruction_ok (drop off original) ins" using b decode_ok by blast
  have fits: "destination + pos + length (emit (resolve source destination c (places its))
      source destination c original off pos ins) \<le> usize_max"
    using b max by simp
  show ?thesis
    using b ok lands it c fits
    by (intro conjI branch_moved_emit memory_moved_emit call_moved_emit plain_moved_emit) auto
qed

section \<open>Properties\<close>


definition sample_prefix :: "u8 list" where
  "sample_prefix = [0x48, 0x8b, 0x05, 0x10, 0, 0, 0, 0x75, 0xf7]"

definition sample_trampoline :: "u8 list" where
  "sample_trampoline = [0xf3, 0x0f, 0x1e, 0xfa, 0x48, 0x8b, 0x05, 0x0c, 0xf0, 0xff, 0xff,
     0x0f, 0x85, 0xf3, 0xff, 0xff, 0xff, 0xe9, 0xf3, 0xef, 0xff, 0xff]"

lemma sample_lengths: "length sample_prefix = 9" "length sample_trampoline = 22"
  by (simp_all add: sample_prefix_def sample_trampoline_def)

lemma sample_decodes:
  "decode [0x48, 0x8b, 0x05, 0x10, 0, 0, 0, 0x75, 0xf7] = Ok \<lparr>ins_size = 7, ins_terminal = False,
     ins_relative_memory = Some 3, ins_cannot_move = False, ins_branch = None, ins_call = None\<rparr>"
  "decode [0x75, 0xf7] = Ok \<lparr>ins_size = 2, ins_terminal = False,
     ins_relative_memory = None, ins_cannot_move = False,
     ins_branch = Some \<lparr>br_displacement = 1, br_width = 1, br_condition = Some 5\<rparr>, ins_call = None\<rparr>"
  by code_simp+

lemma sample_trampoline_computed: "trampoline 4096 8192 sample_prefix = Ok sample_trampoline"
  by (simp add: trampoline_def sample_prefix_def sample_trampoline_def trampoline_loop.simps
      trampoline_step_def slice_defs sample_decodes Let_def copy_instruction_def relocate_memory_def
      read_i32_def read_i8_def i32_from_le_def i8_of_def branch_prefix_def branch_opcode_def usize_sub_def
      push_return_def checked_add_def usize_defs i32_try_from_def i32_to_le_def le_bytes_numeral
      splice_at_def fixup_def usize_try_from_def ENDBR64_def)

definition sample_code_at :: "u8 list \<Rightarrow> usize \<Rightarrow> usize \<Rightarrow> u8" where
  "sample_code_at code base a = (if base \<le> a \<and> a - base < length code then code ! (a - base) else 0)"

lemma sample_code_stands: "stands_at (sample_code_at code base) base code"
  by (auto simp: stands_at_def fetch_def sample_code_at_def intro: nth_equalityI)


lemma needs_call_bridge_returns: "returns (needs_call_bridge original)"
  by (simp add: needs_call_bridge_def call_bridge_loop_returns)

lemma needs_call_bridge_Ok:
  "needs_call_bridge original = Ok v \<Longrightarrow> \<exists>n inss. decoded original n inss \<and>
     (if v then \<exists>i\<in>set inss. ins_call i \<noteq> None
      else n = length original \<and> (\<forall>i\<in>set inss. ins_call i = None))"
  using call_bridge_loop_Ok [OF _ decoded.Entry] by (simp add: needs_call_bridge_def)

lemma sample_prefix_bridge: "needs_call_bridge sample_prefix = Ok False"
  by (simp add: needs_call_bridge_def sample_prefix_def call_bridge_loop.simps slice_from_def sample_decodes)

end
