(* ===== verification/Arm64_Code.thy ===== *)
theory Arm64_Code
  imports X86_Code
begin

text \<open>
  Entry patches and trampolines for ARM64 (src/code/arm64.rs). Instructions are 32-bit words, as
  in the code, which takes them apart with shifts and masks; addresses are \<^verbatim>\<open>usize\<close>. Names that
  the x86-64 module has too carry the prefix \<open>arm_\<close>; the plan is the same record.
\<close>

section \<open>Words and addresses\<close>

definition NOP :: u32 where "NOP = 0xd503201f"

definition BTI :: u32 where "BTI = 0xd503245f"

definition aligned :: "usize \<Rightarrow> unit result" where
  "aligned address =
     (if address = 0 then Err InvalidAddress else if address mod 4 \<noteq> 0 then Err InvalidRange else Ok ())"

definition arm_word :: "u8 list \<Rightarrow> u32 result" where
  "arm_word bytes =
     (if length bytes < 4 then Err InsufficientSpace else Ok (u32_from_le (take 4 bytes)))"

definition emit_word :: "u8 list \<Rightarrow> u32 \<Rightarrow> u8 list" where
  "emit_word bytes instruction = bytes @ u32_to_le instruction"

text \<open>
  \<^verbatim>\<open>delta / 4\<close> rounds towards zero in Rust; a \<open>delta\<close> that is no multiple of 4 is rejected, so the
  rounding never shows.
\<close>

definition relative :: "usize \<Rightarrow> usize \<Rightarrow> nat \<Rightarrow> u32 result" where
  "relative source target bits =
     (let delta = int target - int source; value = delta div 4 in
      if delta mod 4 \<noteq> 0 \<or> value < - (2 ^ (bits - 1)) \<or> 2 ^ (bits - 1) \<le> value then Err InvalidRange
      else Ok (word_of_int value AND mask bits))"

definition signed_field :: "u32 \<Rightarrow> nat \<Rightarrow> int" where
  "signed_field value bits = sint (signed_drop_bit (32 - bits) (push_bit (32 - bits) value))"

definition add_signed :: "usize \<Rightarrow> int \<Rightarrow> usize result" where
  "add_signed address delta = ok_or (usize_try_from (int address + delta)) InvalidRange"

definition constant_word :: "u32 \<Rightarrow> usize \<Rightarrow> nat \<Rightarrow> u32" where
  "constant_word register value half =
     (if half = 0 then 0xd2800000 else 0xf2800000) OR push_bit 21 (word_of_nat half) OR
     push_bit 5 (word_of_nat (value div 2 ^ (half * 16)) AND 0xffff) OR register"

definition emit_constant :: "u8 list \<Rightarrow> u32 \<Rightarrow> usize \<Rightarrow> u8 list" where
  "emit_constant bytes register value = fold (\<lambda>half bs. emit_word bs (constant_word register value half)) [0..<4] bytes"

section \<open>Jumps and plans\<close>

definition arm_jump :: "usize \<Rightarrow> usize \<Rightarrow> u8 list result" where
  "arm_jump source target =
     and_then (aligned source) (\<lambda>_.
     and_then (aligned target) (\<lambda>_.
       case relative source target 26 of
         Ok delta \<Rightarrow> Ok (emit_word [] (0x14000000 OR delta))
       | _ \<Rightarrow> Ok (emit_word (emit_word [] 0x58000050) 0xd61f0200 @ u64_to_le target)))"

definition valid_word :: "u32 \<Rightarrow> bool" where
  "valid_word instruction \<longleftrightarrow>
     drop_bit 25 instruction AND 15 \<notin> {0, 1, 3} \<and> instruction \<noteq> 0xffffffff"

definition terminal_word :: "u32 \<Rightarrow> bool" where
  "terminal_word instruction \<longleftrightarrow>
     instruction AND 0xfc000000 = 0x14000000 \<or> instruction AND 0xfe000000 = 0xd6000000 \<or>
     instruction AND 0xffe0001f = 0xd4200000"

text \<open>\<^verbatim>\<open>chunks_exact(4)\<close>, and the loop of \<^verbatim>\<open>plan\<close> over them.\<close>

fun chunks4 :: "u8 list \<Rightarrow> u8 list list" where
  "chunks4 (a # b # c # d # rest) = [a, b, c, d] # chunks4 rest"
| "chunks4 rest = []"

fun check_prefix :: "nat \<Rightarrow> nat \<Rightarrow> u8 list list \<Rightarrow> unit result" where
  "check_prefix prefix_len index [] = Ok ()"
| "check_prefix prefix_len index (bytes # rest) =
     and_then (arm_word bytes) (\<lambda>instruction.
       if \<not> valid_word instruction then Err InvalidInstruction
       else if terminal_word instruction \<and> (index + 1) * 4 < prefix_len then Err InsufficientSpace
       else check_prefix prefix_len (index + 1) rest)"

definition arm_plan :: "usize \<Rightarrow> usize \<Rightarrow> u8 list \<Rightarrow> plan result" where
  "arm_plan source target bytes =
     and_then (aligned source) (\<lambda>_.
     and_then (aligned target) (\<lambda>_.
       if source = target then Err SameAddress
       else
         and_then (arm_word bytes) (\<lambda>first.
         let offset = (if first AND 0xffffff1f = 0xd503241f then 4 else 0) in
         and_then (ok_or (checked_add source offset) InvalidRange) (\<lambda>address.
         and_then (arm_jump address target) (\<lambda>replacement.
           if length bytes < offset + length replacement then Err InsufficientSpace
           else
             let prefix = take (length replacement) (drop offset bytes) in
             and_then (check_prefix (length prefix) 0 (chunks4 prefix)) (\<lambda>_.
               Ok \<lparr>plan_offset = offset, plan_original = prefix, plan_replacement = replacement\<rparr>))))))"

section \<open>Trampolines\<close>

text \<open>
  \<open>arm_move\<close> is the body of the loop over the displaced instructions, one branch of the code
  after the other: immediate branches and calls, conditional branches, addresses relative to the
  program counter, literal loads, indirect calls, and everything that is copied as it is.
\<close>

record arm_tramp =
  at_output :: "u8 list"
  at_positions :: "(nat \<times> nat) list"
  at_branches :: "(nat \<times> usize) list"

definition is_conditional :: "u32 \<Rightarrow> bool" where
  "is_conditional w \<longleftrightarrow> w AND 0xff000010 = 0x54000000"

definition is_compare_branch :: "u32 \<Rightarrow> bool" where
  "is_compare_branch w \<longleftrightarrow> w AND 0x7e000000 = 0x34000000"

definition is_test_branch :: "u32 \<Rightarrow> bool" where
  "is_test_branch w \<longleftrightarrow> w AND 0x7e000000 = 0x36000000"

definition emit_branch :: "u8 list \<Rightarrow> usize \<Rightarrow> arm_tramp \<Rightarrow> arm_tramp" where
  "emit_branch out target tr =
     tr\<lparr>at_branches := at_branches tr @ [(length out, target)], at_output := emit_word out 0x14000000\<rparr>"

definition move_immediate_branch ::
  "usize \<Rightarrow> nat \<Rightarrow> nat \<Rightarrow> usize \<Rightarrow> u32 \<Rightarrow> arm_tramp \<Rightarrow> arm_tramp result" where
  "move_immediate_branch continuation prefix_len offset pc w tr =
     and_then (add_signed pc (signed_field (w AND 0x03ffffff) 26 * 4)) (\<lambda>target.
       if w AND 0x80000000 \<noteq> 0
       then if offset + 4 \<noteq> prefix_len then Err InvalidInstruction
            else Ok (emit_branch (emit_constant (at_output tr) 30 continuation) target tr)
       else Ok (emit_branch (at_output tr) target tr))"

definition move_conditional_branch :: "usize \<Rightarrow> u32 \<Rightarrow> arm_tramp \<Rightarrow> arm_tramp result" where
  "move_conditional_branch pc w tr =
     (let bits = (if is_test_branch w then 14 else 19);
          field = push_bit 5 (push_bit bits 1 - 1) in
      and_then (add_signed pc (signed_field (drop_bit 5 (w AND field)) bits * 4)) (\<lambda>target.
        let out =
          (if is_conditional w
           then if w AND 15 < 14
                then emit_word (at_output tr) (((w AND NOT field) XOR 1) OR push_bit 5 2)
                else at_output tr
           else emit_word (at_output tr) (((w AND NOT field) XOR push_bit 24 1) OR push_bit 5 2))
        in Ok (emit_branch out target tr)))"

definition move_address :: "usize \<Rightarrow> u32 \<Rightarrow> arm_tramp \<Rightarrow> arm_tramp result" where
  "move_address pc w tr =
     (let immediate = push_bit 2 (drop_bit 5 w AND 0x7ffff) OR (drop_bit 29 w AND 3);
          delta = signed_field immediate 21 in
      and_then (if w AND 0x80000000 \<noteq> 0 then add_signed (pc div 4096 * 4096) (delta * 4096)
                else add_signed pc delta) (\<lambda>target.
        Ok (tr\<lparr>at_output := emit_constant (at_output tr) (w AND 31) target\<rparr>)))"

definition move_literal :: "usize \<Rightarrow> usize \<Rightarrow> u32 \<Rightarrow> arm_tramp \<Rightarrow> arm_tramp result" where
  "move_literal destination pc w tr =
     and_then (add_signed pc (signed_field (drop_bit 5 w AND 0x7ffff) 19 * 4)) (\<lambda>target.
     and_then (ok_or (checked_add destination (length (at_output tr))) InvalidRange) (\<lambda>after.
       case relative after target 19 of
         Ok delta \<Rightarrow> Ok (tr\<lparr>at_output := emit_word (at_output tr) ((w AND NOT 0x00ffffe0) OR push_bit 5 delta)\<rparr>)
       | _ \<Rightarrow>
           let register = w AND 31; operation = unat (drop_bit 30 w) in
           if w AND push_bit 26 1 \<noteq> 0 \<or> register = 31 then Err InvalidRange
           else if operation = 3 then Ok (tr\<lparr>at_output := emit_word (at_output tr) NOP\<rparr>)
           else
             and_then (index_at [0xb9400000, 0xf9400000, 0xb9800000] operation) (\<lambda>opcode.
               Ok (tr\<lparr>at_output := emit_word (emit_constant (at_output tr) register target)
                     (opcode OR push_bit 5 register OR register)\<rparr>))))"

definition move_indirect_call :: "usize \<Rightarrow> nat \<Rightarrow> nat \<Rightarrow> u32 \<Rightarrow> arm_tramp \<Rightarrow> arm_tramp result" where
  "move_indirect_call continuation prefix_len offset w tr =
     (if offset + 4 \<noteq> prefix_len \<or> drop_bit 5 w AND 31 = 30 then Err InvalidInstruction
      else Ok (tr\<lparr>at_output := emit_word (emit_constant (at_output tr) 30 continuation)
                   (w AND NOT (push_bit 21 1))\<rparr>))"

definition move_plain :: "u32 \<Rightarrow> arm_tramp \<Rightarrow> arm_tramp result" where
  "move_plain w tr =
     (if w AND 0xff000000 = 0x54000000 then Err InvalidInstruction
      else if w AND 0xfe000000 = 0xd6000000 \<and> w AND 0xfffffc1f \<noteq> 0xd61f0000 \<and>
              w AND 0xfffffc1f \<noteq> 0xd65f0000 \<and> w \<notin> {0xd65f0bff, 0xd65f0fff}
      then Err InvalidInstruction
      else Ok (tr\<lparr>at_output := emit_word (at_output tr) w\<rparr>))"

definition arm_move ::
  "usize \<Rightarrow> usize \<Rightarrow> usize \<Rightarrow> nat \<Rightarrow> nat \<Rightarrow> u32 \<Rightarrow> arm_tramp \<Rightarrow> arm_tramp result" where
  "arm_move source destination continuation prefix_len offset w tr0 =
     (if \<not> valid_word w then Err InvalidInstruction
      else
        let pc = source + offset;
            tr = tr0\<lparr>at_positions := at_positions tr0 @ [(offset, length (at_output tr0))]\<rparr> in
        if w AND 0x7c000000 = 0x14000000 then move_immediate_branch continuation prefix_len offset pc w tr
        else if is_conditional w \<or> is_compare_branch w \<or> is_test_branch w then move_conditional_branch pc w tr
        else if w AND 0x1f000000 = 0x10000000 then move_address pc w tr
        else if w AND 0x3b000000 = 0x18000000 then move_literal destination pc w tr
        else if w AND 0xfffffc1f = 0xd63f0000 then move_indirect_call continuation prefix_len offset w tr
        else move_plain w tr)"

fun arm_loop ::
  "usize \<Rightarrow> usize \<Rightarrow> usize \<Rightarrow> nat \<Rightarrow> nat \<Rightarrow> u8 list list \<Rightarrow> arm_tramp \<Rightarrow> arm_tramp result" where
  "arm_loop source destination continuation prefix_len index [] tr = Ok tr"
| "arm_loop source destination continuation prefix_len index (bytes # rest) tr =
     and_then (arm_word bytes) (\<lambda>w.
     and_then (arm_move source destination continuation prefix_len (index * 4) w tr) (\<lambda>tr'.
       arm_loop source destination continuation prefix_len (index + 1) rest tr'))"

definition arm_fixup ::
  "usize \<Rightarrow> usize \<Rightarrow> usize \<Rightarrow> (nat \<times> nat) list \<Rightarrow> nat \<times> usize \<Rightarrow> u8 list \<Rightarrow> u8 list result" where
  "arm_fixup source destination continuation positions br out =
     (let (field, target0) = br in
      and_then (if source \<le> target0 \<and> target0 < continuation
                then and_then (ok_or (List.find (\<lambda>entry. fst entry = target0 - source) positions)
                                 InvalidInstruction) (\<lambda>position.
                     ok_or (checked_add destination (snd position)) InvalidRange)
                else Ok target0) (\<lambda>target.
      and_then (ok_or (checked_add destination field) InvalidRange) (\<lambda>pc.
      and_then (relative pc target 26) (\<lambda>delta.
        copy_from_slice out field (u32_to_le (0x14000000 OR delta))))))"

primrec arm_fixups ::
  "usize \<Rightarrow> usize \<Rightarrow> usize \<Rightarrow> (nat \<times> nat) list \<Rightarrow> (nat \<times> usize) list \<Rightarrow> u8 list \<Rightarrow> u8 list result" where
  "arm_fixups source destination continuation positions [] out = Ok out"
| "arm_fixups source destination continuation positions (br # brs) out =
     and_then (arm_fixup source destination continuation positions br out) (\<lambda>out'.
       arm_fixups source destination continuation positions brs out')"

definition arm_trampoline :: "usize \<Rightarrow> usize \<Rightarrow> u8 list \<Rightarrow> u8 list result" where
  "arm_trampoline source destination original =
     and_then (aligned source) (\<lambda>_.
     and_then (aligned destination) (\<lambda>_.
       if original = [] \<or> length original mod 4 \<noteq> 0 then Err InvalidRange
       else
         and_then (ok_or (checked_add source (length original)) InvalidRange) (\<lambda>continuation.
         and_then (arm_loop source destination continuation (length original) 0 (chunks4 original)
            \<lparr>at_output = u32_to_le BTI, at_positions = [], at_branches = []\<rparr>) (\<lambda>tr.
         and_then (arm_fixups source destination continuation (at_positions tr) (at_branches tr) (at_output tr))
           (\<lambda>out.
         and_then (ok_or (checked_add destination (length out)) InvalidRange) (\<lambda>after.
         and_then (arm_jump after continuation) (\<lambda>tail. Ok (out @ tail))))))))"

end
