(* ===== verification/Arm64_Machine.thy ===== *)
theory Arm64_Machine
  imports Arm64_Code
begin

text \<open>
  A reference semantics of the A64 instructions that the patcher emits or rewrites, written from
  the architecture's encoding tables and independent of src/code/arm64.rs, and what the emitted
  jumps, constants and branches do on it. Every other instruction is a parameter: \<open>other\<close> gives its
  effect on the processor and, for a register branch, the address it goes to. It does not see the
  program counter, which holds of the base instruction set outside the classes treated here;
  \<open>vector\<close> is the effect of a literal load into a vector register.
\<close>

section \<open>Reference semantics\<close>

record cpu =
  cpu_regs :: "nat \<Rightarrow> u64"
  cpu_mem :: memory
  cpu_flags :: "bool \<times> bool \<times> bool \<times> bool"

datatype flow = Fall | Direct usize | Register usize

type_synonym 'x other = "u32 \<Rightarrow> 'x cpu_scheme \<Rightarrow> 'x cpu_scheme \<times> usize option"
type_synonym 'x vector = "nat \<Rightarrow> nat \<Rightarrow> usize \<Rightarrow> 'x cpu_scheme \<Rightarrow> 'x cpu_scheme"

definition reg :: "'x cpu_scheme \<Rightarrow> nat \<Rightarrow> u64" where
  "reg s n = (if n = 31 then 0 else cpu_regs s n)"

definition set_reg :: "nat \<Rightarrow> u64 \<Rightarrow> 'x cpu_scheme \<Rightarrow> 'x cpu_scheme" where
  "set_reg n v s = (if n = 31 then s else s\<lparr>cpu_regs := (cpu_regs s)(n := v)\<rparr>)"

definition ufield :: "nat \<Rightarrow> nat \<Rightarrow> u32 \<Rightarrow> nat" where
  "ufield lo n w = unat (take_bit n (drop_bit lo w))"

definition sfield :: "nat \<Rightarrow> nat \<Rightarrow> u32 \<Rightarrow> int" where
  "sfield lo n w = signed_take_bit (n - 1) (uint (drop_bit lo w))"

definition goal :: "usize \<Rightarrow> nat \<Rightarrow> nat \<Rightarrow> u32 \<Rightarrow> usize" where
  "goal pc lo n w = wrap64 (int pc + 4 * sfield lo n w)"

fun condition :: "u32 \<Rightarrow> bool \<times> bool \<times> bool \<times> bool \<Rightarrow> bool" where
  "condition c (n, z, carry, v) =
     (let base =
        [z, carry, n, v, carry \<and> \<not> z, n = v, n = v \<and> \<not> z, True] ! unat (take_bit 3 (drop_bit 1 c))
      in if bit c 0 \<and> take_bit 3 (drop_bit 1 c) \<noteq> 7 then \<not> base else base)"

definition adr_offset :: "u32 \<Rightarrow> int" where
  "adr_offset w = signed_take_bit 20 (uint (push_bit 2 (drop_bit 5 w) OR take_bit 2 (drop_bit 29 w)))"

definition loaded :: "nat \<Rightarrow> memory \<Rightarrow> usize \<Rightarrow> u64" where
  "loaded opc mem a =
     (if opc = 0 then ucast (u32_from_le (fetch mem a 4))
      else if opc = 1 then word_of_nat (le_value (fetch mem a 8))
      else scast (u32_from_le (fetch mem a 4)))"

definition load :: "nat \<Rightarrow> nat \<Rightarrow> usize \<Rightarrow> 'x cpu_scheme \<Rightarrow> 'x cpu_scheme" where
  "load opc rt a s = (if opc = 3 then s else set_reg rt (loaded opc (cpu_mem s) a) s)"

definition branch_if :: "bool \<Rightarrow> usize \<Rightarrow> 'x cpu_scheme \<Rightarrow> 'x cpu_scheme \<times> flow" where
  "branch_if taken t s = (s, if taken then Direct t else Fall)"

definition compare_taken :: "u32 \<Rightarrow> 'x cpu_scheme \<Rightarrow> bool" where
  "compare_taken w s \<longleftrightarrow>
     ((if bit w 31 then reg s (ufield 0 5 w) else take_bit 32 (reg s (ufield 0 5 w))) = 0) \<noteq> bit w 24"

definition test_taken :: "u32 \<Rightarrow> 'x cpu_scheme \<Rightarrow> bool" where
  "test_taken w s \<longleftrightarrow> bit (reg s (ufield 0 5 w)) (ufield 31 1 w * 32 + ufield 19 5 w) = bit w 24"

definition move_wide :: "bool \<Rightarrow> u32 \<Rightarrow> u64 \<Rightarrow> u64" where
  "move_wide keep w old =
     (let shift = 16 * ufield 21 2 w; imm = push_bit shift (word_of_nat (ufield 5 16 w)) in
      if keep then (old AND NOT (push_bit shift (mask 16))) OR imm else imm)"

definition exec ::
  "'x other \<Rightarrow> 'x vector \<Rightarrow> usize \<Rightarrow> u32 \<Rightarrow> 'x cpu_scheme \<Rightarrow> 'x cpu_scheme \<times> flow" where
  "exec other vector pc w s =
     (let rd = ufield 0 5 w; rn = ufield 5 5 w in
      if w AND 0xfc000000 = 0x14000000 then (s, Direct (goal pc 0 26 w))
      else if w AND 0xfc000000 = 0x94000000
      then (set_reg 30 (word_of_nat (pc + 4)) s, Direct (goal pc 0 26 w))
      else if w AND 0xff000010 = 0x54000000
      then branch_if (condition (take_bit 4 w) (cpu_flags s)) (goal pc 5 19 w) s
      else if w AND 0x7e000000 = 0x34000000 then branch_if (compare_taken w s) (goal pc 5 19 w) s
      else if w AND 0x7e000000 = 0x36000000 then branch_if (test_taken w s) (goal pc 5 14 w) s
      else if w AND 0x9f000000 = 0x10000000
      then (set_reg rd (word_of_int (int pc + adr_offset w)) s, Fall)
      else if w AND 0x9f000000 = 0x90000000
      then (set_reg rd (word_of_int (int (pc div 4096 * 4096) + 4096 * adr_offset w)) s, Fall)
      else if w AND 0x3b000000 = 0x18000000
      then ((if bit w 26 then vector else load) (ufield 30 2 w) rd (goal pc 5 19 w) s, Fall)
      else if w AND 0xfffffc1f = 0xd61f0000 then (s, Register (unat (reg s rn)))
      else if w AND 0xfffffc1f = 0xd63f0000
      then (set_reg 30 (word_of_nat (pc + 4)) s, Register (unat (reg s rn)))
      else if w AND 0xff800000 = 0xd2800000 then (set_reg rd (move_wide False w 0) s, Fall)
      else if w AND 0xff800000 = 0xf2800000 then (set_reg rd (move_wide True w (reg s rd)) s, Fall)
      else if w AND 0xfffffc00 = 0xb9400000 \<and> rn \<noteq> 31 then (load 0 rd (unat (reg s rn)) s, Fall)
      else if w AND 0xfffffc00 = 0xf9400000 \<and> rn \<noteq> 31 then (load 1 rd (unat (reg s rn)) s, Fall)
      else if w AND 0xfffffc00 = 0xb9800000 \<and> rn \<noteq> 31 then (load 2 rd (unat (reg s rn)) s, Fall)
      else if w = 0xd503201f \<or> w AND 0xffffff1f = 0xd503241f then (s, Fall)
      else case other w s of (s', None) \<Rightarrow> (s', Fall) | (s', Some t) \<Rightarrow> (s', Register t))"

definition arm_step ::
  "'x other \<Rightarrow> 'x vector \<Rightarrow> usize \<times> 'x cpu_scheme \<Rightarrow> usize \<times> 'x cpu_scheme" where
  "arm_step other vector c =
     (case exec other vector (fst c) (u32_from_le (fetch (cpu_mem (snd c)) (fst c) 4)) (snd c) of
        (s, Fall) \<Rightarrow> (fst c + 4, s)
      | (s, Direct t) \<Rightarrow> (t, s)
      | (s, Register t) \<Rightarrow> (t, s))"

definition arm_reaches ::
  "'x other \<Rightarrow> 'x vector \<Rightarrow> usize \<times> 'x cpu_scheme \<Rightarrow> usize \<times> 'x cpu_scheme \<Rightarrow> bool" where
  "arm_reaches other vector c c' \<longleftrightarrow> (\<exists>n. (arm_step other vector ^^ n) c = c')"

section \<open>Words bit by bit\<close>

lemma bits32: "(\<forall>i<32. P i) \<longleftrightarrow>
  P 0 \<and> P 1 \<and> P 2 \<and> P 3 \<and> P 4 \<and> P 5 \<and> P 6 \<and> P 7 \<and> P 8 \<and> P 9 \<and> P 10 \<and> P 11 \<and> P 12 \<and> P 13 \<and>
  P 14 \<and> P 15 \<and> P 16 \<and> P 17 \<and> P 18 \<and> P 19 \<and> P 20 \<and> P 21 \<and> P 22 \<and> P 23 \<and> P 24 \<and> P 25 \<and> P 26 \<and>
  P 27 \<and> P 28 \<and> P 29 \<and> P 30 \<and> P (31::nat)"
proof -
  have "(\<forall>i<32. P i) \<longleftrightarrow> (\<forall>i\<in>set [0..<32]. P i)" by auto
  also have "[0..<32::nat] = [0, 1, 2, 3, 4, 5, 6, 7, 8, 9, 10, 11, 12, 13, 14, 15, 16, 17, 18, 19, 20,
      21, 22, 23, 24, 25, 26, 27, 28, 29, 30, 31]" by (simp add: upt_rec)
  finally show ?thesis by simp
qed

lemma word32_eq: "(a::u32) = b \<longleftrightarrow> (\<forall>i<32. bit a i = bit b i)"
  by (auto simp: bit_eq_iff dest: bit_imp_le_length)

lemmas blast32 = word32_eq [unfolded bits32] bit_simps

text \<open>The code's sign extension is the architecture's, and it undoes \<open>relative\<close>.\<close>

lemma signed_field_eq:
  assumes "0 < n" "n < 32"
  shows "signed_field w n = signed_take_bit (n - 1) (uint w)"
proof (rule bit_eqI)
  fix i
  from assms obtain m where m: "n = Suc m" "m < 31" by (cases n) auto
  consider "i < m" | "i = m" | "m < i" by linarith
  then show "bit (signed_field w n) i = bit (signed_take_bit (n - 1) (uint w)) i"
    using m(2) by cases (auto simp: m(1) signed_field_def bit_simps min_def)
qed

lemma signed_take_bit_uint_cong:
  assumes "take_bit n v = take_bit n (w :: u32)" "0 < n"
  shows "signed_take_bit (n - 1) (uint v) = signed_take_bit (n - 1) (uint w)"
proof -
  have "signed_take_bit (n - 1) (uint v) = signed_take_bit (n - 1) (uint (take_bit n v))" for v :: u32
    using assms(2) by (auto simp: unsigned_take_bit_eq signed_take_bit_take_bit)
  with assms(1) show ?thesis by metis
qed

lemma relative_Ok:
  assumes "relative source target n = Ok d" "0 < n" "n < 32"
  shows "int source + 4 * signed_take_bit (n - 1) (uint d) = int target" and "take_bit n d = d"
proof -
  let ?v = "(int target - int source) div 4"
  have d: "d = word_of_int ?v AND mask n" "(int target - int source) mod 4 = 0"
      "- (2 ^ (n - 1)) \<le> ?v" "?v < 2 ^ (n - 1)"
    using assms by (auto simp: relative_def Let_def split: if_splits)
  then show "take_bit n d = d" by (simp add: take_bit_eq_mask)
  have "signed_take_bit (n - 1) (uint d) = signed_take_bit (n - 1) ?v"
    using assms(2,3) d(1) by (intro bit_eqI) (auto simp: bit_simps min_def)
  also have "\<dots> = ?v" using d(3,4) by (intro signed_take_bit_int_eq_self) auto
  finally show "int source + 4 * signed_take_bit (n - 1) (uint d) = int target" using d(2) by presburger
qed

lemma sfield_eq: "take_bit n (drop_bit lo w) = take_bit n d \<Longrightarrow> 0 < n \<Longrightarrow>
    sfield lo n w = signed_take_bit (n - 1) (uint d)"
  unfolding sfield_def by (rule signed_take_bit_uint_cong)

lemma goal_relative:
  assumes "relative pc t n = Ok d" "take_bit n (drop_bit lo w) = take_bit n d" "0 < n" "n < 32" "t \<le> usize_max"
  shows "goal pc lo n w = t"
  using relative_Ok(1) [OF assms(1,3,4)] sfield_eq [OF assms(2,3)] assms(5) by (simp add: goal_def wrap64_id)

lemma exec_branch:
  assumes "relative pc t 26 = Ok d" "t \<le> usize_max"
  shows "exec other vector pc (0x14000000 OR d) s = (s, Direct t)"
proof -
  have d: "take_bit 26 d = d" using assms(1) by (rule relative_Ok) simp_all
  then have "\<forall>i<32. i \<ge> 26 \<longrightarrow> \<not> bit d i" by (metis bit_take_bit_iff not_less)
  then have b: "\<not> bit d 26" "\<not> bit d 27" "\<not> bit d 28" "\<not> bit d 29" "\<not> bit d 30" "\<not> bit d 31" by simp_all
  have "(0x14000000 OR d) AND 0xfc000000 = 0x14000000" using b by (simp add: blast32)
  moreover have "goal pc 0 26 (0x14000000 OR d) = t"
    using assms(1) _ _ _ assms(2) by (rule goal_relative) (use b in \<open>simp_all add: blast32\<close>)
  ultimately show ?thesis by (simp add: exec_def)
qed

lemma unat_u64: "v \<le> usize_max \<Longrightarrow> unat (word_of_nat v :: u64) = v"
  by (simp add: unat_of_nat usize_defs)

section \<open>Running code\<close>

lemma reaches_refl [simp]: "arm_reaches other vector c c"
  unfolding arm_reaches_def by (rule exI [of _ 0]) simp

lemma reaches_trans:
  assumes "arm_reaches other vector a b" "arm_reaches other vector b c"
  shows "arm_reaches other vector a c"
proof -
  from assms obtain m n where "(arm_step other vector ^^ m) a = b" "(arm_step other vector ^^ n) b = c"
    by (auto simp: arm_reaches_def)
  then have "(arm_step other vector ^^ (n + m)) a = c" by (simp add: funpow_add)
  then show ?thesis unfolding arm_reaches_def ..
qed

lemma reaches_step:
  assumes "stands_at (cpu_mem s) pc (u32_to_le w)"
    "exec other vector pc w s = (s', f)"
    "next_pc = (case f of Fall \<Rightarrow> pc + 4 | Direct t \<Rightarrow> t | Register t \<Rightarrow> t)"
  shows "arm_reaches other vector (pc, s) (next_pc, s')"
proof -
  have "fetch (cpu_mem s) pc 4 = u32_to_le w" using assms(1) by (rule stands_at_le) simp
  with assms(2,3) have "arm_step other vector (pc, s) = (next_pc, s')"
    by (simp add: arm_step_def le_simps split: flow.split)
  then show ?thesis unfolding arm_reaches_def by (intro exI [of _ 1]) simp
qed

lemma reaches_fall:
  assumes "stands_at (cpu_mem s) pc (u32_to_le w)" "exec other vector pc w s = (s', Fall)"
    "arm_reaches other vector (pc + 4, s') c"
  shows "arm_reaches other vector (pc, s) c"
  using reaches_step [OF assms(1,2) refl] assms(3) by (auto intro: reaches_trans)

section \<open>Constants\<close>

text \<open>
  \<open>MOVZ\<close> and three \<open>MOVK\<close> put any 64-bit value into a register: after the \<open>k\<close>-th of them its low
  \<open>16 k\<close> bits are there.
\<close>

lemma constant_fields:
  assumes "take_bit 5 r = r" "half < 4"
  shows "ufield 0 5 (constant_word r v half) = unat r"
    and "ufield 5 16 (constant_word r v half) = take_bit 16 (drop_bit (16 * half) v)"
    and "ufield 21 2 (constant_word r v half) = half"
    and "constant_word r v half AND 0xff800000 = (if half = 0 then 0xd2800000 else 0xf2800000)"
proof -
  let ?x = "word_of_nat (v div 2 ^ (half * 16)) AND 0xffff :: u32"
  let ?w = "constant_word r v half"
  have r: "\<not> bit r i" if "5 \<le> i" for i using assms(1) that by (metis bit_take_bit_iff not_less)
  have halves: "half = 0 \<or> half = 1 \<or> half = 2 \<or> half = 3" using assms(2) by linarith
  have "take_bit 5 ?w = r" "take_bit 16 (drop_bit 5 ?w) = ?x" "take_bit 2 (drop_bit 21 ?w) = word_of_nat half"
    and "?w AND 0xff800000 = (if half = 0 then 0xd2800000 else 0xf2800000)"
    using halves by (auto simp: blast32 constant_word_def r simp del: bit_of_nat_iff_bit)
  moreover have "unat ?x = take_bit 16 (drop_bit (16 * half) v)"
  proof -
    have "?x = take_bit 16 (word_of_nat (v div 2 ^ (16 * half)))"
      by (simp add: take_bit_eq_mask mask_numeral mult.commute)
    then show ?thesis by (simp add: unsigned_take_bit_eq unsigned_of_nat drop_bit_nat_def)
  qed
  ultimately show "ufield 0 5 ?w = unat r" "ufield 21 2 ?w = half"
    "ufield 5 16 ?w = take_bit 16 (drop_bit (16 * half) v)"
    "?w AND 0xff800000 = (if half = 0 then 0xd2800000 else 0xf2800000)"
    using assms(2) by (simp_all add: ufield_def unat_of_nat)
qed

lemma exec_constant_word:
  assumes "take_bit 5 r = r" "half < 4"
  shows "exec other vector pc (constant_word r v half) s =
    (set_reg (unat r) (move_wide (half \<noteq> 0) (constant_word r v half)
       (if half = 0 then 0 else reg s (unat r))) s, Fall)"
proof -
  let ?w = "constant_word r v half"
  note f = constant_fields [OF assms, of v]
  have c: "?w AND 0xfc000000 \<noteq> 0x14000000" "?w AND 0xfc000000 \<noteq> 0x94000000"
    "?w AND 0xff000010 \<noteq> 0x54000000" "?w AND 0x7e000000 \<noteq> 0x34000000"
    "?w AND 0x7e000000 \<noteq> 0x36000000" "?w AND 0x9f000000 \<noteq> 0x10000000"
    "?w AND 0x9f000000 \<noteq> 0x90000000" "?w AND 0x3b000000 \<noteq> 0x18000000"
    "?w AND 0xfffffc1f \<noteq> 0xd61f0000" "?w AND 0xfffffc1f \<noteq> 0xd63f0000"
    using f(4) by (auto simp: blast32 split: if_splits)
  show ?thesis unfolding exec_def Let_def if_not_P [OF c(1)] if_not_P [OF c(2)] if_not_P [OF c(3)]
    if_not_P [OF c(4)] if_not_P [OF c(5)] if_not_P [OF c(6)] if_not_P [OF c(7)] if_not_P [OF c(8)]
    if_not_P [OF c(9)] if_not_P [OF c(10)] f(1,4) by simp
qed

lemma move_wide_constant:
  assumes "take_bit 5 r = r" "half < 4" "v \<le> usize_max"
  shows "move_wide (half \<noteq> 0) (constant_word r v half) (take_bit (16 * half) (word_of_nat v)) =
    take_bit (16 * (half + 1)) (word_of_nat v)"
proof (rule bit_eqI)
  fix i
  note f = constant_fields [OF assms(1,2), of v]
  show "bit (move_wide (half \<noteq> 0) (constant_word r v half) (take_bit (16 * half) (word_of_nat v))) i =
      bit (take_bit (16 * (half + 1)) (word_of_nat v) :: u64) i"
    using assms(2) by (auto simp: move_wide_def Let_def f(2,3) bit_simps)
qed

lemma set_reg_set_reg [simp]: "set_reg n v (set_reg n u s) = set_reg n v s"
  by (simp add: set_reg_def)

lemma cpu_mem_set_reg [simp]: "cpu_mem (set_reg n v s) = cpu_mem s"
  by (simp add: set_reg_def)

lemma reg_set_reg: "reg (set_reg n v s) m = (if m = n \<and> n \<noteq> 31 then v else reg s m)"
  by (auto simp: reg_def set_reg_def)

lemma exec_constant_next:
  assumes "take_bit 5 r = r" "half < 4" "v \<le> usize_max"
  shows "exec other vector pc (constant_word r v half)
      (if half = 0 then s else set_reg (unat r) (take_bit (16 * half) (word_of_nat v)) s) =
    (set_reg (unat r) (take_bit (16 * (half + 1)) (word_of_nat v)) s, Fall)"
proof (cases "unat r = 31")
  case True
  then show ?thesis by (simp add: exec_constant_word [OF assms(1,2)] set_reg_def)
next
  case False
  with move_wide_constant [OF assms] show ?thesis
    by (cases "half = 0") (use assms(2) in \<open>simp_all add: exec_constant_word [OF assms(1)] reg_set_reg\<close>)
qed

lemma emit_constant_eq: "emit_constant bytes r v = bytes @ u32_to_le (constant_word r v 0) @
    u32_to_le (constant_word r v 1) @ u32_to_le (constant_word r v 2) @
    u32_to_le (constant_word r v 3)"
  by (simp add: emit_constant_def emit_word_def upt_rec numeral_2_eq_2 numeral_3_eq_3)

lemma reaches_constant:
  assumes "stands_at (cpu_mem s) pc (emit_constant [] r v)" "take_bit 5 r = r" "v \<le> usize_max"
  shows "arm_reaches other vector (pc, s) (pc + 16, set_reg (unat r) (word_of_nat v) s)"
proof -
  have st: "stands_at (cpu_mem s) pc (u32_to_le (constant_word r v 0))"
    "stands_at (cpu_mem (set_reg (unat r) u s)) (pc + 4) (u32_to_le (constant_word r v 1))"
    "stands_at (cpu_mem (set_reg (unat r) u s)) (pc + 4 + 4) (u32_to_le (constant_word r v 2))"
    "stands_at (cpu_mem (set_reg (unat r) u s)) (pc + 4 + 4 + 4) (u32_to_le (constant_word r v 3))" for u
    using assms(1) by (simp_all add: emit_constant_eq stands_at_append)
  note e = exec_constant_next [OF assms(2) _ assms(3)]
  have e: "exec other vector pc (constant_word r v 0) s = (set_reg (unat r) (take_bit 16 (word_of_nat v)) s, Fall)"
    "exec other vector pc (constant_word r v 1) (set_reg (unat r) (take_bit 16 (word_of_nat v)) s) =
      (set_reg (unat r) (take_bit 32 (word_of_nat v)) s, Fall)"
    "exec other vector pc (constant_word r v 2) (set_reg (unat r) (take_bit 32 (word_of_nat v)) s) =
      (set_reg (unat r) (take_bit 48 (word_of_nat v)) s, Fall)"
    "exec other vector pc (constant_word r v 3) (set_reg (unat r) (take_bit 48 (word_of_nat v)) s) =
      (set_reg (unat r) (word_of_nat v) s, Fall)" for pc
    using e [of 0] e [of 1] e [of 2] e [of 3] by (simp_all add: take_bit_word_eq_self)
  show ?thesis
    by (rule reaches_fall [OF st(1) e(1)], rule reaches_fall [OF st(2) e(2)],
        rule reaches_fall [OF st(3) e(3)], rule reaches_fall [OF st(4) e(4)]) (simp add: add.assoc)
qed

section \<open>Jumps\<close>

text \<open>The procedure call standard lets a veneer between caller and callee change \<open>x16\<close>.\<close>

definition same_but_x16 :: "'x cpu_scheme \<Rightarrow> 'x cpu_scheme \<Rightarrow> bool" where
  "same_but_x16 s t \<longleftrightarrow> t = set_reg 16 (reg t 16) s"

lemma same_but_x16_refl [simp]: "same_but_x16 s s"
  by (simp add: same_but_x16_def set_reg_def reg_def)

lemma same_but_x16_set [simp]: "same_but_x16 s (set_reg 16 v s)"
  by (simp add: same_but_x16_def reg_set_reg)

lemma exec_veneer_load:
  "pc + 8 \<le> usize_max \<Longrightarrow>
   exec other vector pc 0x58000050 s = (set_reg 16 (word_of_nat (le_value (fetch (cpu_mem s) (pc + 8) 8))) s, Fall)"
  by (simp add: exec_def ufield_def goal_def sfield_def load_def loaded_def wrap64_def usize_defs
      nat_add_distrib)

lemma exec_veneer_branch: "exec other vector pc 0xd61f0200 s = (s, Register (unat (reg s 16)))"
  by (simp add: exec_def ufield_def)

lemma exec_landing_pad: "w AND 0xffffff1f = 0xd503241f \<Longrightarrow> exec other vector pc w s = (s, Fall)"
  by (simp add: exec_def Let_def blast32)

lemma aligned_Ok: "aligned a = Ok u \<longleftrightarrow> a \<noteq> 0 \<and> a mod 4 = 0"
  by (auto simp: aligned_def)

lemma arm_jump_Ok:
  assumes "arm_jump source target = Ok bytes"
  obtains (near) d where "relative source target 26 = Ok d" "bytes = u32_to_le (0x14000000 OR d)"
  | (far) "bytes = u32_to_le 0x58000050 @ u32_to_le 0xd61f0200 @ u64_to_le target"
  using assms by (auto simp: arm_jump_def result_simps emit_word_def split: result.splits)

lemma arm_jump_length: "arm_jump source target = Ok bytes \<Longrightarrow> length bytes = 4 \<or> length bytes = 16"
  by (erule arm_jump_Ok) auto

lemma jump_runs:
  assumes "arm_jump source target = Ok bytes" "target \<le> usize_max"
    "stands_at (cpu_mem s) source bytes" "source + length bytes \<le> usize_max"
  shows "\<exists>t. arm_reaches other vector (source, s) (target, t) \<and> same_but_x16 s t"
  using assms(1)
proof (cases rule: arm_jump_Ok)
  case (near d)
  have "arm_reaches other vector (source, s) (target, s)"
    by (rule reaches_step [OF _ exec_branch [OF near(1) assms(2)]]) (use near(2) assms(3) in simp_all)
  then show ?thesis by (intro exI [of _ s]) simp
next
  case far
  let ?t = "set_reg 16 (word_of_nat target) s"
  have st: "stands_at (cpu_mem s) source (u32_to_le 0x58000050)"
    "stands_at (cpu_mem ?t) (source + 4) (u32_to_le 0xd61f0200)"
    "stands_at (cpu_mem s) (source + 8) (u64_to_le target)"
    using assms(3) far by (simp_all add: stands_at_append add.commute)
  have "fetch (cpu_mem s) (source + 8) 8 = u64_to_le target" using st(3) by (rule stands_at_le) simp
  then have l: "exec other vector source 0x58000050 s = (?t, Fall)"
    using assms(2,4) far by (simp add: exec_veneer_load le_simps)
  have "unat (reg ?t 16) = target" using assms(2) by (simp add: reg_set_reg unat_u64)
  then have "arm_reaches other vector (source + 4, ?t) (target, ?t)"
    by (intro reaches_step [OF st(2) exec_veneer_branch]) simp
  with reaches_fall [OF st(1) l] show ?thesis by (intro exI [of _ ?t]) simp
qed

section \<open>Plans\<close>

definition arm_words :: "u8 list \<Rightarrow> u32 list" where
  "arm_words bytes = map u32_from_le (chunks4 bytes)"

lemma aligned_returns [simp]: "returns (aligned a)"
  by (simp add: aligned_def)

lemma arm_jump_returns [simp]: "returns (arm_jump source target)"
  by (auto simp: arm_jump_def result_simps aligned_def split: result.splits)

lemma chunks4_length: "chunk \<in> set (chunks4 bytes) \<Longrightarrow> length chunk = 4"
  by (induction bytes rule: chunks4.induct) auto

lemma length_chunks4: "length (chunks4 bytes) = length bytes div 4"
  by (induction bytes rule: chunks4.induct) auto

lemma check_prefix_Ok:
  assumes "\<forall>c\<in>set chunks. length c = 4"
  shows "check_prefix n index chunks = Ok u \<longleftrightarrow>
     (\<forall>i<length chunks. valid_word (u32_from_le (chunks ! i)) \<and>
        (terminal_word (u32_from_le (chunks ! i)) \<longrightarrow> n \<le> (index + i + 1) * 4))"
  using assms
  by (induction n index chunks rule: check_prefix.induct)
    (auto simp: result_simps arm_word_def nth_Cons split: nat.splits if_splits)

lemma check_prefix_returns:
  "\<forall>c\<in>set chunks. length c = 4 \<Longrightarrow> returns (check_prefix n index chunks)"
  by (induction n index chunks rule: check_prefix.induct) (auto simp: result_simps arm_word_def)

lemma arm_plan_Ok:
  assumes "arm_plan source target bytes = Ok p"
  obtains first where "arm_word bytes = Ok first"
    "plan_offset p = (if first AND 0xffffff1f = 0xd503241f then 4 else 0)"
    "arm_jump (source + plan_offset p) target = Ok (plan_replacement p)"
    "plan_offset p + length (plan_replacement p) \<le> length bytes"
    "plan_original p = take (length (plan_replacement p)) (drop (plan_offset p) bytes)"
    "check_prefix (length (plan_original p)) 0 (chunks4 (plan_original p)) = Ok ()"
  using assms by (auto simp: arm_plan_def Let_def result_simps split: if_splits)

lemma arm_plan_returns: "returns (arm_plan source target bytes)"
proof -
  have "returns (check_prefix n 0 (chunks4 prefix))" for n prefix
    by (rule check_prefix_returns) (use chunks4_length in blast)
  then show ?thesis by (auto simp: arm_plan_def Let_def result_simps arm_word_def)
qed

lemma checked_words:
  assumes "check_prefix (length bytes) 0 (chunks4 bytes) = Ok ()"
  shows "\<forall>w\<in>set (arm_words bytes). valid_word w" "\<forall>w\<in>set (butlast (arm_words bytes)). \<not> terminal_word w"
proof -
  have ok: "valid_word (arm_words bytes ! i)" "terminal_word (arm_words bytes ! i) \<longrightarrow> length bytes \<le> (i + 1) * 4"
    if "i < length (arm_words bytes)" for i
    using assms that chunks4_length by (auto simp: check_prefix_Ok arm_words_def)
  show "\<forall>w\<in>set (arm_words bytes). valid_word w" using ok(1) by (auto simp: in_set_conv_nth)
  show "\<forall>w\<in>set (butlast (arm_words bytes)). \<not> terminal_word w"
  proof
    fix w assume "w \<in> set (butlast (arm_words bytes))"
    then obtain i where i: "i < length (arm_words bytes) - 1" "w = arm_words bytes ! i"
      by (auto simp: in_set_conv_nth nth_butlast)
    have "length bytes div 4 * 4 \<le> length bytes" by simp
    with i(1) have "\<not> length bytes \<le> (i + 1) * 4" "i < length (arm_words bytes)"
      by (simp_all add: arm_words_def length_chunks4)
    with ok(2) [of i] i(2) show "\<not> terminal_word w" by blast
  qed
qed

lemma plan_runs:
  assumes p: "arm_plan source target bytes = Ok p" and t: "target \<le> usize_max"
    and room: "source + length bytes \<le> usize_max"
    and st: "stands_at (cpu_mem s) source (take (plan_offset p) bytes @ plan_replacement p)"
  shows "\<exists>t. arm_reaches other vector (source, s) (target, t) \<and> same_but_x16 s t"
proof -
  from p obtain first where f: "arm_word bytes = Ok first"
    and o: "plan_offset p = (if first AND 0xffffff1f = 0xd503241f then 4 else 0)"
    and j: "arm_jump (source + plan_offset p) target = Ok (plan_replacement p)"
    and l: "plan_offset p + length (plan_replacement p) \<le> length bytes"
    by (rule arm_plan_Ok)
  have st': "stands_at (cpu_mem s) source (take (plan_offset p) bytes)"
    "stands_at (cpu_mem s) (source + plan_offset p) (plan_replacement p)"
    using st l by (simp_all add: stands_at_append min_absorb2)
  from jump_runs [OF j t st'(2)] room l obtain t where
    t: "arm_reaches other vector (source + plan_offset p, s) (target, t)" "same_but_x16 s t" by auto
  have "arm_reaches other vector (source, s) (target, t)"
  proof (cases "plan_offset p = 0")
    case False
    with o have pad: "first AND 0xffffff1f = 0xd503241f" "plan_offset p = 4" by (auto split: if_splits)
    have "u32_to_le first = take 4 bytes" using f by (auto simp: arm_word_def u32_to_from_le split: if_splits)
    with st'(1) pad(2) have "stands_at (cpu_mem s) source (u32_to_le first)" by simp
    from reaches_fall [OF this exec_landing_pad [OF pad(1)]] t(1) pad(2) show ?thesis by simp
  qed (use t in simp)
  with t(2) show ?thesis by blast
qed

text \<open>C12: an ARM64 plan that is accepted covers whole, allocated instruction words, none but the
  last of which ends the flow of control, keeps the bytes it displaces, fits the \<^verbatim>\<open>MAX_PREFIX\<close>
  bytes the session reads, and once written makes a call of the function arrive at the replacement
  with nothing changed but \<open>x16\<close>; a \<^verbatim>\<open>BTI\<close> landing pad stays in front of it.\<close>

theorem arm_plan_sound:
  assumes p: "arm_plan source target bytes = Ok p" and t: "target \<le> usize_max"
    and room: "source + length bytes \<le> usize_max"
    and st: "stands_at (cpu_mem s) source (take (plan_offset p) bytes @ plan_replacement p)"
  shows "(\<exists>t. arm_reaches other vector (source, s) (target, t) \<and> same_but_x16 s t) \<and>
    plan_original p = take (length (plan_replacement p)) (drop (plan_offset p) bytes) \<and>
    length (plan_original p) = length (plan_replacement p) \<and>
    plan_offset p + length (plan_original p) \<le> MAX_PREFIX \<and>
    length (plan_original p) mod 4 = 0 \<and>
    (\<forall>w\<in>set (arm_words (plan_original p)). valid_word w) \<and>
    (\<forall>w\<in>set (butlast (arm_words (plan_original p))). \<not> terminal_word w)"
proof -
  from p obtain first :: u32 where o: "plan_offset p = (if first AND 0xffffff1f = 0xd503241f then 4 else 0)"
    and j: "arm_jump (source + plan_offset p) target = Ok (plan_replacement p)"
    and l: "plan_offset p + length (plan_replacement p) \<le> length bytes"
      "plan_original p = take (length (plan_replacement p)) (drop (plan_offset p) bytes)"
    and c: "check_prefix (length (plan_original p)) 0 (chunks4 (plan_original p)) = Ok ()"
    by (rule arm_plan_Ok)
  have len: "length (plan_original p) = length (plan_replacement p)" using l by simp
  then show ?thesis
    using plan_runs [OF p t room st] checked_words [OF c] arm_jump_length [OF j] l(2) o
    by (auto simp: MAX_PREFIX_def)
qed

lemma arm_plan_example:
  "arm_plan 4096 8192 (u32_to_le 0xd503245f @ u32_to_le 0xd65f03c0) =
     Ok \<lparr>plan_offset = 4, plan_original = u32_to_le 0xd65f03c0, plan_replacement = u32_to_le 0x140003ff\<rparr>"
proof -
  have "relative 4100 8192 26 = Ok 0x3ff" by (simp add: relative_def mask_numeral)
  then have "arm_jump 4100 8192 = Ok (u32_to_le 0x140003ff)"
    by (simp add: arm_jump_def aligned_def emit_word_def)
  moreover have "chunks4 (u32_to_le w) = [u32_to_le w]" for w
    by (simp add: u32_to_le_def le_bytes_numeral)
  ultimately show ?thesis
    by (simp add: arm_plan_def aligned_def arm_word_def le_simps checked_add_def usize_defs valid_word_def)
qed

theorem arm_plan_sound_witness:
  "\<exists>t. arm_reaches (\<lambda>_ s. (s, None)) (\<lambda>_ _ _ s. s)
     (4096, \<lparr>cpu_regs = (\<lambda>_. 0),
       cpu_mem = write_bytes (\<lambda>_. 0) 4096 (u32_to_le 0xd503245f @ u32_to_le 0x140003ff),
       cpu_flags = (False, False, False, False)\<rparr>) (8192, t)"
  using arm_plan_sound [OF arm_plan_example,
      of "\<lparr>cpu_regs = (\<lambda>_. 0),
       cpu_mem = write_bytes (\<lambda>_. 0) 4096 (u32_to_le 0xd503245f @ u32_to_le 0x140003ff),
       cpu_flags = (False, False, False, False)\<rparr>" "\<lambda>_ s. (s, None)" "\<lambda>_ _ _ s. s"]
    fetch_write_bytes [of "\<lambda>_. 0" 4096 "u32_to_le 0xd503245f @ u32_to_le 0x140003ff"]
  by (auto simp: stands_at_def usize_defs)

end
