(* ===== verification/Code_Target.thy ===== *)
theory Code_Target
  imports X86_Relocate Arm64_Machine
begin

text \<open>
  The machine code module of the target (src/code.rs): \<^verbatim>\<open>code\<close> is src/code/x86.rs on x86-64 and
  src/code/arm64.rs on ARM64. Both give the same four operations, and the rest of the program relies
  on what is common to them. On ARM64 no call bridge exists, so the questions about it, which the
  code asks under \<^verbatim>\<open>cfg(target_arch)\<close>, are answered with no.
\<close>

datatype target = X86_64 | Arm64

fun code_plan :: "target \<Rightarrow> usize \<Rightarrow> usize \<Rightarrow> u8 list \<Rightarrow> plan result" where
  "code_plan X86_64 source destination bytes = plan source destination bytes"
| "code_plan Arm64 source destination bytes = arm_plan source destination bytes"

fun code_jump :: "target \<Rightarrow> usize \<Rightarrow> usize \<Rightarrow> u8 list result" where
  "code_jump X86_64 source destination = jump source destination"
| "code_jump Arm64 source destination = arm_jump source destination"

fun code_trampoline :: "target \<Rightarrow> usize \<Rightarrow> usize \<Rightarrow> u8 list \<Rightarrow> u8 list result" where
  "code_trampoline X86_64 source destination original = trampoline source destination original"
| "code_trampoline Arm64 source destination original = arm_trampoline source destination original"

fun code_call_bridge :: "target \<Rightarrow> u8 list \<Rightarrow> bool result" where
  "code_call_bridge X86_64 original = needs_call_bridge original"
| "code_call_bridge Arm64 original = Ok False"

section \<open>What both targets promise\<close>

lemma code_plan_returns [simp]: "returns (code_plan tg source destination bytes)"
  by (cases tg) (simp_all add: arm_plan_returns)

lemma code_jump_returns [simp]: "returns (code_jump tg source destination)"
  by (cases tg) simp_all

lemma plan_nonempty: "plan source target bytes = Ok p \<Longrightarrow> plan_original p \<noteq> [] \<and> plan_offset p \<le> 4"
proof -
  assume p: "plan source target bytes = Ok p"
  then obtain j n where j: "jump (source + plan_offset p) target = Ok j"
    "plan_length (drop (plan_offset p) bytes) (length j) 0 = Ok n"
    "plan_offset p = (if starts_with bytes ENDBR64 then 4 else 0)"
    "n \<le> length bytes - plan_offset p" "plan_original p = take n (drop (plan_offset p) bytes)"
    by (rule plan_Ok)
  have "0 < length j" using jump_length [OF j(1)] by auto
  from plan_length_ok [OF j(2) this decoded.Entry] have "length j \<le> n" by auto
  then have "0 < n" using \<open>0 < length j\<close> by linarith
  with j show ?thesis by auto
qed

text \<open>A plan displaces some bytes at most four bytes into the function, by as many.\<close>

lemma code_plan_shape:
  assumes "code_plan tg source destination bytes = Ok p"
  shows "plan_original p \<noteq> []" "plan_offset p \<le> 4" "length (plan_replacement p) = length (plan_original p)"
proof -
  have "plan_original p \<noteq> [] \<and> plan_offset p \<le> 4 \<and> length (plan_replacement p) = length (plan_original p)"
  proof (cases tg)
    case X86_64
    with assms plan_nonempty plan_shape(3) show ?thesis by simp
  next
    case Arm64
    with assms have "arm_plan source destination bytes = Ok p" by simp
    then obtain first where "arm_word bytes = Ok first"
      and p: "plan_offset p = (if first AND 0xffffff1f = 0xd503241f then 4 else 0)"
        "arm_jump (source + plan_offset p) destination = Ok (plan_replacement p)"
        "plan_offset p + length (plan_replacement p) \<le> length bytes"
        "plan_original p = take (length (plan_replacement p)) (drop (plan_offset p) bytes)"
      and "check_prefix (length (plan_original p)) 0 (chunks4 (plan_original p)) = Ok ()" by (rule arm_plan_Ok)
    from p(3,4) have "length (plan_original p) = length (plan_replacement p)" by simp
    moreover have "0 < length (plan_replacement p)" using arm_jump_length [OF p(2)] by auto
    ultimately show ?thesis using p(1) by auto
  qed
  then show "plan_original p \<noteq> []" "plan_offset p \<le> 4" "length (plan_replacement p) = length (plan_original p)"
    by simp_all
qed

end
