(* ===== verification/Code_Memory.thy ===== *)
theory Code_Memory
  imports Errors
begin

text \<open>
  Reading and rewriting code (src/memory.rs). The operating system is a \<open>platform\<close>: the six
  functions that src/memory.rs calls in its platform modules, acting on a state of their own. The
  definitions take the platform as an argument, so they are the same program on every system.

  The locale \<open>code_platform\<close> states what the program relies on. Inside it, a replacement of
  code bytes is proved to be all or nothing: it succeeds and only the addressed bytes differ, or
  it fails and no byte differs, or the process is ended.
\<close>

section \<open>Definitions\<close>

record region =
  rg_start :: usize
  rg_end :: usize
  rg_protection :: nat
  rg_readable :: bool
  rg_executable :: bool

record page_range =
  pg_address :: usize
  pg_length :: usize
  pg_protection :: nat

text \<open>
  \<^verbatim>\<open>platform::region_at\<close>, \<^verbatim>\<open>read_bytes\<close>, \<^verbatim>\<open>page_size\<close>, \<^verbatim>\<open>protect\<close>,
  \<^verbatim>\<open>flush\<close>, and the raw copy of bytes to an address (\<^verbatim>\<open>std::ptr::copy\<close>).
\<close>

record 'k platform =
  region_at :: "usize \<Rightarrow> (region option, 'k) call"
  read_bytes :: "usize \<Rightarrow> usize \<Rightarrow> (u8 list, 'k) call"
  page_size :: "(usize, 'k) call"
  protect :: "page_range \<Rightarrow> bool \<Rightarrow> (unit, 'k) call"
  flush :: "usize \<Rightarrow> usize \<Rightarrow> (unit, 'k) call"
  store :: "usize \<Rightarrow> u8 list \<Rightarrow> 'k \<Rightarrow> 'k"

definition unwrap_panic :: string where
  "unwrap_panic = ''called `Option::unwrap()` on a `None` value''"

definition checked_end :: "usize \<Rightarrow> usize \<Rightarrow> usize result" where
  "checked_end address len =
     (if address = 0 then Err InvalidAddress
      else if len = 0 then Err InvalidRange
      else ok_or (checked_add address len) InvalidRange)"

text \<open>
  The loop over the regions of a range. A region that does not reach beyond the cursor would keep
  the loop from advancing, so it is a partial function: \<open>None\<close> when it does not come back.
\<close>

partial_function (option) regions_loop ::
  "'k platform \<Rightarrow> usize \<Rightarrow> usize \<Rightarrow> region list \<Rightarrow> 'k \<Rightarrow> (region list result \<times> 'k) option" where
  "regions_loop P e cursor regions k =
     (if cursor < e
      then case region_at P cursor k of
             (Ok (Some region), k') \<Rightarrow>
               if rg_readable region \<and> rg_executable region
               then regions_loop P e (min (rg_end region) e) (regions @ [region]) k'
               else if regions = []
               then Some (Err (if rg_readable region then NotExecutable else InvalidAddress), k')
               else Some (Ok regions, k')
           | (Ok None, k') \<Rightarrow> Some (if regions = [] then Err InvalidAddress else Ok regions, k')
           | (Err error, k') \<Rightarrow> Some (Err error, k')
           | (Panics m, k') \<Rightarrow> Some (Panics m, k')
           | (Aborts, k') \<Rightarrow> Some (Aborts, k')
           | (Diverges, k') \<Rightarrow> Some (Diverges, k')
      else Some (Ok regions, k))"

definition executable_regions :: "'k platform \<Rightarrow> usize \<Rightarrow> usize \<Rightarrow> (region list, 'k) call" where
  "executable_regions P address len k =
     andThen (checked_end address len, k) (\<lambda>e k.
       case regions_loop P e address [] k of Some m \<Rightarrow> m | None \<Rightarrow> (Diverges, k))"

definition memory_read :: "'k platform \<Rightarrow> usize \<Rightarrow> usize \<Rightarrow> (u8 list, 'k) call" where
  "memory_read P address limit k =
     andThen (executable_regions P address limit k) (\<lambda>regions k.
       if regions = [] then (Panics unwrap_panic, k)
       else andThen (usize_sub (rg_end (last regions)) address, k) (\<lambda>n k.
              read_bytes P address (min n limit) k))"

primrec map_result :: "('a \<Rightarrow> 'b result) \<Rightarrow> 'a list \<Rightarrow> 'b list result" where
  "map_result f [] = Ok []"
| "map_result f (x # xs) = and_then (f x) (\<lambda>y. and_then (map_result f xs) (\<lambda>ys. Ok (y # ys)))"

definition page_range_of :: "usize \<Rightarrow> usize \<Rightarrow> usize \<Rightarrow> region \<Rightarrow> page_range result" where
  "page_range_of psize address last_page_end region =
     (let start = max (rg_start region) (address div psize * psize);
          e = min (rg_end region) last_page_end
      in and_then (usize_sub e start) (\<lambda>n.
           Ok \<lparr>pg_address = start, pg_length = n, pg_protection = rg_protection region\<rparr>))"

text \<open>\<^verbatim>\<open>fatal()\<close> is \<^verbatim>\<open>std::process::abort\<close> outside the tests.\<close>

fun or_fatal :: "'a result \<times> 'k \<Rightarrow> 'a result \<times> 'k" where
  "or_fatal (Err e, k) = (Aborts, k)"
| "or_fatal m = m"

fun on_error :: "'a result \<times> 'k \<Rightarrow> (error \<Rightarrow> 'k \<Rightarrow> 'a result \<times> 'k) \<Rightarrow> 'a result \<times> 'k" where
  "on_error (Err e, k) h = h e k"
| "on_error m h = m"

primrec protect_or_fatal :: "'k platform \<Rightarrow> bool \<Rightarrow> page_range list \<Rightarrow> (unit, 'k) call" where
  "protect_or_fatal P writable [] k = (Ok (), k)"
| "protect_or_fatal P writable (page # pages) k =
     andThen (or_fatal (protect P page writable k)) (\<lambda>_. protect_or_fatal P writable pages)"

definition restore_permissions :: "'k platform \<Rightarrow> page_range list \<Rightarrow> (unit, 'k) call" where
  "restore_permissions P pages = protect_or_fatal P False pages"

text \<open>The first loop over the pages; \<open>before\<close> are the pages that are writable already.\<close>

primrec unlock_pages :: "'k platform \<Rightarrow> page_range list \<Rightarrow> page_range list \<Rightarrow> (unit, 'k) call" where
  "unlock_pages P before [] k = (Ok (), k)"
| "unlock_pages P before (page # pages) k =
     andThen (on_error (protect P page True k) (\<lambda>error k.
        andThen (restore_permissions P before k) (\<lambda>_ k. (Err error, k))))
       (\<lambda>_. unlock_pages P (before @ [page]) pages)"

text \<open>\<^verbatim>\<open>try_for_each\<close> over the pages, back to their own protection.\<close>

primrec lock_pages :: "'k platform \<Rightarrow> page_range list \<Rightarrow> (unit, 'k) call" where
  "lock_pages P [] k = (Ok (), k)"
| "lock_pages P (page # pages) k =
     andThen (protect P page False k) (\<lambda>_. lock_pages P pages)"

definition roll_back ::
  "'k platform \<Rightarrow> usize \<Rightarrow> u8 list \<Rightarrow> page_range list \<Rightarrow> error \<Rightarrow> (unit, 'k) call" where
  "roll_back P address original pages error k =
     andThen (protect_or_fatal P True pages k) (\<lambda>_ k.
     andThen (or_fatal (flush P address (length original) (store P address original k))) (\<lambda>_ k.
     andThen (restore_permissions P pages k) (\<lambda>_ k. (Err error, k))))"

definition rewrite_pages ::
  "'k platform \<Rightarrow> usize \<Rightarrow> u8 list \<Rightarrow> u8 list \<Rightarrow> page_range list \<Rightarrow> (unit, 'k) call" where
  "rewrite_pages P address original replacement pages k =
     andThen (unlock_pages P [] pages k) (\<lambda>_ k.
       on_error
         (andThen (flush P address (length replacement) (store P address replacement k)) (\<lambda>_.
            lock_pages P pages))
         (roll_back P address original pages))"

text \<open>
  \<open>replace_with\<close> is \<^verbatim>\<open>replace\<close> up to the pages; how they are rewritten depends on the target:
  by \<open>rewrite_pages\<close>, or with remapped pages on Apple silicon (theory \<open>Mac_Memory\<close>).
\<close>

definition replace_with ::
  "'k platform \<Rightarrow> (usize \<Rightarrow> u8 list \<Rightarrow> u8 list \<Rightarrow> page_range list \<Rightarrow> (unit, 'k) call) \<Rightarrow>
   usize \<Rightarrow> u8 list \<Rightarrow> u8 list \<Rightarrow> (unit, 'k) call" where
  "replace_with P rewrite address expected replacement k =
     (if length expected \<noteq> length replacement then (Err InvalidRange, k)
      else
        andThen (checked_end address (length expected), k) (\<lambda>e k.
        andThen (executable_regions P address (length expected) k) (\<lambda>regions k.
          if regions = [] then (Panics unwrap_panic, k)
          else if rg_end (last regions) < e then (Err InvalidRange, k)
          else
            andThen (read_bytes P address (length expected) k) (\<lambda>original k.
              if original \<noteq> expected then (Err MemoryChanged, k)
              else
                andThen (page_size P k) (\<lambda>psize k.
                andThen (and_then (usize_sub psize 1) (\<lambda>d. ok_or (checked_add e d) InvalidRange), k) (\<lambda>rounded k.
                andThen (map_result (page_range_of psize address (rounded div psize * psize)) regions, k)
                  (\<lambda>pages. rewrite address original replacement pages)))))))"

definition replace :: "'k platform \<Rightarrow> usize \<Rightarrow> u8 list \<Rightarrow> u8 list \<Rightarrow> (unit, 'k) call" where
  "replace P = replace_with P (rewrite_pages P)"

definition memory_write :: "'k platform \<Rightarrow> usize \<Rightarrow> u8 list \<Rightarrow> u8 list \<Rightarrow> (unit, 'k) call" where
  "memory_write P address expected replacement k = replace P address expected replacement k"

section \<open>Protections of libc\<close>

definition PROT_NONE :: nat where "PROT_NONE = 0"

definition PROT_READ :: nat where "PROT_READ = 1"

definition PROT_WRITE :: nat where "PROT_WRITE = 2"

definition PROT_EXEC :: nat where "PROT_EXEC = 4"

definition writable_protection :: "nat \<Rightarrow> bool" where
  "writable_protection p \<longleftrightarrow> p AND PROT_WRITE \<noteq> 0"

lemma writable_write: "writable_protection (p OR PROT_WRITE)"
proof -
  have "bit (p OR PROT_WRITE) 1" "bit PROT_WRITE 1" by (simp_all add: bit_or_iff PROT_WRITE_def bit_simps)
  then show ?thesis
    unfolding writable_protection_def by (metis bit_0_eq bit_and_iff bot_apply bot_bool_def)
qed

section \<open>What the code relies on\<close>

definition page_bytes :: "page_range \<Rightarrow> usize set" where
  "page_bytes page = {pg_address page ..< pg_address page + pg_length page}"

definition pages_bytes :: "page_range list \<Rightarrow> usize set" where
  "pages_bytes pages = (\<Union>page\<in>set pages. page_bytes page)"

lemma pages_bytes_simps [simp]:
  "pages_bytes [] = {}"
  "pages_bytes (page # pages) = page_bytes page \<union> pages_bytes pages"
  "pages_bytes (xs @ ys) = pages_bytes xs \<union> pages_bytes ys"
  by (auto simp: pages_bytes_def)

text \<open>A call that ends as a \<^verbatim>\<open>Result\<close> or with the end of the process.\<close>

definition settles :: "'a result \<Rightarrow> bool" where
  "settles r \<longleftrightarrow> returns r \<or> r = Aborts"

lemma settles_simps [simp]:
  "settles (Ok v)" "settles (Err e)" "settles Aborts" "\<not> settles (Panics m)" "\<not> settles Diverges"
  by (simp_all add: settles_def)

text \<open>
  The contract of the six platform functions, over two views of the system's state: \<open>mem\<close>, the
  bytes of the process, and \<open>prot\<close>, the protection of each byte's page. \<open>grant\<close> is the
  protection a page gets when it is made writable.

  Queries and cache flushes change neither view. A region is reported with its own protection and
  contains the address asked for. Changing the protection of a page leaves the bytes alone and,
  when the call succeeds, sets exactly the bytes of that page; a failed call may have changed part
  of the page. A store to writable bytes writes them and nothing else.
\<close>

locale code_reader =
  fixes P :: "'k platform"
    and mem :: "'k \<Rightarrow> memory"
    and prot :: "'k \<Rightarrow> usize \<Rightarrow> nat"
  assumes region_at_law: "region_at P a k = (rq, k') \<Longrightarrow>
      returns rq \<and> mem k' = mem k \<and> prot k' = prot k \<and>
      (\<forall>region. rq = Ok (Some region) \<longrightarrow> rg_readable region \<longrightarrow> rg_executable region \<longrightarrow>
         rg_start region \<le> a \<and> a < rg_end region \<and>
         (\<forall>b. rg_start region \<le> b \<longrightarrow> b < rg_end region \<longrightarrow> prot k b = rg_protection region))"
    and read_bytes_law: "read_bytes P a n k = (rb, k') \<Longrightarrow>
      returns rb \<and> mem k' = mem k \<and> prot k' = prot k \<and>
      (\<forall>bs. rb = Ok bs \<longrightarrow> (\<exists>c\<le>n. bs = fetch (mem k) a c))"
    and page_size_law: "page_size P k = (rn, k') \<Longrightarrow>
      returns rn \<and> mem k' = mem k \<and> prot k' = prot k \<and> (\<forall>n. rn = Ok n \<longrightarrow> 0 < n)"
begin

text \<open>The regions found so far are contiguous from the first byte of the range on.\<close>

definition reached :: "usize \<Rightarrow> usize \<Rightarrow> region list \<Rightarrow> usize" where
  "reached address e regions = (if regions = [] then address else min (rg_end (last regions)) e)"

definition code_region :: "region \<Rightarrow> bool" where
  "code_region r \<longleftrightarrow> rg_readable r \<and> rg_executable r \<and> (\<exists>a k k'. region_at P a k = (Ok (Some r), k'))"

definition covering :: "usize \<Rightarrow> usize \<Rightarrow> region list \<Rightarrow> 'k \<Rightarrow> bool" where
  "covering address e regions k \<longleftrightarrow>
     (\<forall>b. address \<le> b \<longrightarrow> b < reached address e regions \<longrightarrow>
        (\<exists>r\<in>set regions. rg_start r \<le> b \<and> b < rg_end r)) \<and>
     (\<forall>r\<in>set regions. rg_start r < e \<and> address < rg_end r \<and> rg_start r < rg_end r \<and>
        code_region r \<and> (\<forall>b. rg_start r \<le> b \<longrightarrow> b < rg_end r \<longrightarrow> prot k b = rg_protection r)) \<and>
     address \<le> reached address e regions"

lemma covering_state: "covering address e regions k \<Longrightarrow> prot k = prot k' \<Longrightarrow> covering address e regions k'"
  by (simp add: covering_def)

lemma covering_Cons:
  assumes c: "covering address e regions k" and lt: "reached address e regions < e"
    and r: "rg_start region \<le> reached address e regions" "reached address e regions < rg_end region"
      "code_region region"
      "\<forall>b. rg_start region \<le> b \<longrightarrow> b < rg_end region \<longrightarrow> prot k b = rg_protection region"
  shows "covering address e (regions @ [region]) k"
proof -
  have "\<exists>r\<in>set (regions @ [region]). rg_start r \<le> b \<and> b < rg_end r"
    if "address \<le> b" "b < reached address e (regions @ [region])" for b
  proof (cases "b < reached address e regions")
    case True
    with c that show ?thesis by (auto simp: covering_def)
  next
    case False
    with r that show ?thesis by (auto simp: reached_def)
  qed
  moreover have "address < rg_end region" "address \<le> reached address e (regions @ [region])"
    using c r(2) lt by (auto simp: covering_def reached_def)
  ultimately show ?thesis using c r lt unfolding covering_def by auto
qed

lemma regions_loop_law:
  assumes "covering address e regions k" "address < e"
  shows "\<exists>r k'. regions_loop P e (reached address e regions) regions k = Some (r, k') \<and> returns r \<and>
     mem k' = mem k \<and> prot k' = prot k \<and>
     (\<forall>rs. r = Ok rs \<longrightarrow> rs \<noteq> [] \<and> covering address e rs k)"
  using assms
proof (induction "e - reached address e regions" arbitrary: regions k rule: less_induct)
  case less
  let ?c = "reached address e regions"
  show ?case
  proof (cases "?c < e")
    case False
    with less.prems show ?thesis by (subst regions_loop.simps) (auto simp: reached_def)
  next
    case lt: True
    obtain r k1 where q: "region_at P ?c k = (r, k1)" by (cases "region_at P ?c k")
    note law = region_at_law [OF q]
    show ?thesis
    proof (cases "\<exists>region. r = Ok (Some region) \<and> rg_readable region \<and> rg_executable region")
      case False
      have "returns r" "mem k1 = mem k" "prot k1 = prot k" using law by simp_all
      moreover have "\<exists>r'. regions_loop P e ?c regions k = Some (r', k1) \<and> (returns r \<longrightarrow> returns r') \<and>
          (\<forall>rs. r' = Ok rs \<longrightarrow> rs \<noteq> [] \<and> rs = regions)"
      proof (cases r)
        case (Ok x)
        with lt q False show ?thesis by (subst regions_loop.simps) (cases x; simp; blast)
      qed (use lt q in \<open>simp_all add: regions_loop.simps [of P e ?c regions k]\<close>)
      ultimately show ?thesis using less.prems(1) by blast
    next
      case True
      then obtain region where r: "r = Ok (Some region)" "rg_readable region" "rg_executable region" by blast
      have c: "covering address e (regions @ [region]) k1"
        using law r q by (intro covering_state [OF covering_Cons [OF less.prems(1) lt]]) (auto simp: code_region_def)
      have step: "regions_loop P e ?c regions k =
          regions_loop P e (reached address e (regions @ [region])) (regions @ [region]) k1"
        using lt q r by (subst regions_loop.simps) (simp add: reached_def)
      have "?c < rg_end region" "reached address e (regions @ [region]) = min (rg_end region) e"
        using law r by (simp_all add: reached_def)
      with lt have "e - reached address e (regions @ [region]) < e - ?c" by (auto simp: min_def)
      from less.hyps [OF this c less.prems(2)] obtain r' k' where
        "regions_loop P e ?c regions k = Some (r', k')" "returns r'" "mem k' = mem k1" "prot k' = prot k1"
        "\<forall>rs. r' = Ok rs \<longrightarrow> rs \<noteq> [] \<and> covering address e rs k1"
        unfolding step by blast
      with law show ?thesis by (metis covering_state)
    qed
  qed
qed

lemma executable_regions_law:
  assumes "executable_regions P address len k = (r, k')"
  shows "returns r \<and> mem k' = mem k \<and> prot k' = prot k \<and>
    (\<forall>rs. r = Ok rs \<longrightarrow> rs \<noteq> [] \<and> covering address (address + len) rs k)"
proof (cases "checked_end address len")
  case (Ok e)
  then have e: "e = address + len" "address < e" by (auto simp: checked_end_def split: if_splits)
  have "covering address e [] k" using e by (simp add: covering_def reached_def)
  from regions_loop_law [OF this e(2)] assms Ok e show ?thesis
    by (auto simp: executable_regions_def reached_def)
qed (use assms in \<open>auto simp: executable_regions_def checked_end_def split: if_splits\<close>)

lemma memory_read_law:
  assumes "memory_read P address limit k = (r, k')"
  shows "returns r \<and> mem k' = mem k \<and> prot k' = prot k \<and>
    (\<forall>bs. r = Ok bs \<longrightarrow> (\<exists>c\<le>limit. bs = fetch (mem k) address c))"
proof -
  obtain re k1 where e: "executable_regions P address limit k = (re, k1)"
    by (cases "executable_regions P address limit k")
  note law = executable_regions_law [OF e]
  show ?thesis
  proof (cases re)
    case (Ok rs)
    with law have "rs \<noteq> []" "address \<le> rg_end (last rs)"
      by (auto simp: covering_def reached_def)
    with assms e Ok have "read_bytes P address (min (rg_end (last rs) - address) limit) k1 = (r, k')"
      by (simp add: memory_read_def usize_sub_def)
    from read_bytes_law [OF this] law show ?thesis by auto
  qed (use assms e law in \<open>auto simp: memory_read_def\<close>)
qed

text \<open>
  The pages of a range. \<open>fits k pages\<close> says that the protections recorded for them, those of
  readable and executable regions, are the current ones in state \<open>k\<close>.
\<close>

definition fits :: "'k \<Rightarrow> page_range list \<Rightarrow> bool" where
  "fits k pages \<longleftrightarrow> (\<forall>page\<in>set pages. (\<forall>b\<in>page_bytes page. prot k b = pg_protection page) \<and>
     (\<exists>r. code_region r \<and> rg_protection r = pg_protection page))"

text \<open>The page ranges of the regions cover the range and record the right protections.\<close>

definition touches :: "usize \<Rightarrow> usize \<Rightarrow> page_range \<Rightarrow> bool" where
  "touches a e page \<longleftrightarrow> pg_address page < e \<and> a < pg_address page + pg_length page"

lemma page_range_of_law:
  assumes "0 < psize" "rg_start r < e" "a < rg_end r" "a < e" "rg_start r < rg_end r"
  shows "\<exists>page. page_range_of psize a ((e + (psize - 1)) div psize * psize) r = Ok page \<and>
    pg_protection page = rg_protection r \<and> page_bytes page \<subseteq> {rg_start r ..< rg_end r} \<and>
    {rg_start r ..< rg_end r} \<inter> {a ..< e} \<subseteq> page_bytes page \<and> touches a e page"
proof -
  define lpe where "lpe = (e + (psize - 1)) div psize * psize"
  define f where "f = a div psize * psize"
  have up: "e \<le> lpe" unfolding lpe_def using assms(1) by (rule round_up_ge)
  have down: "f \<le> a" unfolding f_def by (rule div_times_less_eq_dividend)
  have "max (rg_start r) f \<le> min (rg_end r) lpe"
    using down up assms(2-5) by simp
  then show ?thesis unfolding lpe_def [symmetric] page_range_of_def f_def [symmetric]
    using up down assms by (auto simp: usize_sub_def page_bytes_def touches_def Let_def)
qed

lemma map_result_law:
  assumes "\<forall>x\<in>set xs. \<exists>y. f x = Ok y \<and> R x y"
  shows "\<exists>ys. map_result f xs = Ok ys \<and> (\<forall>x\<in>set xs. \<exists>y\<in>set ys. R x y) \<and> (\<forall>y\<in>set ys. \<exists>x\<in>set xs. R x y)"
  using assms by (induction xs) fastforce+

lemma pages_law:
  assumes c: "covering a e regions k" and ne: "regions \<noteq> []" "e \<le> rg_end (last regions)"
    and "0 < psize" "a < e"
  shows "\<exists>pages. map_result (page_range_of psize a ((e + (psize - 1)) div psize * psize)) regions = Ok pages \<and>
    fits k pages \<and> {a ..< e} \<subseteq> pages_bytes pages \<and> (\<forall>page\<in>set pages. touches a e page)"
proof -
  let ?R = "\<lambda>r page. pg_protection page = rg_protection r \<and> page_bytes page \<subseteq> {rg_start r ..< rg_end r} \<and>
    {rg_start r ..< rg_end r} \<inter> {a ..< e} \<subseteq> page_bytes page \<and> touches a e page"
  have "\<forall>r\<in>set regions. \<exists>page. page_range_of psize a ((e + (psize - 1)) div psize * psize) r = Ok page \<and> ?R r page"
    using c assms(4,5) by (intro ballI page_range_of_law) (auto simp: covering_def)
  from map_result_law [OF this] obtain pages where
    p: "map_result (page_range_of psize a ((e + (psize - 1)) div psize * psize)) regions = Ok pages"
    "\<forall>r\<in>set regions. \<exists>page\<in>set pages. ?R r page" "\<forall>page\<in>set pages. \<exists>r\<in>set regions. ?R r page" by blast
  have "fits k pages"
    using p(3) c unfolding fits_def covering_def
    by (metis atLeastLessThan_iff subsetD)
  moreover have "\<forall>page\<in>set pages. touches a e page" using p(3) by blast
  moreover have "b \<in> pages_bytes pages" if b: "a \<le> b" "b < e" for b
  proof -
    have "reached a e regions = e" using ne by (simp add: reached_def min_def)
    with c b obtain r where "r \<in> set regions" "rg_start r \<le> b" "b < rg_end r"
      by (auto simp: covering_def)
    with p(2) b show ?thesis by (fastforce simp: pages_bytes_def)
  qed
  ultimately show ?thesis using p(1) by auto
qed

text \<open>A page range that \<open>replace\<close> cuts out of a region at the system's page size.\<close>

definition granular :: "usize \<Rightarrow> page_range \<Rightarrow> bool" where
  "granular a page \<longleftrightarrow> (\<exists>psize k k' n r. page_size P k = (Ok psize, k') \<and> code_region r \<and>
     page_range_of psize a (n * psize) r = Ok page)"

lemma map_result_from: "map_result f xs = Ok ys \<Longrightarrow> y \<in> set ys \<Longrightarrow> \<exists>x\<in>set xs. f x = Ok y"
  by (induction xs arbitrary: ys) (auto simp: result_simps)

text \<open>The reading calls of \<open>replace\<close>, one after the other.\<close>

definition unchanged :: "'k \<Rightarrow> 'k \<Rightarrow> bool" where
  "unchanged k k' \<longleftrightarrow> mem k' = mem k \<and> prot k' = prot k"

lemma replace_reads:
  assumes "length expected = length replacement"
  shows "(\<exists>r k'. replace_with P rewrite a expected replacement k = (r, k') \<and> returns r \<and> r \<noteq> Ok () \<and> unchanged k k') \<or>
    (\<exists>pages k'. replace_with P rewrite a expected replacement k = rewrite a expected replacement pages k' \<and>
       unchanged k k' \<and> fits k' pages \<and> {a ..< a + length expected} \<subseteq> pages_bytes pages \<and>
       (\<forall>page\<in>set pages. touches a (a + length expected) page \<and> granular a page) \<and>
       expected = fetch (mem k') a (length expected))"
    (is "?stop \<or> ?go")
proof (cases "checked_end a (length expected)")
  case (Ok e)
  then have e: "e = a + length expected" "a < e" "e \<le> usize_max"
    by (auto simp: checked_end_def split: if_splits)
  obtain r1 k1 where q1: "executable_regions P a (length expected) k = (r1, k1)"
    by (cases "executable_regions P a (length expected) k")
  note l1 = executable_regions_law [OF q1]
  show ?thesis
  proof (cases "\<exists>rs. r1 = Ok rs \<and> e \<le> rg_end (last rs)")
    case False
    with assms Ok q1 l1 have ?stop
      by (cases r1) (auto simp: replace_with_def unchanged_def)
    then show ?thesis ..
  next
    case True
    then obtain rs where rs: "r1 = Ok rs" "e \<le> rg_end (last rs)" by blast
    obtain r2 k2 where q2: "read_bytes P a (length expected) k1 = (r2, k2)"
      by (cases "read_bytes P a (length expected) k1")
    note l2 = read_bytes_law [OF q2]
    show ?thesis
    proof (cases "r2 = Ok expected")
      case False
      with assms Ok q1 l1 rs q2 l2 have ?stop
        by (cases r2) (auto simp: replace_with_def unchanged_def not_less)
      then show ?thesis ..
    next
      case same: True
      obtain r3 k3 where q3: "page_size P k2 = (r3, k3)" by (cases "page_size P k2")
      note l3 = page_size_law [OF q3]
      show ?thesis
      proof (cases "\<exists>n. r3 = Ok n \<and> e + (n - 1) \<le> usize_max")
        case False
        with assms Ok q1 l1 rs q2 l2 same q3 l3 have ?stop
          by (cases r3) (auto simp: replace_with_def unchanged_def not_less usize_sub_def checked_add_def Suc_le_eq)
        then show ?thesis ..
      next
        case True
        then obtain n where n: "r3 = Ok n" "e + (n - 1) \<le> usize_max" by blast
        with l3 have pos: "0 < n" by simp
        have c: "covering a e rs k3" using l1 l2 l3 rs e by (auto intro: covering_state)
        from pages_law [OF c _ rs(2) pos e(2)] l1 rs(1) obtain pages where
          p: "map_result (page_range_of n a ((e + (n - 1)) div n * n)) rs = Ok pages"
          "fits k3 pages" "{a ..< e} \<subseteq> pages_bytes pages" "\<forall>page\<in>set pages. touches a e page" by auto
        have "\<forall>page\<in>set pages. granular a page"
          using map_result_from [OF p(1)] c q3 n(1) unfolding granular_def covering_def by metis
        moreover have "expected = fetch (mem k3) a (length expected)"
          using l1 l2 l3 same by (auto)
        ultimately have ?go using assms Ok q1 l1 rs q2 l2 same q3 l3 n pos p e
          by (intro exI [of _ pages] exI [of _ k3])
            (simp add: replace_with_def unchanged_def usize_sub_def checked_add_def Suc_le_eq)
        then show ?thesis ..
      qed
    qed
  qed
qed (use assms in \<open>auto simp: replace_with_def unchanged_def checked_end_def split: if_splits\<close>)

end

locale code_platform = code_reader P mem prot
  for P :: "'k platform" and mem :: "'k \<Rightarrow> memory" and prot :: "'k \<Rightarrow> usize \<Rightarrow> nat" +
  fixes can_write :: "nat \<Rightarrow> bool"
    and grant :: "nat \<Rightarrow> nat"
  assumes protect_law: "code_region region \<Longrightarrow> rg_protection region = pg_protection page \<Longrightarrow>
      protect P page w k = (ru, k') \<Longrightarrow>
      returns ru \<and> mem k' = mem k \<and>
      (\<forall>b. b \<notin> page_bytes page \<longrightarrow> prot k' b = prot k b) \<and>
      (\<forall>b. ru = Ok () \<longrightarrow> b \<in> page_bytes page \<longrightarrow>
         prot k' b = (if w then grant (pg_protection page) else pg_protection page))"
    and flush_law: "flush P a n k = (ru, k') \<Longrightarrow> returns ru \<and> mem k' = mem k \<and> prot k' = prot k"
    and store_law: "(\<And>b. a \<le> b \<Longrightarrow> b < a + length bytes \<Longrightarrow> can_write (prot k b)) \<Longrightarrow>
      mem (store P a bytes k) = write_bytes (mem k) a bytes \<and> prot (store P a bytes k) = prot k"
    and grant_law: "region_at P a k = (Ok (Some region), k') \<Longrightarrow> rg_readable region \<Longrightarrow> rg_executable region \<Longrightarrow>
      can_write (grant (rg_protection region))"
begin

text \<open>Changing the protection of pages whose recorded protection is the current one.\<close>

definition relaxed :: "bool \<Rightarrow> usize set \<Rightarrow> (usize \<Rightarrow> nat) \<Rightarrow> (usize \<Rightarrow> nat) \<Rightarrow> usize \<Rightarrow> nat" where
  "relaxed w B base now b = (if b \<in> B then (if w then grant (base b) else base b) else now b)"

lemma protect_page:
  assumes "protect P page w k1 = (r, k')" "fits k [page]"
  shows "returns r \<and> mem k' = mem k1 \<and> (\<forall>b. b \<notin> page_bytes page \<longrightarrow> prot k' b = prot k1 b) \<and>
    (r = Ok () \<longrightarrow> prot k' = relaxed w (page_bytes page) (prot k) (prot k1))"
proof -
  from assms(2) obtain region where "code_region region" "rg_protection region = pg_protection page"
    by (auto simp: fits_def)
  from protect_law [OF this assms(1)] assms(2) show ?thesis by (auto simp: fits_def relaxed_def fun_eq_iff)
qed

lemma relaxed_twice:
  "relaxed w B base (relaxed w A base now) = relaxed w (A \<union> B) base now"
  by (auto simp: relaxed_def fun_eq_iff)

lemma fits_Cons: "fits k (page # pages) \<longleftrightarrow> fits k [page] \<and> fits k pages"
  by (auto simp: fits_def)

lemma protect_or_fatal_law:
  assumes "fits k pages"
  shows "leaves (protect_or_fatal P w pages k1) (\<lambda>r k'. (r = Ok () \<or> r = Aborts) \<and>
    (r = Ok () \<longrightarrow> mem k' = mem k1 \<and> prot k' = relaxed w (pages_bytes pages) (prot k) (prot k1)))"
  using assms
proof (induction pages arbitrary: k1)
  case Nil
  then show ?case by (simp add: relaxed_def fun_eq_iff)
next
  case (Cons page pages)
  obtain r k2 where q: "protect P page w k1 = (r, k2)" by (cases "protect P page w k1")
  from Cons.prems have f: "fits k [page]" "fits k pages" by (simp_all add: fits_Cons [of k page pages])
  note law = protect_page [OF q f(1)]
  show ?case
  proof (cases r)
    case (Ok u)
    with q law Cons.IH [OF f(2), of k2] show ?thesis
      by (auto simp: relaxed_twice elim!: leaves_mono)
  qed (use q law in auto)
qed

lemma lock_pages_law:
  assumes "fits k pages"
  shows "leaves (lock_pages P pages k1) (\<lambda>r k'. returns r \<and> mem k' = mem k1 \<and>
    (\<forall>b. b \<notin> pages_bytes pages \<longrightarrow> prot k' b = prot k1 b) \<and>
    (r = Ok () \<longrightarrow> prot k' = relaxed False (pages_bytes pages) (prot k) (prot k1)))"
  using assms
proof (induction pages arbitrary: k1)
  case Nil
  then show ?case by (simp add: relaxed_def fun_eq_iff)
next
  case (Cons page pages)
  obtain r k2 where q: "protect P page False k1 = (r, k2)" by (cases "protect P page False k1")
  from Cons.prems have f: "fits k [page]" "fits k pages" by (simp_all add: fits_Cons [of k page pages])
  note law = protect_page [OF q f(1)]
  show ?case
  proof (cases r)
    case (Ok u)
    with q law Cons.IH [OF f(2), of k2] show ?thesis
      by (auto simp: relaxed_twice elim!: leaves_mono)
  qed (use q law in auto)
qed

text \<open>
  Making the pages writable succeeds for all of them; or it fails at one page, and every byte
  outside that page has the protection it had.
\<close>

definition failed_page :: "('k \<Rightarrow> 'k \<Rightarrow> bool)" where
  "failed_page k k' \<longleftrightarrow> (\<exists>page k1 e k2. protect P page True k1 = (Err e, k2) \<and>
     (\<forall>b. b \<notin> page_bytes page \<longrightarrow> prot k' b = prot k b))"

lemma unlock_pages_law:
  assumes "fits k (before @ pages)" "mem k1 = mem k"
    "prot k1 = relaxed True (pages_bytes before) (prot k) (prot k)"
  shows "leaves (unlock_pages P before pages k1) (\<lambda>r k'. settles r \<and>
    (r = Ok () \<longrightarrow> mem k' = mem k \<and> prot k' = relaxed True (pages_bytes (before @ pages)) (prot k) (prot k)) \<and>
    (\<forall>e. r = Err e \<longrightarrow> mem k' = mem k \<and> failed_page k k'))"
  using assms
proof (induction pages arbitrary: before k1)
  case (Cons page pages)
  obtain r k2 where q: "protect P page True k1 = (r, k2)" by (cases "protect P page True k1")
  from Cons.prems have f: "fits k [page]" "fits k before" "fits k ((before @ [page]) @ pages)"
    by (auto simp: fits_def)
  note law = protect_page [OF q f(1)]
  show ?case
  proof (cases r)
    case (Ok u)
    with law Cons.prems have "mem k2 = mem k"
      "prot k2 = relaxed True (pages_bytes (before @ [page])) (prot k) (prot k)"
      by (auto simp: relaxed_twice)
    from Cons.IH [OF f(3) this] q Ok show ?thesis by simp
  next
    case (Err e)
    have m: "mem k2 = mem k" using law Cons.prems by simp
    have "leaves (restore_permissions P before k2) (\<lambda>r k'. (r = Ok () \<or> r = Aborts) \<and>
        (r = Ok () \<longrightarrow> mem k' = mem k \<and> failed_page k k'))"
      unfolding restore_permissions_def
    proof (rule leaves_mono [OF protect_or_fatal_law [OF f(2), of False k2]])
      fix r' k'
      assume "(r' = Ok () \<or> r' = Aborts) \<and> (r' = Ok () \<longrightarrow> mem k' = mem k2 \<and>
        prot k' = relaxed False (pages_bytes before) (prot k) (prot k2))"
      moreover have "relaxed False (pages_bytes before) (prot k) (prot k2) b = prot k b"
        if "b \<notin> page_bytes page" for b
        using that law Cons.prems(3) by (auto simp: relaxed_def)
      ultimately show "(r' = Ok () \<or> r' = Aborts) \<and> (r' = Ok () \<longrightarrow> mem k' = mem k \<and> failed_page k k')"
        using m q Err by (auto simp: failed_page_def)
    qed
    with q Err show ?thesis
      by (cases "restore_permissions P before k2") auto
  qed (use q law in auto)
qed (auto simp: relaxed_def fun_eq_iff)

text \<open>Bytes inside the pages are writable while the pages are relaxed.\<close>

lemma store_relaxed:
  assumes "prot k1 = relaxed True (pages_bytes pages) (prot k) base"
    "{a ..< a + length bs} \<subseteq> pages_bytes pages" "fits k pages"
  shows "mem (store P a bs k1) = write_bytes (mem k1) a bs \<and> prot (store P a bs k1) = prot k1"
proof (rule store_law)
  fix b
  assume "a \<le> b" "b < a + length bs"
  with assms(2) obtain page where page: "page \<in> set pages" "b \<in> page_bytes page" and b: "b \<in> pages_bytes pages"
    by (fastforce simp: pages_bytes_def)
  with assms(3) obtain r where "code_region r" "rg_protection r = pg_protection page" "prot k b = pg_protection page"
    by (fastforce simp: fits_def)
  then have "can_write (grant (prot k b))" unfolding code_region_def by (metis grant_law)
  with assms(1) b show "can_write (prot k1 b)" by (simp add: relaxed_def)
qed

lemma relaxed_back:
  "(\<forall>b. b \<notin> B \<longrightarrow> now b = base b) \<Longrightarrow> relaxed False B base (relaxed True B base now) = base"
  by (auto simp: relaxed_def fun_eq_iff)

lemma roll_back_law:
  assumes f: "fits k pages" and sub: "{a ..< a + length original} \<subseteq> pages_bytes pages"
    and o: "\<forall>b. b \<notin> pages_bytes pages \<longrightarrow> prot k1 b = prot k b"
    and m: "mem k1 = write_bytes (mem k) a bs" "length bs = length original"
      "original = fetch (mem k) a (length original)"
  shows "leaves (roll_back P a original pages error k1) (\<lambda>r k'. (r = Err error \<or> r = Aborts) \<and>
    (r = Err error \<longrightarrow> mem k' = mem k \<and> prot k' = prot k))"
proof -
  obtain r1 k2 where q1: "protect_or_fatal P True pages k1 = (r1, k2)"
    by (cases "protect_or_fatal P True pages k1")
  note l1 = leavesD [OF protect_or_fatal_law [OF f] q1]
  show ?thesis
  proof (cases "r1 = Ok ()")
    case True
    with l1 have p2: "prot k2 = relaxed True (pages_bytes pages) (prot k) (prot k1)"
      and m2: "mem k2 = mem k1" by simp_all
    let ?k3 = "store P a original k2"
    have s: "mem ?k3 = mem k" "prot ?k3 = prot k2"
      using store_relaxed [OF p2 sub f] m2 m by (simp_all add: write_bytes_back)
    obtain r4 k4 where q4: "flush P a (length original) ?k3 = (r4, k4)"
      by (cases "flush P a (length original) ?k3")
    note l4 = flush_law [OF q4]
    obtain r5 k5 where q5: "restore_permissions P pages k4 = (r5, k5)"
      by (cases "restore_permissions P pages k4")
    from leavesD [OF protect_or_fatal_law [OF f] q5 [unfolded restore_permissions_def]]
    have l5: "(r5 = Ok () \<or> r5 = Aborts) \<and> (r5 = Ok () \<longrightarrow> mem k5 = mem k \<and> prot k5 = prot k)"
      using s l4 p2 o by (auto simp: relaxed_back)
    show ?thesis
      using q1 True q4 l4 q5 l5
      by (cases r4) (auto simp: roll_back_def)
  next
    case False
    with l1 q1 show ?thesis by (auto simp: roll_back_def)
  qed
qed

lemma rewrite_pages_law:
  assumes f: "fits k pages" and sub: "{a ..< a + length original} \<subseteq> pages_bytes pages"
    and len: "length replacement = length original"
    and orig: "original = fetch (mem k) a (length original)"
  shows "leaves (rewrite_pages P a original replacement pages k) (\<lambda>r k'. settles r \<and>
    (r = Ok () \<longrightarrow> mem k' = write_bytes (mem k) a replacement \<and> prot k' = prot k) \<and>
    (\<forall>e. r = Err e \<longrightarrow> mem k' = mem k \<and> (prot k' = prot k \<or> failed_page k k')))"
proof -
  obtain r1 k1 where q1: "unlock_pages P [] pages k = (r1, k1)" by (cases "unlock_pages P [] pages k")
  have "prot k = relaxed True (pages_bytes []) (prot k) (prot k)" by (simp add: relaxed_def fun_eq_iff)
  from leavesD [OF unlock_pages_law [OF _ refl this] q1] f
  have l1: "settles r1" "r1 = Ok () \<Longrightarrow> mem k1 = mem k \<and>
      prot k1 = relaxed True (pages_bytes pages) (prot k) (prot k)"
    "\<And>e. r1 = Err e \<Longrightarrow> mem k1 = mem k \<and> failed_page k k1" by auto
  show ?thesis
  proof (cases "r1 = Ok ()")
    case False
    with q1 l1 show ?thesis by (cases r1) (auto simp: rewrite_pages_def)
  next
    case True
    let ?k2 = "store P a replacement k1"
    have s: "mem ?k2 = write_bytes (mem k) a replacement" "prot ?k2 = prot k1"
      using store_relaxed [of k1 pages k "prot k" a replacement] l1(2) True sub len f by simp_all
    obtain r3 k3 where q3: "flush P a (length replacement) ?k2 = (r3, k3)"
      by (cases "flush P a (length replacement) ?k2")
    note l3 = flush_law [OF q3]
    obtain r4 k4 where q4: "lock_pages P pages k3 = (r4, k4)" by (cases "lock_pages P pages k3")
    note l4 = leavesD [OF lock_pages_law [OF f] q4]
    have out: "\<forall>b. b \<notin> pages_bytes pages \<longrightarrow> prot k1 b = prot k b"
      using l1(2) True by (simp add: relaxed_def)
    have k3: "mem k3 = write_bytes (mem k) a replacement" "\<forall>b. b \<notin> pages_bytes pages \<longrightarrow> prot k3 b = prot k b"
      using l3 s out by simp_all
    have k4: "mem k4 = write_bytes (mem k) a replacement" "\<forall>b. b \<notin> pages_bytes pages \<longrightarrow> prot k4 b = prot k b"
      using l4 k3 by simp_all
    have fin: "r4 = Ok () \<Longrightarrow> prot k4 = prot k"
      using l4 l3 s l1(2) True by (simp add: relaxed_back)
    have rolled: "leaves (roll_back P a original pages e k') (\<lambda>r k'. settles r \<and>
        (r = Ok () \<longrightarrow> mem k' = write_bytes (mem k) a replacement \<and> prot k' = prot k) \<and>
        (\<forall>e. r = Err e \<longrightarrow> mem k' = mem k \<and> (prot k' = prot k \<or> failed_page k k')))"
      if "k' = k3 \<or> k' = k4" for e k'
      by (rule leaves_mono [OF roll_back_law [OF f sub _ _ len orig]]) (use that k3 k4 in auto)
    from q1 True have step: "rewrite_pages P a original replacement pages k =
        on_error (andThen (r3, k3) (\<lambda>_. lock_pages P pages)) (roll_back P a original pages)"
      by (simp add: rewrite_pages_def q3)
    show ?thesis
    proof (cases r3)
      case (Ok u)
      with step q4 k4 fin rolled [of k4] l4 show ?thesis by (cases r4) auto
    next
      case (Err e)
      with step rolled [of k3] show ?thesis by simp
    qed (use l3 in simp_all)
  qed
qed

theorem replace_law:
  "leaves (replace P a expected replacement k) (\<lambda>r k'. settles r \<and>
    (r = Ok () \<longrightarrow> length replacement = length expected \<and> fetch (mem k) a (length expected) = expected \<and>
       mem k' = write_bytes (mem k) a replacement \<and> prot k' = prot k) \<and>
    (\<forall>e. r = Err e \<longrightarrow> mem k' = mem k \<and> (prot k' = prot k \<or> failed_page k k')))"
proof (cases "length expected = length replacement")
  case False
  then show ?thesis by (simp add: replace_def replace_with_def)
next
  case True
  from replace_reads [OF True, of "rewrite_pages P" a k] show ?thesis
  proof
    assume "\<exists>r k'. replace_with P (rewrite_pages P) a expected replacement k = (r, k') \<and> returns r \<and> r \<noteq> Ok () \<and> unchanged k k'"
    then show ?thesis by (auto simp: unchanged_def settles_def replace_def)
  next
    assume "\<exists>pages k'. replace_with P (rewrite_pages P) a expected replacement k = rewrite_pages P a expected replacement pages k' \<and>
       unchanged k k' \<and> fits k' pages \<and> {a ..< a + length expected} \<subseteq> pages_bytes pages \<and>
       (\<forall>page\<in>set pages. touches a (a + length expected) page \<and> granular a page) \<and>
       expected = fetch (mem k') a (length expected)"
    then obtain pages k1 where step: "replace_with P (rewrite_pages P) a expected replacement k = rewrite_pages P a expected replacement pages k1"
      and u: "unchanged k k1" and f: "fits k1 pages" "{a ..< a + length expected} \<subseteq> pages_bytes pages"
        "expected = fetch (mem k1) a (length expected)" by blast
    have "failed_page k1 k' \<Longrightarrow> failed_page k k'" for k' using u by (auto simp: failed_page_def unchanged_def)
    with u True f(3) show ?thesis unfolding replace_def step
      by (intro leaves_mono [OF rewrite_pages_law [OF f(1,2) True [symmetric] f(3)]])
        (auto simp: unchanged_def)
  qed
qed

end

end
