(* ===== verification/Exec_Pages.thy ===== *)
theory Exec_Pages
  imports Code_Memory
begin

text \<open>
  Pages for saved function entries (src/executable.rs) and the search for one close to a function
  (src/executable/unix.rs, src/executable/windows.rs), with the query for shadow stacks
  (src/executable/linux.rs, src/executable/macos.rs, src/executable/windows.rs).
\<close>

section \<open>Pages\<close>

definition CAPACITY :: usize where
  "CAPACITY = 16384"

definition REACH_X86 :: usize where
  "REACH_X86 = 2 ^ 30"

definition REACH_ARM64 :: usize where
  "REACH_ARM64 = 2 ^ 27 - CAPACITY"

text \<open>\<^verbatim>\<open>platform::allocate\<close>, \<^verbatim>\<open>seal\<close>, \<^verbatim>\<open>release\<close>, \<^verbatim>\<open>shadow_stack\<close>, and the raw copy.\<close>

record 'k page_source =
  ps_allocate :: "usize \<Rightarrow> (usize, 'k) call"
  ps_seal :: "usize \<Rightarrow> (unit, 'k) call"
  ps_release :: "usize \<Rightarrow> (unit, 'k) call"
  ps_shadow_stack :: "(bool, 'k) call"
  ps_store :: "usize \<Rightarrow> u8 list \<Rightarrow> 'k \<Rightarrow> 'k"

definition check_shadow_stack :: "bool \<Rightarrow> unit result" where
  "check_shadow_stack enabled = (if enabled then Err ShadowStack else Ok ())"

definition check_call_bridge :: "'k page_source \<Rightarrow> (unit, 'k) call" where
  "check_call_bridge G k = andThen (ps_shadow_stack G k) (\<lambda>enabled k. (check_shadow_stack enabled, k))"

record executable =
  ex_address :: usize
  ex_sealed :: bool

definition near :: "'k page_source \<Rightarrow> usize \<Rightarrow> (executable, 'k) call" where
  "near G source k =
     (if source = 0 \<or> isize_max - CAPACITY < source then (Err InvalidAddress, k)
      else andThen (ps_allocate G source k) (\<lambda>address k.
             (Ok \<lparr>ex_address = address, ex_sealed = False\<rparr>, k)))"

text \<open>\<^verbatim>\<open>publish\<close> takes \<^verbatim>\<open>&mut self\<close>: the page is returned beside the result.\<close>

definition publish :: "'k page_source \<Rightarrow> u8 list \<Rightarrow> executable \<Rightarrow> 'k \<Rightarrow> (unit result \<times> executable) \<times> 'k" where
  "publish G bytes page k =
     (if ex_sealed page \<or> bytes = [] \<or> CAPACITY < length bytes then ((Err InvalidRange, page), k)
      else
        let k1 = ps_store G (ex_address page) bytes k in
        case ps_seal G (ex_address page) k1 of (r, k2) \<Rightarrow> ((r, page\<lparr>ex_sealed := True\<rparr>), k2))"

text \<open>\<^verbatim>\<open>Drop for Executable\<close>: a page that cannot be freed ends the process.\<close>

definition drop_page :: "'k page_source \<Rightarrow> executable \<Rightarrow> (unit, 'k) call" where
  "drop_page G page k = or_fatal (ps_release G (ex_address page) k)"

section \<open>Unix\<close>

record 'k mman =
  mm_map :: "usize \<Rightarrow> 'k \<Rightarrow> usize option \<times> 'k"
  mm_protect :: "usize \<Rightarrow> 'k \<Rightarrow> int \<times> 'k"
  mm_unmap :: "usize \<Rightarrow> 'k \<Rightarrow> int \<times> 'k"
  mm_errno :: "'k \<Rightarrow> int"
  mm_cache_flush :: "usize \<Rightarrow> nat \<Rightarrow> 'k \<Rightarrow> 'k"

definition reserve_unix :: "'k mman \<Rightarrow> usize \<Rightarrow> 'k \<Rightarrow> usize option \<times> 'k" where
  "reserve_unix M hint k = mm_map M hint k"

definition seal_unix :: "'k mman \<Rightarrow> usize \<Rightarrow> (unit, 'k) call" where
  "seal_unix M address k =
     (case mm_protect M address k of (result, k') \<Rightarrow>
        if result \<noteq> 0 then (Err (Os ''protect trampoline'' (mm_errno M k')), k')
        else (Ok (), mm_cache_flush M address CAPACITY k'))"

definition release_unix :: "'k mman \<Rightarrow> usize \<Rightarrow> (unit, 'k) call" where
  "release_unix M address k =
     (case mm_unmap M address k of (result, k') \<Rightarrow>
        if result \<noteq> 0 then (Err (Os ''free trampoline'' (mm_errno M k')), k') else (Ok (), k'))"

definition search_hint :: "usize \<Rightarrow> usize \<Rightarrow> nat \<Rightarrow> usize" where
  "search_hint reach source step =
     (let distance = div_ceil step 2 * (reach div 64);
          hint = (if step mod 2 = 0 then saturating_add source distance
                  else saturating_sub source distance)
      in hint div CAPACITY * CAPACITY)"

primrec search_steps ::
  "usize \<Rightarrow> (usize \<Rightarrow> 'k \<Rightarrow> usize option \<times> 'k) \<Rightarrow> (usize \<Rightarrow> (unit, 'k) call) \<Rightarrow> usize \<Rightarrow> nat list \<Rightarrow> (usize, 'k) call" where
  "search_steps reach reserve release source [] k = (Err InsufficientSpace, k)"
| "search_steps reach reserve release source (step # steps) k =
     (let hint = search_hint reach source step in
      if hint < CAPACITY \<or> isize_max - CAPACITY < hint
      then search_steps reach reserve release source steps k
      else case reserve hint k of
        (Some address, k1) \<Rightarrow>
          if abs_diff address source \<le> reach - CAPACITY then (Ok address, k1)
          else andThen (release address k1) (\<lambda>_. search_steps reach reserve release source steps)
      | (None, k1) \<Rightarrow> search_steps reach reserve release source steps k1)"

definition search_unix ::
  "usize \<Rightarrow> (usize \<Rightarrow> 'k \<Rightarrow> usize option \<times> 'k) \<Rightarrow> (usize \<Rightarrow> (unit, 'k) call) \<Rightarrow> usize \<Rightarrow> (usize, 'k) call" where
  "search_unix reach reserve release source k = search_steps reach reserve release source [0..<129] k"

text \<open>Apple Silicon falls back to a distant page.\<close>

definition fallback_page :: "(usize \<Rightarrow> 'k \<Rightarrow> usize option \<times> 'k) \<Rightarrow> usize result \<times> 'k \<Rightarrow> usize result \<times> 'k" where
  "fallback_page reserve found =
     (case found of
        (Err InsufficientSpace, k) \<Rightarrow>
          (case reserve 0 k of
             (Some address, k') \<Rightarrow> (Ok address, k')
           | (None, k') \<Rightarrow> (Err InsufficientSpace, k'))
      | other \<Rightarrow> other)"

definition allocate_unix :: "usize \<Rightarrow> 'k mman \<Rightarrow> usize \<Rightarrow> (usize, 'k) call" where
  "allocate_unix reach M source k = search_unix reach (reserve_unix M) (release_unix M) source k"

definition allocate_apple_silicon :: "'k mman \<Rightarrow> usize \<Rightarrow> (usize, 'k) call" where
  "allocate_apple_silicon M source k =
     fallback_page (reserve_unix M) (search_unix REACH_ARM64 (reserve_unix M) (release_unix M) source k)"

section \<open>Windows\<close>

definition GRANULARITY :: usize where
  "GRANULARITY = 65536"

text \<open>\<^verbatim>\<open>div_ceil(GRANULARITY) * GRANULARITY\<close>, with the overflow check of the product.\<close>

definition align_up :: "usize \<Rightarrow> usize result" where
  "align_up a =
     (let product = div_ceil a GRANULARITY * GRANULARITY
      in if product \<le> usize_max then Ok product else Panics ''attempt to multiply with overflow'')"

lemma align_up_ge: "align_up a = Ok b \<Longrightarrow> a \<le> b"
proof -
  assume "align_up a = Ok b"
  then have b: "b = div_ceil a GRANULARITY * GRANULARITY" by (auto simp: align_up_def Let_def split: if_splits)
  show "a \<le> b" unfolding b using div_ceil_ge [of GRANULARITY a] by (simp add: GRANULARITY_def)
qed

function search_windows_loop ::
  "(usize \<Rightarrow> (usize \<times> bool, 'k) call) \<Rightarrow> (usize \<Rightarrow> 'k \<Rightarrow> usize option \<times> 'k) \<Rightarrow> usize \<Rightarrow> usize \<Rightarrow> (usize, 'k) call" where
  "search_windows_loop region reserve upper cursor k =
     (if cursor \<le> saturating_sub upper CAPACITY
      then andThen (region cursor k) (\<lambda>(e, free) k1.
        if e \<le> cursor then (Err InvalidRange, k1)
        else if free \<and> CAPACITY \<le> e - cursor
        then case reserve cursor k1 of
               (Some address, k2) \<Rightarrow> (Ok address, k2)
             | (None, k2) \<Rightarrow> search_windows_loop region reserve upper (cursor + GRANULARITY) k2
        else andThen (align_up e, k1) (\<lambda>cursor'. search_windows_loop region reserve upper cursor'))
      else (Err InsufficientSpace, k))"
  by pat_completeness auto
termination
proof (relation "measure (\<lambda>(region, reserve, upper, cursor, k). Suc upper - cursor)")
qed (auto simp: GRANULARITY_def saturating_sub_def CAPACITY_def dest!: align_up_ge)

declare search_windows_loop.simps [simp del]

definition search_windows ::
  "usize \<Rightarrow> (usize \<Rightarrow> (usize \<times> bool, 'k) call) \<Rightarrow> (usize \<Rightarrow> 'k \<Rightarrow> usize option \<times> 'k) \<Rightarrow> usize \<Rightarrow> (usize, 'k) call" where
  "search_windows reach region reserve source k =
     (let lower = max (saturating_sub source reach) GRANULARITY;
          upper = min (saturating_add source reach) isize_max
      in andThen (align_up lower, k) (\<lambda>cursor. search_windows_loop region reserve upper cursor))"

text \<open>The calls into kernel32; a query reports the base, the size and the state of a region.\<close>

record 'k kernel32 =
  k32_query :: "usize \<Rightarrow> 'k \<Rightarrow> (usize \<times> usize \<times> nat) option \<times> 'k"
  k32_alloc :: "usize \<Rightarrow> 'k \<Rightarrow> usize \<times> 'k"
  k32_protect :: "usize \<Rightarrow> 'k \<Rightarrow> int \<times> 'k"
  k32_flush :: "usize \<Rightarrow> nat \<Rightarrow> 'k \<Rightarrow> int \<times> 'k"
  k32_free :: "usize \<Rightarrow> 'k \<Rightarrow> int \<times> 'k"
  k32_error :: "'k \<Rightarrow> int"

definition region_windows :: "'k kernel32 \<Rightarrow> usize \<Rightarrow> (usize \<times> bool, 'k) call" where
  "region_windows W address k =
     (case k32_query W address k of
        (None, k') \<Rightarrow> (Err (Os ''query trampoline memory'' (k32_error W k')), k')
      | (Some (base, bytes, state), k') \<Rightarrow> (Ok (saturating_add base bytes, state = 65536), k'))"

definition reserve_windows :: "'k kernel32 \<Rightarrow> usize \<Rightarrow> 'k \<Rightarrow> usize option \<times> 'k" where
  "reserve_windows W address k =
     (case k32_alloc W address k of (page, k') \<Rightarrow> (if page = 0 then None else Some page, k'))"

definition seal_windows :: "'k kernel32 \<Rightarrow> usize \<Rightarrow> (unit, 'k) call" where
  "seal_windows W address k =
     (case k32_protect W address k of (result, k1) \<Rightarrow>
        if result = 0 then (Err (Os ''protect trampoline'' (k32_error W k1)), k1)
        else case k32_flush W address CAPACITY k1 of (result, k2) \<Rightarrow>
          if result = 0 then (Err (Os ''flush trampoline'' (k32_error W k2)), k2)
          else (Ok (), k2))"

definition release_windows :: "'k kernel32 \<Rightarrow> usize \<Rightarrow> (unit, 'k) call" where
  "release_windows W address k =
     (case k32_free W address k of (result, k') \<Rightarrow>
        if result = 0 then (Err (Os ''free trampoline'' (k32_error W k')), k') else (Ok (), k'))"

definition allocate_windows :: "usize \<Rightarrow> 'k kernel32 \<Rightarrow> usize \<Rightarrow> (usize, 'k) call" where
  "allocate_windows reach W source k =
     search_windows reach (region_windows W) (reserve_windows W) source k"

section \<open>Shadow stacks\<close>

text \<open>
  On Linux the kernel reports the state of the thread (\<^verbatim>\<open>ARCH_SHSTK_STATUS\<close>); a kernel that does
  not know the request has none. \<open>query\<close> returns the call's result and the flags it wrote.
\<close>

definition query_shadow_stack :: "('k \<Rightarrow> int) \<Rightarrow> ('k \<Rightarrow> (int \<times> nat) \<times> 'k) \<Rightarrow> (bool, 'k) call" where
  "query_shadow_stack errno query k =
     (case query k of ((result, flags), k') \<Rightarrow>
        if result \<noteq> 0
        then if errno k' \<in> {22, 38, 95} then (Ok False, k')
             else (Err (Os ''query shadow stack'' (errno k')), k')
        else (Ok (odd flags), k'))"

definition shadow_stack_macos :: "(bool, 'k) call" where
  "shadow_stack_macos k = (Ok False, k)"

definition shadow_stack_windows :: "('k \<Rightarrow> int) \<Rightarrow> ('k \<Rightarrow> (int \<times> nat) \<times> 'k) \<Rightarrow> (bool, 'k) call" where
  "shadow_stack_windows errno policy k =
     (case policy k of ((result, flags), k') \<Rightarrow>
        if result = 0
        then if errno k' \<in> {87, 50} then (Ok False, k')
             else (Err (Os ''query shadow stack'' (errno k')), k')
        else (Ok (odd flags), k'))"

section \<open>What the searches rely on\<close>

text \<open>
  Reserving and releasing pages, with the set of pages that the process owns as a view of the
  system's state. Running out of space is reported by the search itself, never by a release.
\<close>

locale reservations =
  fixes reserve :: "usize \<Rightarrow> 'k \<Rightarrow> usize option \<times> 'k"
    and release :: "usize \<Rightarrow> (unit, 'k) call"
    and owned :: "'k \<Rightarrow> usize set"
  assumes reserve_law: "reserve hint k = (Some a, k') \<Longrightarrow> a \<notin> owned k \<and> owned k' = insert a (owned k)"
    and reserve_fails: "reserve hint k = (None, k') \<Longrightarrow> owned k' = owned k"
    and release_law: "release a k = (r, k') \<Longrightarrow> returns r \<and> r \<noteq> Err InsufficientSpace \<and>
      (r = Ok () \<longrightarrow> owned k' = owned k - {a})"
begin

text \<open>A search keeps the page it returns and gives back every other page it was offered.\<close>

lemma search_steps_law:
  "leaves (search_steps reach reserve release source steps k) (\<lambda>r k'. returns r \<and>
     (\<forall>a. r = Ok a \<longrightarrow> abs_diff a source \<le> reach - CAPACITY \<and> a \<notin> owned k \<and> owned k' = insert a (owned k)) \<and>
     (r = Err InsufficientSpace \<longrightarrow> owned k' = owned k))"
proof (induction steps arbitrary: k)
  case (Cons step steps)
  let ?hint = "search_hint reach source step"
  show ?case
  proof (cases "?hint < CAPACITY \<or> isize_max - CAPACITY < ?hint")
    case True
    with Cons [of k] show ?thesis by simp
  next
    case False
    obtain found k1 where q: "reserve ?hint k = (found, k1)" by (cases "reserve ?hint k")
    show ?thesis
    proof (cases found)
      case None
      with False q Cons [of k1] reserve_fails [of ?hint k k1] show ?thesis by (simp add: Let_def)
    next
      case (Some a)
      note law = reserve_law [OF q [unfolded Some]]
      obtain r k2 where rel: "release a k1 = (r, k2)" by (cases "release a k1")
      note back_law = release_law [OF rel]
      show ?thesis
      proof (cases "abs_diff a source \<le> reach - CAPACITY")
        case True
        with False q Some law show ?thesis by simp
      next
        case far: False
        show ?thesis
        proof (cases r)
          case (Ok u)
          with law back_law have "owned k2 = owned k" by auto
          with Cons [of k2] False q Some far rel Ok show ?thesis by (simp add: Let_def)
        qed (use False q Some far rel back_law in \<open>simp_all add: Let_def\<close>)
      qed
    qed
  qed
qed simp

end

text \<open>The two systems provide it.\<close>

locale unix_pages =
  fixes M :: "'k mman" and owned :: "'k \<Rightarrow> usize set"
  assumes map_law: "mm_map M hint k = (Some a, k') \<Longrightarrow> a \<notin> owned k \<and> owned k' = insert a (owned k)"
    and map_fails: "mm_map M hint k = (None, k') \<Longrightarrow> owned k' = owned k"
    and unmap_law: "mm_unmap M a k = (result, k') \<Longrightarrow> result = 0 \<Longrightarrow> owned k' = owned k - {a}"

sublocale unix_pages \<subseteq> reservations "reserve_unix M" "release_unix M" owned
  using map_law map_fails unmap_law
  by unfold_locales (auto simp: reserve_unix_def release_unix_def split: prod.splits if_splits)

context unix_pages
begin

lemma allocate_law:
  "leaves (allocate_unix reach M source k) (\<lambda>r k'. returns r \<and>
     (\<forall>a. r = Ok a \<longrightarrow> abs_diff a source \<le> reach - CAPACITY \<and> a \<notin> owned k \<and> owned k' = insert a (owned k)) \<and>
     (r = Err InsufficientSpace \<longrightarrow> owned k' = owned k))"
  unfolding allocate_unix_def search_unix_def by (rule search_steps_law)

end

locale windows_pages =
  fixes W :: "'k kernel32" and owned :: "'k \<Rightarrow> usize set"
  assumes alloc_law: "k32_alloc W hint k = (a, k') \<Longrightarrow>
      (a = 0 \<and> owned k' = owned k) \<or> (a = hint \<and> hint \<notin> owned k \<and> owned k' = insert hint (owned k))"
    and free_law: "k32_free W a k = (result, k') \<Longrightarrow> result \<noteq> 0 \<Longrightarrow> owned k' = owned k - {a}"
    and query_law: "k32_query W a k = (found, k') \<Longrightarrow> owned k' = owned k \<and>
      (\<forall>base bytes state. found = Some (base, bytes, state) \<longrightarrow> base + bytes \<le> isize_max)"
begin

lemma reserve_windows_Some:
  "reserve_windows W hint k = (Some a, k') \<Longrightarrow> a = hint \<and> a \<notin> owned k \<and> owned k' = insert a (owned k)"
  using alloc_law [of hint k] by (auto simp: reserve_windows_def split: prod.splits if_splits)

lemma reserve_windows_None: "reserve_windows W hint k = (None, k') \<Longrightarrow> hint \<noteq> 0 \<Longrightarrow> owned k' = owned k"
  using alloc_law [of hint k] by (auto simp: reserve_windows_def split: prod.splits if_splits)

lemma region_windows_law:
  "region_windows W a k = (r, k') \<Longrightarrow> returns r \<and> owned k' = owned k \<and> r \<noteq> Err InsufficientSpace \<and>
   (\<forall>e free. r = Ok (e, free) \<longrightarrow> e \<le> isize_max)"
  using query_law [of a k]
  by (auto simp: region_windows_def saturating_add_def usize_defs split: prod.splits option.splits)

lemma align_up_small: "a \<le> isize_max \<Longrightarrow> \<exists>b. align_up a = Ok b"
proof -
  assume a: "a \<le> isize_max"
  have "div_ceil a GRANULARITY * GRANULARITY \<le> a + GRANULARITY"
    by (auto simp: div_ceil_def add_mult_distrib div_times_less_eq_dividend)
  with a show ?thesis by (auto simp: align_up_def Let_def usize_defs GRANULARITY_def)
qed

lemma search_windows_loop_law:
  assumes "0 < cursor"
  shows "leaves (search_windows_loop (region_windows W) (reserve_windows W) upper cursor k)
     (\<lambda>r k'. returns r \<and>
       (\<forall>a. r = Ok a \<longrightarrow> cursor \<le> a \<and> a \<le> upper - CAPACITY \<and> a \<notin> owned k \<and> owned k' = insert a (owned k)) \<and>
       (r = Err InsufficientSpace \<longrightarrow> owned k' = owned k))"
  using assms
proof (induction "Suc upper - cursor" arbitrary: cursor k rule: less_induct)
  case less
  let ?loop = "search_windows_loop (region_windows W) (reserve_windows W) upper"
  have further: "leaves (?loop c k1) (\<lambda>r k'. returns r \<and>
       (\<forall>a. r = Ok a \<longrightarrow> cursor \<le> a \<and> a \<le> upper - CAPACITY \<and> a \<notin> owned k \<and> owned k' = insert a (owned k)) \<and>
       (r = Err InsufficientSpace \<longrightarrow> owned k' = owned k))"
    if "cursor < c" "cursor \<le> upper" "owned k1 = owned k" for c k1
  proof (rule leaves_mono [OF less.hyps [of c k1]])
    show "Suc upper - c < Suc upper - cursor" "0 < c" using that by simp_all
  qed (use that in auto)
  show ?case
  proof (cases "cursor \<le> upper - CAPACITY")
    case False
    then show ?thesis by (subst search_windows_loop.simps) (simp add: saturating_sub_def)
  next
    case True
    obtain r k1 where q: "region_windows W cursor k = (r, k1)" by (cases "region_windows W cursor k")
    note law = region_windows_law [OF q]
    show ?thesis
    proof (cases r)
      case (Ok v)
      obtain e free where v: "v = (e, free)" by (cases v)
      obtain found k2 where res: "reserve_windows W cursor k1 = (found, k2)" by (cases "reserve_windows W cursor k1")
      have "e \<le> isize_max" using law Ok v by simp
      then obtain b where b: "align_up e = Ok b" using align_up_small by blast
      then have "e \<le> b" by (rule align_up_ge)
      show ?thesis
      proof (cases "e \<le> cursor \<or> (free \<and> CAPACITY \<le> e - cursor \<and> found \<noteq> None)")
        case stop: True
        with True q Ok v res law reserve_windows_Some [of cursor k1] show ?thesis
          by (subst search_windows_loop.simps) (auto simp: saturating_sub_def)
      next
        case go: False
        let ?next = "if free \<and> CAPACITY \<le> e - cursor then ?loop (cursor + GRANULARITY) k2 else ?loop b k1"
        have step: "?loop cursor k = ?next"
          using True q Ok v res b go by (subst search_windows_loop.simps) (auto simp: saturating_sub_def)
        have "owned k2 = owned k" if "free \<and> CAPACITY \<le> e - cursor"
          using go that reserve_windows_None [of cursor k1 k2] res less.prems law by auto
        with go law \<open>e \<le> b\<close> True less.prems show ?thesis unfolding step
          by (auto intro!: further simp: GRANULARITY_def)
      qed
    qed (use True q law in \<open>subst search_windows_loop.simps, simp add: saturating_sub_def\<close>)+
  qed
qed

lemma search_windows_law:
  assumes "isize_max - CAPACITY \<ge> source"
  shows "leaves (search_windows reach (region_windows W) (reserve_windows W) source k) (\<lambda>r k'. returns r \<and>
     (\<forall>a. r = Ok a \<longrightarrow> abs_diff a source \<le> reach \<and> a + CAPACITY \<le> source + reach \<and>
        a \<notin> owned k \<and> owned k' = insert a (owned k)) \<and>
     (r = Err InsufficientSpace \<longrightarrow> owned k' = owned k))"
proof -
  define lower where "lower = max (saturating_sub source reach) GRANULARITY"
  define upper where "upper = min (saturating_add source reach) isize_max"
  have "lower \<le> isize_max" using assms
    by (auto simp: lower_def saturating_sub_def usize_defs GRANULARITY_def CAPACITY_def)
  then obtain cursor where c: "align_up lower = Ok cursor" using align_up_small by blast
  then have "lower \<le> cursor" by (rule align_up_ge)
  moreover have "0 < lower" by (simp add: lower_def GRANULARITY_def)
  ultimately have "0 < cursor" by simp
  have bounds: "abs_diff a source \<le> reach \<and> a + CAPACITY \<le> source + reach"
    if "cursor \<le> a" "a \<le> upper - CAPACITY" for a
  proof -
    have "source - reach \<le> a" "GRANULARITY \<le> a" using that \<open>lower \<le> cursor\<close>
      by (simp_all add: lower_def saturating_sub_def)
    moreover have "upper \<le> source + reach" by (simp add: upper_def saturating_add_def)
    ultimately show ?thesis
      using that by (auto simp: abs_diff_def GRANULARITY_def CAPACITY_def)
  qed
  show ?thesis
    unfolding search_windows_def lower_def [symmetric] upper_def [symmetric] Let_def c
    using bounds by (auto intro!: leaves_mono [OF search_windows_loop_law [OF \<open>0 < cursor\<close>]])
qed

end

section \<open>Systems that keep the contracts\<close>

text \<open>The state is the list of the pages in use; every free place can be had.\<close>

definition list_mman :: "usize list mman" where
  "list_mman = \<lparr>mm_map = (\<lambda>hint k. if hint \<in> set k then (None, k) else (Some hint, hint # k)),
     mm_protect = (\<lambda>a k. (0, k)), mm_unmap = (\<lambda>a k. (0, removeAll a k)), mm_errno = (\<lambda>k. 0),
     mm_cache_flush = (\<lambda>a n k. k)\<rparr>"

definition list_kernel32 :: "usize list kernel32" where
  "list_kernel32 = \<lparr>k32_query = (\<lambda>a k. (if a + 1048576 \<le> isize_max then Some (a, 1048576, 65536) else None, k)),
     k32_alloc = (\<lambda>hint k. if hint \<in> set k then (0, k) else (hint, hint # k)),
     k32_protect = (\<lambda>a k. (1, k)), k32_flush = (\<lambda>a n k. (1, k)), k32_free = (\<lambda>a k. (1, removeAll a k)),
     k32_error = (\<lambda>k. 0)\<rparr>"

interpretation list_unix: unix_pages list_mman set
  by unfold_locales (auto simp: list_mman_def split: if_splits)

interpretation list_windows: windows_pages list_kernel32 set
  by unfold_locales (auto simp: list_kernel32_def split: if_splits)

section \<open>Properties\<close>

lemma sample_allocate_unix: "allocate_unix REACH_X86 list_mman 1048576 [] = (Ok 1048576, [1048576])"
  by (simp add: allocate_unix_def search_unix_def upt_rec [of 0 129] search_hint_def div_ceil_def
      saturating_add_def saturating_sub_def usize_defs CAPACITY_def reserve_unix_def list_mman_def
      abs_diff_def REACH_X86_def)

lemma sample_allocate_windows:
  "allocate_windows REACH_X86 list_kernel32 1048576 [65536] = (Ok 131072, [131072, 65536])"
  by (simp add: allocate_windows_def search_windows_def search_windows_loop.simps align_up_def div_ceil_def
      saturating_add_def saturating_sub_def usize_defs GRANULARITY_def CAPACITY_def REACH_X86_def
      region_windows_def reserve_windows_def list_kernel32_def)

text \<open>
  C28: The search for a page always ends as a \<^verbatim>\<open>Result\<close>, on Unix and on Windows. A page it returns
  was not in use before and lies close enough to the function for a relative jump, on Windows with
  its whole capacity. Every page that was mapped too far away is unmapped again, so that after the
  call the process owns exactly one page more, and none more when no page was found.
\<close>

theorem allocate_near:
  assumes "unix_pages M uowned" "allocate_unix reach M source uk = (ur, uk')"
    and "windows_pages W wowned" "source \<le> isize_max - CAPACITY" "allocate_windows reach W source wk = (wr, wk')"
  shows "returns ur \<and>
    (\<forall>a. ur = Ok a \<longrightarrow> abs_diff a source \<le> reach - CAPACITY \<and> a \<notin> uowned uk \<and> uowned uk' = insert a (uowned uk)) \<and>
    (ur = Err InsufficientSpace \<longrightarrow> uowned uk' = uowned uk) \<and>
    returns wr \<and>
    (\<forall>a. wr = Ok a \<longrightarrow> abs_diff a source \<le> reach \<and> a + CAPACITY \<le> source + reach \<and>
       a \<notin> wowned wk \<and> wowned wk' = insert a (wowned wk)) \<and>
    (wr = Err InsufficientSpace \<longrightarrow> wowned wk' = wowned wk)"
  using leavesD [OF unix_pages.allocate_law [OF assms(1)] assms(2)] assms(4)
    leavesD [OF windows_pages.search_windows_law [OF assms(3)] assms(5) [unfolded allocate_windows_def]] by simp

theorem allocate_near_witness:
  "allocate_unix REACH_X86 list_mman 1048576 [] = (Ok 1048576, [1048576]) \<and>
   set [1048576 :: nat] = insert 1048576 (set []) \<and>
   allocate_windows REACH_X86 list_kernel32 1048576 [65536] = (Ok 131072, [131072, 65536]) \<and>
   abs_diff 131072 1048576 \<le> REACH_X86"
  using allocate_near [OF list_unix.unix_pages_axioms sample_allocate_unix list_windows.windows_pages_axioms _ sample_allocate_windows]
  by (simp add: sample_allocate_unix sample_allocate_windows usize_defs CAPACITY_def)

end
