(* ===== verification/Linux_Memory.thy ===== *)
theory Linux_Memory
  imports Code_Memory
begin

text \<open>
  The Linux side of src/memory.rs (src/memory/linux.rs and src/memory/linux/maps.rs): reading
  \<^verbatim>\<open>/proc/self/maps\<close>, parsing it, and the calls around \<^verbatim>\<open>process_vm_readv\<close>,
  \<^verbatim>\<open>sysconf\<close> and \<^verbatim>\<open>mprotect\<close>. The kernel is a record of system calls; \<open>linux_platform\<close>
  is the platform that src/memory.rs runs on.
\<close>

section \<open>System calls\<close>

record 'k linux =
  lx_open_maps :: "'k \<Rightarrow> int \<times> 'k"
  lx_read :: "int \<Rightarrow> nat \<Rightarrow> 'k \<Rightarrow> (int \<times> u8 list) \<times> 'k"
  lx_close :: "int \<Rightarrow> 'k \<Rightarrow> 'k"
  lx_errno :: "'k \<Rightarrow> int"
  lx_strerror :: "int \<Rightarrow> string"
  lx_vm_readv :: "usize \<Rightarrow> nat \<Rightarrow> 'k \<Rightarrow> (int \<times> u8 list) \<times> 'k"
  lx_pagesize :: "'k \<Rightarrow> int \<times> 'k"
  lx_mprotect :: "usize \<Rightarrow> nat \<Rightarrow> nat \<Rightarrow> 'k \<Rightarrow> int \<times> 'k"
  lx_cache_flush :: "usize \<Rightarrow> nat \<Rightarrow> 'k \<Rightarrow> 'k"
  lx_store :: "usize \<Rightarrow> u8 list \<Rightarrow> 'k \<Rightarrow> 'k"

definition EINTR :: int where
  "EINTR = 4"

section \<open>Reading the map of the process\<close>

text \<open>
  \<^verbatim>\<open>retry\<close> repeats an interrupted call. A call reports its result and a value that goes with it
  (the bytes of a read). The loop does not end when every attempt is interrupted.
\<close>

partial_function (option) retry ::
  "('k \<Rightarrow> int) \<Rightarrow> ('k \<Rightarrow> (int \<times> 'v) \<times> 'k) \<Rightarrow> 'k \<Rightarrow> ((int + int \<times> 'v) \<times> 'k) option" where
  "retry errno call k =
     (case call k of ((result, v), k') \<Rightarrow>
        if 0 \<le> result then Some (Inr (result, v), k')
        else if errno k' \<noteq> EINTR then Some (Inl (errno k'), k')
        else retry errno call k')"

text \<open>
  \<^verbatim>\<open>maps::read\<close>: the outcome is \<open>Inl code\<close> when a call fails with that error number, and the
  bytes of the file otherwise. The descriptor is closed on every path (\<^verbatim>\<open>Drop for File\<close>).
\<close>

partial_function (option) maps_loop ::
  "'k linux \<Rightarrow> int \<Rightarrow> u8 list \<Rightarrow> 'k \<Rightarrow> ((int + u8 list) result \<times> 'k) option" where
  "maps_loop L fd bytes k =
     (case retry (lx_errno L) (lx_read L fd 4096) k of
        None \<Rightarrow> None
      | Some (Inl code, k') \<Rightarrow> Some (Ok (Inl code), k')
      | Some (Inr (count, buffer), k') \<Rightarrow>
          if count = 0 then Some (Ok (Inr bytes), k')
          else if 4096 < count then Some (Panics index_panic, k')
          else maps_loop L fd (bytes @ take (nat count) buffer) k')"

definition maps_read :: "'k linux \<Rightarrow> (int + u8 list, 'k) call" where
  "maps_read L k =
     (case retry (lx_errno L) (\<lambda>k. case lx_open_maps L k of (fd, k') \<Rightarrow> ((fd, ()), k')) k of
        None \<Rightarrow> (Diverges, k)
      | Some (Inl code, k') \<Rightarrow> (Ok (Inl code), k')
      | Some (Inr (fd, u), k') \<Rightarrow>
          (case maps_loop L fd [] k' of
             None \<Rightarrow> (Diverges, k')
           | Some (outcome, k2) \<Rightarrow> (outcome, lx_close L fd k2)))"

text \<open>\<^verbatim>\<open>String::from_utf8_lossy\<close> keeps ASCII, the only characters of the mapping fields.\<close>

definition text_of :: "u8 list \<Rightarrow> string" where
  "text_of bytes = map (\<lambda>b. char_of (unat b)) bytes"

section \<open>Parsing the map\<close>

definition newline :: char where "newline = CHR 0x0A"

function lines_of :: "string \<Rightarrow> string list" where
  "lines_of [] = []"
| "lines_of (c # cs) =
     (let line = takeWhile (\<lambda>x. x \<noteq> newline) (c # cs);
          rest = dropWhile (\<lambda>x. x \<noteq> newline) (c # cs)
      in case rest of
           [] \<Rightarrow> [line]
         | _ # later \<Rightarrow>
             (if line \<noteq> [] \<and> last line = CHR 0x0D then butlast line else line) # lines_of later)"
  by pat_completeness auto
termination
proof (relation "measure length")
  fix c cs line rest x later
  assume r: "rest = dropWhile (\<lambda>x. x \<noteq> newline) (c # cs)" "rest = x # later"
  have "length rest \<le> length (c # cs)" unfolding r(1) by (rule length_dropWhile_le)
  then show "(later, c # cs) \<in> measure length" using r(2) by simp
qed simp

definition is_space :: "char \<Rightarrow> bool" where
  "is_space c \<longleftrightarrow> c = CHR '' '' \<or> (9 \<le> (of_char c :: nat) \<and> (of_char c :: nat) \<le> 13)"

text \<open>\<^verbatim>\<open>columns.next().unwrap_or("")\<close> and what is left of the line.\<close>

definition next_column :: "string \<Rightarrow> string \<times> string" where
  "next_column line =
     (let rest = dropWhile is_space line
      in (takeWhile (\<lambda>c. \<not> is_space c) rest, dropWhile (\<lambda>c. \<not> is_space c) rest))"

definition split_once :: "char \<Rightarrow> string \<Rightarrow> (string \<times> string) option" where
  "split_once c s =
     (if c \<in> set s then Some (takeWhile (\<lambda>x. x \<noteq> c) s, tl (dropWhile (\<lambda>x. x \<noteq> c) s)) else None)"

definition hex_digit :: "char \<Rightarrow> nat option" where
  "hex_digit c =
     (let n = of_char c :: nat in
      if 48 \<le> n \<and> n \<le> 57 then Some (n - 48)
      else if 97 \<le> n \<and> n \<le> 102 then Some (n - 87)
      else if 65 \<le> n \<and> n \<le> 70 then Some (n - 55)
      else None)"

text \<open>\<^verbatim>\<open>usize::from_str_radix(s, 16)\<close> with the texts of its errors.\<close>

primrec hex_value :: "nat \<Rightarrow> string \<Rightarrow> string + nat" where
  "hex_value acc [] = Inr acc"
| "hex_value acc (c # cs) =
     (case hex_digit c of
        None \<Rightarrow> Inl ''invalid digit found in string''
      | Some d \<Rightarrow>
          if usize_max < acc * 16 + d then Inl ''number too large to fit in target type''
          else hex_value (acc * 16 + d) cs)"

definition from_str_radix16 :: "string \<Rightarrow> string + nat" where
  "from_str_radix16 s =
     (if s = [] then Inl ''cannot parse integer from empty string''
      else if s = ''+'' then Inl ''invalid digit found in string''
      else hex_value 0 (if hd s = CHR ''+'' then tl s else s))"

fun parsed :: "string + nat \<Rightarrow> nat result" where
  "parsed (Inr n) = Ok n"
| "parsed (Inl message) = Err (Mapping message)"

definition valid_permissions :: "string \<Rightarrow> bool" where
  "valid_permissions p \<longleftrightarrow> length p = 4 \<and> p ! 0 \<in> {CHR ''r'', CHR ''-''} \<and>
     p ! 1 \<in> {CHR ''w'', CHR ''-''} \<and> p ! 2 \<in> {CHR ''x'', CHR ''-''} \<and> p ! 3 \<in> {CHR ''p'', CHR ''s''}"

definition protection_of :: "string \<Rightarrow> nat" where
  "protection_of p =
     (let none = PROT_NONE;
          readable = (if p ! 0 = CHR ''r'' then none OR PROT_READ else none);
          writable = (if p ! 1 = CHR ''w'' then readable OR PROT_WRITE else readable)
      in if p ! 2 = CHR ''x'' then writable OR PROT_EXEC else writable)"

definition parse_line :: "string \<Rightarrow> usize \<Rightarrow> region option result" where
  "parse_line line address =
     (let (range, rest) = next_column line;
          (permissions, _) = next_column rest
      in and_then (ok_or (split_once (CHR ''-'') range) (Mapping ''missing mapping address range''))
           (\<lambda>(first, second).
         and_then (parsed (from_str_radix16 first)) (\<lambda>start.
         and_then (parsed (from_str_radix16 second)) (\<lambda>e.
           if e \<le> start \<or> \<not> valid_permissions permissions
           then Err (Mapping ''invalid mapping permissions or range'')
           else if start \<le> address \<and> address < e
           then Ok (Some \<lparr>rg_start = start, rg_end = e, rg_protection = protection_of permissions,
                          rg_readable = (permissions ! 0 = CHR ''r''),
                          rg_executable = (permissions ! 2 = CHR ''x'')\<rparr>)
           else Ok None))))"

primrec parse_lines :: "string list \<Rightarrow> usize \<Rightarrow> region option result" where
  "parse_lines [] address = Ok None"
| "parse_lines (line # lines) address =
     and_then (parse_line line address) (\<lambda>found.
       case found of Some region \<Rightarrow> Ok (Some region) | None \<Rightarrow> parse_lines lines address)"

definition parse_region :: "string \<Rightarrow> usize \<Rightarrow> region option result" where
  "parse_region maps address = parse_lines (lines_of maps) address"

section \<open>The platform functions\<close>

definition linux_region_at :: "'k linux \<Rightarrow> usize \<Rightarrow> (region option, 'k) call" where
  "linux_region_at L address k =
     andThen (maps_read L k) (\<lambda>outcome k.
       case outcome of
         Inl code \<Rightarrow> (Err (Mapping (lx_strerror L code)), k)
       | Inr bytes \<Rightarrow> (parse_region (text_of bytes) address, k))"

definition linux_read_bytes :: "'k linux \<Rightarrow> usize \<Rightarrow> usize \<Rightarrow> (u8 list, 'k) call" where
  "linux_read_bytes L address len k =
     (case lx_vm_readv L address len k of ((copied, bytes), k') \<Rightarrow>
        if copied < 0 then (Err (Os ''read memory'' (lx_errno L k')), k')
        else (Ok (take (nat copied) bytes), k'))"

definition linux_page_size :: "'k linux \<Rightarrow> (usize, 'k) call" where
  "linux_page_size L k =
     (case lx_pagesize L k of (bytes, k') \<Rightarrow>
        if bytes < 0 then (Err (Os ''page size'' (lx_errno L k')), k') else (Ok (nat bytes), k'))"

definition linux_protect :: "'k linux \<Rightarrow> page_range \<Rightarrow> bool \<Rightarrow> (unit, 'k) call" where
  "linux_protect L page writable k =
     (let protection = pg_protection page OR (if writable then PROT_WRITE else 0) in
      case lx_mprotect L (pg_address page) (pg_length page) protection k of (result, k') \<Rightarrow>
        if result \<noteq> 0 then (Err (Os ''protect memory'' (lx_errno L k')), k') else (Ok (), k'))"

definition linux_flush :: "'k linux \<Rightarrow> usize \<Rightarrow> usize \<Rightarrow> (unit, 'k) call" where
  "linux_flush L address len k = (Ok (), lx_cache_flush L address len k)"

definition linux_platform :: "'k linux \<Rightarrow> 'k platform" where
  "linux_platform L = \<lparr>region_at = linux_region_at L, read_bytes = linux_read_bytes L,
     page_size = linux_page_size L, protect = linux_protect L, flush = linux_flush L,
     store = lx_store L\<rparr>"

section \<open>The format of the map\<close>

text \<open>
  The kernel prints one line per mapping: the range in hexadecimal, the permissions, and further
  columns up to the end of the line, which the program does not read.
\<close>

record mapping =
  mp_start :: usize
  mp_end :: usize
  mp_read :: bool
  mp_write :: bool
  mp_exec :: bool
  mp_shared :: bool
  mp_columns :: string

definition hex_char :: "nat \<Rightarrow> char" where
  "hex_char d = char_of (if d < 10 then 48 + d else 87 + d)"

fun show_hex :: "nat \<Rightarrow> string" where
  "show_hex n = (if n < 16 then [hex_char n] else show_hex (n div 16) @ [hex_char (n mod 16)])"

declare show_hex.simps [simp del]

definition show_hex8 :: "nat \<Rightarrow> string" where
  "show_hex8 n = replicate (8 - length (show_hex n)) (CHR ''0'') @ show_hex n"

definition permissions_text :: "mapping \<Rightarrow> string" where
  "permissions_text m =
     [if mp_read m then CHR ''r'' else CHR ''-'', if mp_write m then CHR ''w'' else CHR ''-'',
      if mp_exec m then CHR ''x'' else CHR ''-'', if mp_shared m then CHR ''s'' else CHR ''p'']"

definition maps_line :: "mapping \<Rightarrow> string" where
  "maps_line m = show_hex8 (mp_start m) @ ''-'' @ show_hex8 (mp_end m) @ '' '' @
     permissions_text m @ '' '' @ mp_columns m"

definition maps_text :: "mapping list \<Rightarrow> string" where
  "maps_text ms = concat (map (\<lambda>m. maps_line m @ [newline]) ms)"

definition mapping_ok :: "mapping \<Rightarrow> bool" where
  "mapping_ok m \<longleftrightarrow> mp_start m < mp_end m \<and> mp_end m \<le> usize_max \<and> mp_columns m \<noteq> [] \<and>
     newline \<notin> set (mp_columns m) \<and> last (mp_columns m) \<noteq> CHR 0x0D"

definition mapping_protection :: "mapping \<Rightarrow> nat" where
  "mapping_protection m =
     (if mp_read m then 1 else 0) + (if mp_write m then 2 else 0) + (if mp_exec m then 4 else 0)"

definition mapping_region :: "mapping \<Rightarrow> region" where
  "mapping_region m = \<lparr>rg_start = mp_start m, rg_end = mp_end m,
     rg_protection = mapping_protection m, rg_readable = mp_read m, rg_executable = mp_exec m\<rparr>"

definition maps_at :: "mapping list \<Rightarrow> usize \<Rightarrow> mapping option" where
  "maps_at ms a = List.find (\<lambda>m. mp_start m \<le> a \<and> a < mp_end m) ms"

section \<open>Parsing undoes printing\<close>

lemma hex_digit_char [simp]: "d < 16 \<Longrightarrow> hex_digit (hex_char d) = Some d"
  by (auto simp: hex_digit_def hex_char_def of_char_of Let_def)

lemma hex_value_append:
  "hex_value acc (xs @ ys) = (case hex_value acc xs of Inl e \<Rightarrow> Inl e | Inr v \<Rightarrow> hex_value v ys)"
  by (induction xs arbitrary: acc) (auto split: option.splits)

lemma hex_value_show: "n \<le> usize_max \<Longrightarrow> hex_value 0 (show_hex n) = Inr n"
proof (induction n rule: show_hex.induct)
  case (1 n)
  show ?case
  proof (cases "n < 16")
    case True
    then show ?thesis using "1.prems" by (subst show_hex.simps) simp
  next
    case False
    with 1 have "hex_value 0 (show_hex (n div 16)) = Inr (n div 16)" by simp
    moreover have "n div 16 * 16 + n mod 16 = n" by simp
    ultimately show ?thesis using False "1.prems"
      by (subst show_hex.simps) (simp add: hex_value_append)
  qed
qed

lemma hex_value_zeros: "hex_value 0 (replicate k (CHR ''0'')) = Inr 0"
  by (induction k) (simp_all add: hex_digit_def)

definition hex_chars :: "char set" where
  "hex_chars = hex_char ` {..<16}"

lemma show_hex_chars: "set (show_hex n) \<subseteq> hex_chars"
proof (induction n rule: show_hex.induct)
  case (1 n)
  then show ?case by (subst show_hex.simps) (auto simp: hex_chars_def)
qed

lemma show_hex8_chars: "set (show_hex8 n) \<subseteq> hex_chars"
proof -
  have "CHR ''0'' = hex_char 0" by code_simp
  then have "CHR ''0'' \<in> hex_chars" by (simp add: hex_chars_def)
  then show ?thesis using show_hex_chars [of n] by (auto simp: show_hex8_def)
qed

lemma hex_chars_plain:
  assumes "c \<in> hex_chars"
  shows "\<not> is_space c" "c \<noteq> CHR ''-''" "c \<noteq> CHR ''+''" "c \<noteq> newline"
proof -
  from assms obtain d where d: "d < 16" "c = hex_char d" by (auto simp: hex_chars_def)
  then have n: "48 \<le> (of_char c :: nat)" by (auto simp: hex_char_def of_char_of)
  then show "\<not> is_space c" "c \<noteq> CHR ''-''" "c \<noteq> CHR ''+''" "c \<noteq> newline"
    by (auto simp: is_space_def newline_def)
qed

lemma show_hex_nonempty [simp]: "show_hex n \<noteq> []"
  by (subst show_hex.simps) simp

lemma from_str_radix16_show:
  assumes "n \<le> usize_max"
  shows "from_str_radix16 (show_hex8 n) = Inr n"
proof -
  have "show_hex8 n \<noteq> []" by (simp add: show_hex8_def)
  then have "hd (show_hex8 n) \<in> hex_chars" using show_hex8_chars [of n] by (meson hd_in_set subsetD)
  then have "hd (show_hex8 n) \<noteq> CHR ''+''" by (rule hex_chars_plain)
  moreover have "hex_value 0 (show_hex8 n) = Inr n"
    using assms by (simp add: show_hex8_def hex_value_append hex_value_zeros hex_value_show)
  ultimately show ?thesis using \<open>show_hex8 n \<noteq> []\<close> by (auto simp: from_str_radix16_def)
qed

lemma next_column_word:
  assumes "w \<noteq> []" "\<forall>c\<in>set w. \<not> is_space c" "is_space s"
  shows "next_column (w @ s # rest) = (w, s # rest)" "next_column (s # w @ s # rest) = (w, s # rest)"
proof -
  have "dropWhile is_space (w @ s # rest) = w @ s # rest"
    using assms by (cases w) auto
  moreover have "takeWhile (\<lambda>c. \<not> is_space c) (w @ s # rest) = w"
    "dropWhile (\<lambda>c. \<not> is_space c) (w @ s # rest) = s # rest"
    using assms by (simp_all add: takeWhile_append2 dropWhile_append2)
  ultimately show "next_column (w @ s # rest) = (w, s # rest)"
    "next_column (s # w @ s # rest) = (w, s # rest)"
    using assms(3) by (simp_all add: next_column_def)
qed

lemma takeWhile_upto:
  "x \<notin> set l \<Longrightarrow> takeWhile (\<lambda>y. y \<noteq> x) (l @ x # r) = l"
  "x \<notin> set l \<Longrightarrow> dropWhile (\<lambda>y. y \<noteq> x) (l @ x # r) = x # r"
  by (induction l) auto

lemma lines_of_concat:
  "\<forall>l\<in>set ls. newline \<notin> set l \<and> (l \<noteq> [] \<longrightarrow> last l \<noteq> CHR 0x0D) \<Longrightarrow>
   lines_of (concat (map (\<lambda>l. l @ [newline]) ls)) = ls"
proof (induction ls)
  case (Cons l ls)
  obtain c cs where e: "l @ newline # concat (map (\<lambda>l. l @ [newline]) ls) = c # cs"
    by (cases l) auto
  have t: "takeWhile (\<lambda>x. x \<noteq> newline) (c # cs) = l"
    "dropWhile (\<lambda>x. x \<noteq> newline) (c # cs) = newline # concat (map (\<lambda>l. l @ [newline]) ls)"
    unfolding e [symmetric] using Cons.prems by (simp_all add: takeWhile_upto)
  have "lines_of (concat (map (\<lambda>l. l @ [newline]) (l # ls))) = lines_of (c # cs)" using e by simp
  also have "\<dots> = l # ls" using Cons t by (simp only: lines_of.simps Let_def t) auto
  finally show ?case .
qed simp

lemma split_once_upto: "x \<notin> set l \<Longrightarrow> split_once x (l @ x # r) = Some (l, r)"
  by (simp add: split_once_def takeWhile_upto)

lemma parse_permissions:
  "valid_permissions (permissions_text m)" "protection_of (permissions_text m) = mapping_protection m"
  "permissions_text m ! 0 = CHR ''r'' \<longleftrightarrow> mp_read m" "permissions_text m ! 2 = CHR ''x'' \<longleftrightarrow> mp_exec m"
  "\<forall>c\<in>set (permissions_text m). \<not> is_space c \<and> c \<noteq> newline" "permissions_text m \<noteq> []"
  by (auto simp: permissions_text_def valid_permissions_def protection_of_def mapping_protection_def
      is_space_def newline_def PROT_NONE_def PROT_READ_def PROT_WRITE_def PROT_EXEC_def)

lemma parse_line_maps_line:
  assumes "mapping_ok m"
  shows "parse_line (maps_line m) a =
    Ok (if mp_start m \<le> a \<and> a < mp_end m then Some (mapping_region m) else None)"
proof -
  let ?range = "show_hex8 (mp_start m) @ ''-'' @ show_hex8 (mp_end m)"
  have plain: "\<forall>c\<in>set (show_hex8 n). \<not> is_space c \<and> c \<noteq> CHR ''-''" for n
    using show_hex8_chars [of n] hex_chars_plain by blast
  have r: "?range \<noteq> []" "\<forall>c\<in>set ?range. \<not> is_space c"
    using plain by (auto simp: is_space_def)
  have line: "maps_line m = ?range @ CHR '' '' # permissions_text m @ CHR '' '' # mp_columns m"
    by (simp add: maps_line_def)
  have "next_column (maps_line m) = (?range, CHR '' '' # permissions_text m @ CHR '' '' # mp_columns m)"
    unfolding line by (rule next_column_word [OF r]) (simp add: is_space_def)
  moreover have "next_column (CHR '' '' # permissions_text m @ CHR '' '' # mp_columns m) =
      (permissions_text m, CHR '' '' # mp_columns m)"
    by (rule next_column_word) (use parse_permissions in \<open>auto simp: is_space_def\<close>)
  moreover have "split_once (CHR ''-'') ?range = Some (show_hex8 (mp_start m), show_hex8 (mp_end m))"
    using split_once_upto [of "CHR ''-''" "show_hex8 (mp_start m)"] plain by auto
  moreover have "mp_start m \<le> usize_max" "mp_end m \<le> usize_max" "mp_start m < mp_end m"
    using assms by (auto simp: mapping_ok_def)
  ultimately show ?thesis
    by (simp add: parse_line_def from_str_radix16_show parse_permissions mapping_region_def)
qed

lemma parse_lines_maps:
  "\<forall>m\<in>set ms. mapping_ok m \<Longrightarrow>
   parse_lines (map maps_line ms) a = Ok (map_option mapping_region (maps_at ms a))"
  by (induction ms) (auto simp: maps_at_def parse_line_maps_line)

lemma maps_line_plain:
  assumes "mapping_ok m"
  shows "newline \<notin> set (maps_line m)" "maps_line m \<noteq> []" "last (maps_line m) \<noteq> CHR 0x0D"
proof -
  have "newline \<notin> set (show_hex8 n)" for n using show_hex8_chars [of n] hex_chars_plain by blast
  with assms parse_permissions(5) [of m] show "newline \<notin> set (maps_line m)" "maps_line m \<noteq> []"
    "last (maps_line m) \<noteq> CHR 0x0D"
    by (auto simp: maps_line_def mapping_ok_def newline_def)
qed

lemma parse_region_maps:
  assumes "\<forall>m\<in>set ms. mapping_ok m"
  shows "parse_region (maps_text ms) a = Ok (map_option mapping_region (maps_at ms a))"
proof -
  have "maps_text ms = concat (map (\<lambda>l. l @ [newline]) (map maps_line ms))"
    by (simp add: maps_text_def comp_def)
  also have "lines_of \<dots> = map maps_line ms"
    using assms maps_line_plain by (intro lines_of_concat) auto
  finally show ?thesis using assms by (simp add: parse_region_def parse_lines_maps)
qed

section \<open>What the program relies on\<close>

definition bytes_of :: "string \<Rightarrow> u8 list" where
  "bytes_of s = map (\<lambda>c. word_of_nat (of_char c)) s"

lemma text_of_bytes_of [simp]: "text_of (bytes_of s) = s"
proof -
  have "char_of (unat (word_of_nat (of_char c) :: u8)) = c" for c :: char
  proof -
    have "(of_char c :: nat) mod 256 = of_char c" by simp
    then have "(of_char c :: nat) < 256" by (metis mod_less_divisor zero_less_numeral)
    then have "unat (word_of_nat (of_char c) :: u8) = of_char c" by (simp add: unat_of_nat)
    then show ?thesis by simp
  qed
  then show ?thesis by (simp add: text_of_def bytes_of_def comp_def)
qed

text \<open>
  The documented behaviour of the system calls, over views of the kernel's state: the bytes and
  protections of the process, its mappings, the unread bytes of an open descriptor, and the number
  of signals that can still interrupt a call. Reading \<^verbatim>\<open>/proc/self/maps\<close> delivers the printed
  mappings chunk by chunk, and the mappings tell the protection of every byte in them.
\<close>

locale linux_kernel =
  fixes L :: "'k linux"
    and mem :: "'k \<Rightarrow> memory"
    and prot :: "'k \<Rightarrow> usize \<Rightarrow> nat"
    and mappings :: "'k \<Rightarrow> mapping list"
    and unread :: "'k \<Rightarrow> int \<Rightarrow> u8 list"
    and signals :: "'k \<Rightarrow> nat"
  assumes mappings_law: "m \<in> set (mappings k) \<Longrightarrow>
      mapping_ok m \<and> (\<forall>b. mp_start m \<le> b \<longrightarrow> b < mp_end m \<longrightarrow> prot k b = mapping_protection m)"
    and open_law: "lx_open_maps L k = (fd, k') \<Longrightarrow>
      mem k' = mem k \<and> prot k' = prot k \<and> mappings k' = mappings k \<and>
      (fd < 0 \<longrightarrow> lx_errno L k' = EINTR \<longrightarrow> signals k' < signals k) \<and>
      (0 \<le> fd \<longrightarrow> unread k' fd = bytes_of (maps_text (mappings k)))"
    and read_law: "lx_read L fd n k = ((count, buffer), k') \<Longrightarrow>
      mem k' = mem k \<and> prot k' = prot k \<and> mappings k' = mappings k \<and>
      (count < 0 \<longrightarrow> unread k' = unread k \<and> (lx_errno L k' = EINTR \<longrightarrow> signals k' < signals k)) \<and>
      (0 \<le> count \<longrightarrow> nat count \<le> n \<and> (0 < n \<longrightarrow> count = 0 \<longrightarrow> unread k fd = []) \<and>
         unread k fd = take (nat count) buffer @ unread k' fd \<and> nat count \<le> length buffer)"
    and close_law: "mem (lx_close L fd k) = mem k \<and> prot (lx_close L fd k) = prot k"
    and readv_law: "lx_vm_readv L a n k = ((count, buffer), k') \<Longrightarrow>
      mem k' = mem k \<and> prot k' = prot k \<and>
      (0 \<le> count \<longrightarrow> nat count \<le> n \<and> take (nat count) buffer = fetch (mem k) a (nat count))"
    and pagesize_law: "lx_pagesize L k = (bytes, k') \<Longrightarrow>
      mem k' = mem k \<and> prot k' = prot k \<and> bytes \<noteq> 0"
    and mprotect_law: "lx_mprotect L a n p k = (result, k') \<Longrightarrow>
      mem k' = mem k \<and> (\<forall>b. b < a \<or> a + n \<le> b \<longrightarrow> prot k' b = prot k b) \<and>
      (result = 0 \<longrightarrow> (\<forall>b. a \<le> b \<longrightarrow> b < a + n \<longrightarrow> prot k' b = p))"
    and cache_law: "mem (lx_cache_flush L a n k) = mem k \<and> prot (lx_cache_flush L a n k) = prot k"
    and store_bytes_law: "(\<And>b. a \<le> b \<Longrightarrow> b < a + length bytes' \<Longrightarrow> writable_protection (prot k b)) \<Longrightarrow>
      mem (lx_store L a bytes' k) = write_bytes (mem k) a bytes' \<and> prot (lx_store L a bytes' k) = prot k"
begin

text \<open>Interrupted calls are repeated until one is not; there are only so many signals.\<close>

lemma retry_open:
  "\<exists>r k'. retry (lx_errno L) (\<lambda>k. case lx_open_maps L k of (fd, k') \<Rightarrow> ((fd, ()), k')) k = Some (r, k') \<and>
     mem k' = mem k \<and> prot k' = prot k \<and> mappings k' = mappings k \<and>
     (\<forall>fd u. r = Inr (fd, u) \<longrightarrow> unread k' fd = bytes_of (maps_text (mappings k)))"
proof (induction "signals k" arbitrary: k rule: less_induct)
  case less
  obtain fd k1 where q: "lx_open_maps L k = (fd, k1)" by (cases "lx_open_maps L k")
  note law = open_law [OF q]
  show ?case
  proof (cases "fd < 0 \<and> lx_errno L k1 = EINTR")
    case True
    with law have "signals k1 < signals k" by simp
    from less [OF this] law True q show ?thesis by (subst retry.simps) simp
  next
    case False
    with q law show ?thesis by (subst retry.simps) auto
  qed
qed

lemma retry_read:
  "\<exists>r k'. retry (lx_errno L) (lx_read L fd 4096) k = Some (r, k') \<and>
     mem k' = mem k \<and> prot k' = prot k \<and> mappings k' = mappings k \<and>
     (\<forall>count buffer. r = Inr (count, buffer) \<longrightarrow> 0 \<le> count \<and> count \<le> 4096 \<and>
        (count = 0 \<longrightarrow> unread k fd = []) \<and> unread k fd = take (nat count) buffer @ unread k' fd \<and>
        nat count \<le> length buffer)"
proof (induction "signals k" arbitrary: k rule: less_induct)
  case less
  obtain count buffer k1 where q: "lx_read L fd 4096 k = ((count, buffer), k1)"
    by (cases "lx_read L fd 4096 k") auto
  note law = read_law [OF q]
  show ?case
  proof (cases "count < 0 \<and> lx_errno L k1 = EINTR")
    case True
    with law have "signals k1 < signals k" by simp
    from less [OF this] law True q show ?thesis by (subst retry.simps) auto
  next
    case False
    with q law show ?thesis by (subst retry.simps) auto
  qed
qed

lemma maps_loop_law:
  "\<exists>outcome k'. maps_loop L fd bytes k = Some (Ok outcome, k') \<and>
     mem k' = mem k \<and> prot k' = prot k \<and> mappings k' = mappings k \<and>
     (\<forall>bs. outcome = Inr bs \<longrightarrow> bs = bytes @ unread k fd)"
proof (induction "length (unread k fd)" arbitrary: k bytes rule: less_induct)
  case less
  obtain r k1 where q: "retry (lx_errno L) (lx_read L fd 4096) k = Some (r, k1)"
    and same: "mem k1 = mem k" "prot k1 = prot k" "mappings k1 = mappings k"
    and law: "\<And>count buffer. r = Inr (count, buffer) \<Longrightarrow> 0 \<le> count \<and> count \<le> 4096 \<and>
        (count = 0 \<longrightarrow> unread k fd = []) \<and> unread k fd = take (nat count) buffer @ unread k1 fd \<and>
        nat count \<le> length buffer"
    using retry_read [of fd k] by blast
  show ?case
  proof (cases r)
    case (Inl code)
    with q same show ?thesis by (subst maps_loop.simps) simp
  next
    case (Inr p)
    obtain count buffer where p: "p = (count, buffer)" by (cases p)
    note l = law [OF Inr [unfolded p]]
    show ?thesis
    proof (cases "count = 0")
      case True
      with q Inr p l same show ?thesis by (subst maps_loop.simps) simp
    next
      case False
      with l have "length (take (nat count) buffer) = nat count" "0 < nat count" by simp_all
      moreover have split: "unread k fd = take (nat count) buffer @ unread k1 fd" using l by blast
      ultimately have less': "length (unread k1 fd) < length (unread k fd)"
        by (metis length_append less_add_same_cancel2)
      from q Inr p l False have step: "maps_loop L fd bytes k = maps_loop L fd (bytes @ take (nat count) buffer) k1"
        by (subst maps_loop.simps) simp
      from less [OF less', of "bytes @ take (nat count) buffer"] split same show ?thesis
        unfolding step by auto
    qed
  qed
qed

lemma maps_read_law:
  "\<exists>outcome k'. maps_read L k = (Ok outcome, k') \<and> mem k' = mem k \<and> prot k' = prot k \<and>
     (\<forall>bs. outcome = Inr bs \<longrightarrow> text_of bs = maps_text (mappings k))"
proof -
  obtain r k1 where q: "retry (lx_errno L) (\<lambda>k. case lx_open_maps L k of (fd, k') \<Rightarrow> ((fd, ()), k')) k = Some (r, k1)"
    "mem k1 = mem k" "prot k1 = prot k" "mappings k1 = mappings k"
    "\<And>fd u. r = Inr (fd, u) \<Longrightarrow> unread k1 fd = bytes_of (maps_text (mappings k))"
    using retry_open [of k] by blast
  show ?thesis
  proof (cases r)
    case (Inl code)
    with q show ?thesis by (simp add: maps_read_def)
  next
    case (Inr p)
    then obtain fd where fd: "r = Inr (fd, ())" by (cases p) auto
    from maps_loop_law [of fd "[]" k1] q fd show ?thesis
      by (auto simp: maps_read_def close_law)
  qed
qed

lemma maps_at_region:
  assumes "maps_at (mappings k) a = Some m"
  shows "mp_start m \<le> a \<and> a < mp_end m \<and>
    (\<forall>b. mp_start m \<le> b \<longrightarrow> b < mp_end m \<longrightarrow> prot k b = mapping_protection m)"
  using assms mappings_law [of m k] by (auto simp: maps_at_def find_Some_iff)

lemma linux_region_at_law:
  assumes "linux_region_at L a k = (r, k')"
  shows "returns r \<and> mem k' = mem k \<and> prot k' = prot k \<and>
      (\<forall>region. r = Ok (Some region) \<longrightarrow> rg_start region \<le> a \<and> a < rg_end region \<and>
         (\<forall>b. rg_start region \<le> b \<longrightarrow> b < rg_end region \<longrightarrow> prot k b = rg_protection region))"
proof -
  obtain outcome k1 where m: "maps_read L k = (Ok outcome, k1)" "mem k1 = mem k" "prot k1 = prot k"
    "\<And>bs. outcome = Inr bs \<Longrightarrow> text_of bs = maps_text (mappings k)"
    using maps_read_law [of k] by blast
  show ?thesis
  proof (cases outcome)
    case (Inl code)
    with assms m show ?thesis by (auto simp: linux_region_at_def)
  next
    case (Inr bs)
    have "\<forall>m\<in>set (mappings k). mapping_ok m" using mappings_law by blast
    with Inr m assms have "r = Ok (map_option mapping_region (maps_at (mappings k) a))" "k' = k1"
      by (auto simp: linux_region_at_def parse_region_maps)
    with m(2,3) maps_at_region [of k a] show ?thesis by (auto simp: mapping_region_def)
  qed
qed

end

sublocale linux_kernel \<subseteq> code_platform "linux_platform L" mem prot writable_protection "\<lambda>p. p OR PROT_WRITE"
proof
  fix a k r k'
  assume "region_at (linux_platform L) a k = (r, k')"
  then show "returns r \<and> mem k' = mem k \<and> prot k' = prot k \<and>
      (\<forall>region. r = Ok (Some region) \<longrightarrow> rg_readable region \<longrightarrow> rg_executable region \<longrightarrow>
         rg_start region \<le> a \<and> a < rg_end region \<and>
         (\<forall>b. rg_start region \<le> b \<longrightarrow> b < rg_end region \<longrightarrow> prot k b = rg_protection region))"
    using linux_region_at_law [of a k r k'] by (simp add: linux_platform_def)
next
  fix a n k r k'
  assume "read_bytes (linux_platform L) a n k = (r, k')"
  then show "returns r \<and> mem k' = mem k \<and> prot k' = prot k \<and>
      (\<forall>bs. r = Ok bs \<longrightarrow> (\<exists>c\<le>n. bs = fetch (mem k) a c))"
    using readv_law [of a n k] by (auto simp: linux_platform_def linux_read_bytes_def split: prod.splits if_splits)
next
  fix k r k'
  assume "page_size (linux_platform L) k = (r, k')"
  then show "returns r \<and> mem k' = mem k \<and> prot k' = prot k \<and> (\<forall>n. r = Ok n \<longrightarrow> 0 < n)"
    using pagesize_law [of k] by (auto simp: linux_platform_def linux_page_size_def split: prod.splits if_splits)
next
  fix page w k r k'
  assume "protect (linux_platform L) page w k = (r, k')"
  then show "returns r \<and> mem k' = mem k \<and>
      (\<forall>b. b \<notin> page_bytes page \<longrightarrow> prot k' b = prot k b) \<and>
      (\<forall>b. r = Ok () \<longrightarrow> b \<in> page_bytes page \<longrightarrow>
         prot k' b = (if w then pg_protection page OR PROT_WRITE else pg_protection page))"
    using mprotect_law [of "pg_address page" "pg_length page" _ k]
    by (auto simp: linux_platform_def linux_protect_def page_bytes_def Let_def split: prod.splits if_splits)
next
  fix a n k r k'
  assume "flush (linux_platform L) a n k = (r, k')"
  then show "returns r \<and> mem k' = mem k \<and> prot k' = prot k"
    using cache_law by (auto simp: linux_platform_def linux_flush_def)
next
  fix a k and bytes :: "u8 list"
  assume "\<And>b. a \<le> b \<Longrightarrow> b < a + length bytes \<Longrightarrow> writable_protection (prot k b)"
  then show "mem (store (linux_platform L) a bytes k) = write_bytes (mem k) a bytes \<and>
      prot (store (linux_platform L) a bytes k) = prot k"
    using store_bytes_law by (simp add: linux_platform_def)
qed (rule writable_write)

context linux_kernel
begin

lemma linux_contract: "code_platform (linux_platform L) mem prot writable_protection (\<lambda>p. p OR PROT_WRITE)"
  by unfold_locales

end

end
