(* ===== verification/Linux_Simulation.thy ===== *)
theory Linux_Simulation
  imports Linux_Memory
begin

text \<open>
  A small kernel that meets the contract of theory \<open>Linux_Memory\<close>: fifteen pages of 4096 bytes,
  each printed as a mapping of its own, with calls that never fail for lack of resources. It shows
  that the contract can hold, and it runs the program on concrete input.
\<close>

section \<open>The kernel\<close>

record sim =
  sm_bytes :: memory
  sm_perm :: "nat \<Rightarrow> nat"
  sm_unread :: "u8 list"
  sm_errno :: int

definition sim_pages :: nat where
  "sim_pages = 16"

definition sim_mapping :: "sim \<Rightarrow> nat \<Rightarrow> mapping" where
  "sim_mapping k i = \<lparr>mp_start = i * 4096, mp_end = Suc i * 4096, mp_read = odd (sm_perm k i),
     mp_write = odd (sm_perm k i div 2), mp_exec = odd (sm_perm k i div 4), mp_shared = False,
     mp_columns = ''00000000 00:00 0''\<rparr>"

definition sim_mappings :: "sim \<Rightarrow> mapping list" where
  "sim_mappings k = map (sim_mapping k) [1..<sim_pages]"

definition sim_prot :: "sim \<Rightarrow> usize \<Rightarrow> nat" where
  "sim_prot k b = (if 4096 \<le> b \<and> b < sim_pages * 4096 then sm_perm k (b div 4096) mod 8 else 0)"

definition sim_open :: "sim \<Rightarrow> int \<times> sim" where
  "sim_open k = (3, k\<lparr>sm_unread := bytes_of (maps_text (sim_mappings k))\<rparr>)"

definition sim_read :: "int \<Rightarrow> nat \<Rightarrow> sim \<Rightarrow> (int \<times> u8 list) \<times> sim" where
  "sim_read fd n k =
     (let chunk = take n (sm_unread k)
      in ((int (length chunk), chunk), k\<lparr>sm_unread := drop n (sm_unread k)\<rparr>))"

definition sim_mprotect :: "usize \<Rightarrow> nat \<Rightarrow> nat \<Rightarrow> sim \<Rightarrow> int \<times> sim" where
  "sim_mprotect a n p k =
     (if a mod 4096 = 0 \<and> n mod 4096 = 0 \<and> 4096 \<le> a \<and> a + n \<le> sim_pages * 4096 \<and> p < 8
      then (0, k\<lparr>sm_perm := (\<lambda>i. if a \<le> i * 4096 \<and> i * 4096 < a + n then p else sm_perm k i)\<rparr>)
      else (- 1, k\<lparr>sm_errno := 22\<rparr>))"

definition sim_kernel :: "sim linux" where
  "sim_kernel = \<lparr>lx_open_maps = sim_open, lx_read = sim_read, lx_close = (\<lambda>fd k. k),
     lx_errno = sm_errno, lx_strerror = (\<lambda>code. ''os error''),
     lx_vm_readv = (\<lambda>a n k. ((int n, fetch (sm_bytes k) a n), k)),
     lx_pagesize = (\<lambda>k. (4096, k)), lx_mprotect = sim_mprotect,
     lx_cache_flush = (\<lambda>a n k. k),
     lx_store = (\<lambda>a bs k. k\<lparr>sm_bytes := write_bytes (sm_bytes k) a bs\<rparr>)\<rparr>"

section \<open>It meets the contract\<close>

lemma sim_mapping_protection: "mapping_protection (sim_mapping k i) = sm_perm k i mod 8"
proof -
  have "p mod 8 = (if odd p then 1 else 0) + (if odd (p div 2) then 2 else 0) + (if odd (p div 4) then 4 else 0)"
    for p :: nat by presburger
  then show ?thesis by (simp add: mapping_protection_def sim_mapping_def)
qed

lemma sim_mapping_ok: "i < sim_pages \<Longrightarrow> mapping_ok (sim_mapping k i)"
  by (simp add: mapping_ok_def sim_mapping_def sim_pages_def usize_defs newline_def)

lemma sim_page_of: "i * 4096 \<le> b \<Longrightarrow> b < Suc i * 4096 \<Longrightarrow> b div 4096 = i" for b i :: nat
  by (simp add: div_nat_eqI mult.commute)

lemma page_in_range:
  fixes b c x y :: nat
  assumes "0 < c"
  shows "x * c \<le> b div c * c \<and> b div c * c < x * c + y * c \<longleftrightarrow> x * c \<le> b \<and> b < x * c + y * c"
  unfolding add_mult_distrib [symmetric] using assms
  by (simp add: less_eq_div_iff_mult_less_eq div_less_iff_less_mult)

interpretation sim: linux_kernel sim_kernel sm_bytes sim_prot sim_mappings "\<lambda>k fd. sm_unread k" "\<lambda>k. 0"
proof
  fix m k
  assume "m \<in> set (sim_mappings k)"
  then obtain i where i: "1 \<le> i" "i < sim_pages" "m = sim_mapping k i" by (auto simp: sim_mappings_def)
  have "sim_prot k b = mapping_protection m" if "mp_start m \<le> b" "b < mp_end m" for b
  proof -
    have b: "i * 4096 \<le> b" "b < Suc i * 4096" using that i(3) by (simp_all add: sim_mapping_def)
    with i have "b div 4096 = i" "4096 \<le> b" "b < sim_pages * 4096"
      by (auto simp: sim_page_of sim_pages_def)
    with i(3) show ?thesis by (simp add: sim_prot_def sim_mapping_protection)
  qed
  with i show "mapping_ok m \<and> (\<forall>b. mp_start m \<le> b \<longrightarrow> b < mp_end m \<longrightarrow> sim_prot k b = mapping_protection m)"
    by (simp add: sim_mapping_ok)
next
  fix a n p k result k'
  assume "lx_mprotect sim_kernel a n p k = (result, k')"
  then have q: "sim_mprotect a n p k = (result, k')" by (simp add: sim_kernel_def)
  show "sm_bytes k' = sm_bytes k \<and> (\<forall>b. b < a \<or> a + n \<le> b \<longrightarrow> sim_prot k' b = sim_prot k b) \<and>
      (result = 0 \<longrightarrow> (\<forall>b. a \<le> b \<longrightarrow> b < a + n \<longrightarrow> sim_prot k' b = p))"
  proof (cases "a mod 4096 = 0 \<and> n mod 4096 = 0 \<and> 4096 \<le> a \<and> a + n \<le> sim_pages * 4096 \<and> p < 8")
    case True
    then obtain x y where al: "a = x * 4096" "n = y * 4096" by (metis div_mult_mod_eq add_0_right)
    have in_range: "a \<le> b div 4096 * 4096 \<and> b div 4096 * 4096 < a + n \<longleftrightarrow> a \<le> b \<and> b < a + n" for b
      unfolding al by (rule page_in_range) simp
    from q True show ?thesis
      by (auto simp: sim_mprotect_def sim_prot_def in_range)
  next
    case False
    with q show ?thesis by (auto simp: sim_mprotect_def sim_prot_def)
  qed
qed (auto simp: sim_kernel_def sim_open_def sim_read_def sim_mappings_def sim_mapping_def sim_prot_def
    Let_def EINTR_def fun_eq_iff min_def)

section \<open>Running the program on it\<close>

lemma sim_retry_read:
  "retry (lx_errno sim_kernel) (lx_read sim_kernel fd 4096) k =
   Some (Inr (int (length (take 4096 (sm_unread k))), take 4096 (sm_unread k)),
     k\<lparr>sm_unread := drop 4096 (sm_unread k)\<rparr>)"
  by (subst retry.simps) (simp add: sim_kernel_def sim_read_def Let_def)

lemma sim_maps_loop:
  "maps_loop sim_kernel fd bytes k = Some (Ok (Inr (bytes @ sm_unread k)), k\<lparr>sm_unread := []\<rparr>)"
proof (induction "length (sm_unread k)" arbitrary: k bytes rule: less_induct)
  case less
  show ?case
  proof (cases "sm_unread k = []")
    case True
    then show ?thesis by (subst maps_loop.simps) (simp add: sim_retry_read)
  next
    case False
    then have "length (sm_unread (k\<lparr>sm_unread := drop 4096 (sm_unread k)\<rparr>)) < length (sm_unread k)" by simp
    from less [OF this, of "bytes @ take 4096 (sm_unread k)"] False show ?thesis
      by (subst maps_loop.simps) (cases "length (sm_unread k) \<le> 4096"; simp add: sim_retry_read min_def)
  qed
qed

lemma sim_maps_read:
  "maps_read sim_kernel k = (Ok (Inr (bytes_of (maps_text (sim_mappings k)))), k\<lparr>sm_unread := []\<rparr>)"
proof -
  have "retry (lx_errno sim_kernel) (\<lambda>k. case lx_open_maps sim_kernel k of (fd, k') \<Rightarrow> ((fd, ()), k')) k =
      Some (Inr (3, ()), k\<lparr>sm_unread := bytes_of (maps_text (sim_mappings k))\<rparr>)"
    by (subst retry.simps) (simp add: sim_kernel_def sim_open_def)
  then show ?thesis by (simp add: maps_read_def sim_maps_loop) (simp add: sim_kernel_def)
qed

lemma sim_find:
  "xs \<noteq> [] \<Longrightarrow> sorted xs \<Longrightarrow> distinct xs \<Longrightarrow> a div 4096 \<in> set xs \<Longrightarrow>
   List.find (\<lambda>m. mp_start m \<le> a \<and> a < mp_end m) (map (sim_mapping k) xs) = Some (sim_mapping k (a div 4096))"
proof (induction xs)
  case (Cons x xs)
  show ?case
  proof (cases "x = a div 4096")
    case True
    have "a div 4096 * 4096 \<le> a" "a < Suc (a div 4096) * 4096"
      using div_times_less_eq_dividend [of a 4096] dividend_less_div_times [of 4096 a] by simp_all
    with True show ?thesis by (simp add: sim_mapping_def)
  next
    case False
    with Cons.prems have "x < a div 4096" "a div 4096 \<in> set xs" by auto
    then have "Suc x * 4096 \<le> a" using less_eq_div_iff_mult_less_eq [of 4096 "Suc x" a] by simp
    moreover have "xs \<noteq> []" using \<open>a div 4096 \<in> set xs\<close> by auto
    ultimately show ?thesis using Cons \<open>a div 4096 \<in> set xs\<close> by (simp add: sim_mapping_def)
  qed
qed simp

lemma sim_region_at:
  assumes "4096 \<le> a" "a < sim_pages * 4096"
  shows "region_at (linux_platform sim_kernel) a k =
    (Ok (Some (mapping_region (sim_mapping k (a div 4096)))), k\<lparr>sm_unread := []\<rparr>)"
proof -
  have "1 \<le> a div 4096" "a div 4096 < sim_pages"
    using assms div_less_iff_less_mult [of 4096 a sim_pages] less_eq_div_iff_mult_less_eq [of 4096 1 a]
    by simp_all
  then have "maps_at (sim_mappings k) a = Some (sim_mapping k (a div 4096))"
    unfolding maps_at_def sim_mappings_def by (intro sim_find) (auto simp: sim_pages_def)
  moreover have "\<forall>m\<in>set (sim_mappings k). mapping_ok m"
    by (auto simp: sim_mappings_def sim_mapping_ok)
  ultimately show ?thesis
    by (simp add: linux_platform_def linux_region_at_def sim_maps_read parse_region_maps)
qed

lemma sim_calls:
  "read_bytes (linux_platform sim_kernel) a n k = (Ok (fetch (sm_bytes k) a n), k)"
  "page_size (linux_platform sim_kernel) k = (Ok 4096, k)"
  by (simp_all add: linux_platform_def linux_read_bytes_def linux_page_size_def sim_kernel_def)

text \<open>A process whose pages are readable and executable, and a patch of five bytes in one page.\<close>

definition sample_state :: "memory \<Rightarrow> sim" where
  "sample_state bytes = \<lparr>sm_bytes = bytes, sm_perm = (\<lambda>i. 5), sm_unread = [], sm_errno = 0\<rparr>"

lemma sample_regions:
  assumes "1 \<le> i" "i < 15" "offset + n \<le> 4096" "0 < n"
  shows "executable_regions (linux_platform sim_kernel) (i * 4096 + offset) n (sample_state bytes) =
    (Ok [mapping_region (sim_mapping (sample_state bytes) i)], sample_state bytes)"
proof -
  let ?a = "i * 4096 + offset"
  have a: "4096 \<le> ?a" "?a < sim_pages * 4096" "?a div 4096 = i" "?a + n \<le> usize_max"
    using assms by (auto simp: sim_pages_def usize_defs)
  have "region_at (linux_platform sim_kernel) ?a (sample_state bytes) =
      (Ok (Some (mapping_region (sim_mapping (sample_state bytes) i))), sample_state bytes)"
    using sim_region_at [OF a(1,2), of "sample_state bytes"] a(3) by (simp add: sample_state_def)
  then have "regions_loop (linux_platform sim_kernel) (?a + n) ?a [] (sample_state bytes) =
      Some (Ok [mapping_region (sim_mapping (sample_state bytes) i)], sample_state bytes)"
    using assms by (subst regions_loop.simps)
      (simp add: mapping_region_def sim_mapping_def sample_state_def regions_loop.simps)
  with assms a(4) show ?thesis by (simp add: executable_regions_def checked_end_def checked_add_def)
qed

lemma sample_page:
  assumes "1 \<le> i" "i < 15"
  shows "sim_mprotect (i * 4096) 4096 p k = (if p < 8
    then (0, k\<lparr>sm_perm := (\<lambda>j. if j = i then p else sm_perm k j)\<rparr>) else (- 1, k\<lparr>sm_errno := 22\<rparr>))"
proof -
  have "i * 4096 \<le> j * 4096 \<and> j * 4096 < i * 4096 + 4096 \<longleftrightarrow> j = i" for j :: nat by auto
  with assms show ?thesis by (auto simp: sim_mprotect_def sim_pages_def)
qed

lemma sample_replace:
  assumes i: "1 \<le> i" "i < 15" and fit: "offset + length old \<le> 4096" "old \<noteq> []"
    and len: "length new = length old" and now: "fetch bytes (i * 4096 + offset) (length old) = old"
  shows "replace (linux_platform sim_kernel) (i * 4096 + offset) old new (sample_state bytes) =
    (Ok (), sample_state (write_bytes bytes (i * 4096 + offset) new))"
proof -
  let ?a = "i * 4096 + offset" and ?P = "linux_platform sim_kernel"
  define page where "page = \<lparr>pg_address = i * 4096, pg_length = 4096, pg_protection = 5\<rparr>"
  have n: "0 < length old" using fit by simp
  have bound: "?a + length old + 4095 \<le> usize_max" using i fit by (simp add: usize_defs)
  have "offset < 4096" using fit(1) n by linarith
  then have zero: "offset div 4096 = 0" by simp
  have "(?a + length old + 4095) div 4096 = Suc i" using fit(1) n by (intro div_nat_eqI) presburger+
  then have pr: "page_range_of 4096 ?a ((?a + length old + 4095) div 4096 * 4096)
      (mapping_region (sim_mapping (sample_state bytes) i)) = Ok page"
    using zero by (simp add: page_range_of_def mapping_region_def sim_mapping_def sample_state_def
        mapping_protection_def page_def usize_sub_def Let_def)
  have five: "(5 :: nat) OR 2 = 7" "(5 :: nat) OR 0 = 5" by simp_all
  have "rewrite_pages ?P ?a old new [page] (sample_state bytes) =
      (Ok (), sample_state (write_bytes bytes ?a new))"
    using i by (simp add: rewrite_pages_def linux_platform_def linux_protect_def linux_flush_def
        sim_kernel_def sample_page page_def PROT_WRITE_def five sample_state_def fun_eq_iff Let_def)
  moreover have "rg_end (mapping_region (sim_mapping (sample_state bytes) i)) = Suc i * 4096"
    by (simp add: mapping_region_def sim_mapping_def)
  moreover have "sm_bytes (sample_state bytes) = bytes" by (simp add: sample_state_def)
  ultimately show ?thesis
    using sample_regions [OF i fit(1) n, of bytes] len now bound n pr fit i(1)
    by (simp add: replace_def replace_with_def checked_end_def checked_add_def usize_sub_def sim_calls)
qed

section \<open>Properties\<close>

text \<open>
  C8: Rewriting code is all or nothing on every platform that keeps the contract. The call ends as
  a \<^verbatim>\<open>Result\<close> or with the end of the process, never with a panic and never without an end. When it
  succeeds, the old bytes were the expected ones, the replacement stands in their place, no other
  byte differs, and every page has its protection back. When it fails, no byte differs; the
  protections are as before, except possibly inside a single page whose own protection call
  failed.
\<close>

theorem replace_all_or_nothing:
  assumes "code_platform P mem prot can_write grant"
    "replace P address expected replacement k = (r, k')"
  shows "(returns r \<or> r = Aborts) \<and>
    (r = Ok () \<longrightarrow> length replacement = length expected \<and> fetch (mem k) address (length expected) = expected \<and>
       mem k' = write_bytes (mem k) address replacement \<and> prot k' = prot k) \<and>
    (\<forall>e. r = Err e \<longrightarrow> mem k' = mem k \<and>
       (prot k' = prot k \<or>
        (\<exists>page k1 e' k2. protect P page True k1 = (Err e', k2) \<and>
           (\<forall>b. b \<notin> page_bytes page \<longrightarrow> prot k' b = prot k b))))"
  using leavesD [OF code_platform.replace_law [OF assms(1)] assms(2)]
  by (auto simp: settles_def code_platform.failed_page_def [OF assms(1)])

theorem replace_all_or_nothing_witness:
  "\<exists>k'. replace (linux_platform sim_kernel) 4112 [1, 2, 3] [4, 5, 6]
       (sample_state (write_bytes (\<lambda>_. 0) 4112 [1, 2, 3])) = (Ok (), k') \<and>
     sm_bytes k' = write_bytes (write_bytes (\<lambda>_. 0) 4112 [1, 2, 3]) 4112 [4, 5, 6]"
proof -
  let ?k = "sample_state (write_bytes (\<lambda>_. 0) 4112 [1, 2, 3])"
  obtain k' where run: "replace (linux_platform sim_kernel) 4112 [1, 2, 3] [4, 5, 6] ?k = (Ok (), k')"
    using sample_replace [of 1 16 "[1, 2, 3]" "[4, 5, 6]" "write_bytes (\<lambda>_. 0) 4112 [1, 2, 3]"]
    by (auto simp: write_bytes_def)
  from replace_all_or_nothing [OF sim.code_platform_axioms run] run show ?thesis
    by (simp add: sample_state_def)
qed

text \<open>
  C26: Parsing undoes printing: on the text the kernel prints for a list of mappings, the region
  found for an address is the first mapping that contains it, with its range, protection and
  access rights, and nothing is found when no mapping contains it.
\<close>

theorem parse_region_roundtrip:
  assumes "\<forall>m\<in>set ms. mapping_ok m"
  shows "parse_region (maps_text ms) address =
    Ok (map_option mapping_region (List.find (\<lambda>m. mp_start m \<le> address \<and> address < mp_end m) ms))"
  using parse_region_maps [OF assms] by (simp add: maps_at_def)

theorem parse_region_roundtrip_witness:
  "parse_region (maps_text [sim_mapping (sample_state (\<lambda>_. 0)) 1, sim_mapping (sample_state (\<lambda>_. 0)) 2]) 8200 =
   Ok (Some \<lparr>rg_start = 8192, rg_end = 12288, rg_protection = 5, rg_readable = True, rg_executable = True\<rparr>)"
proof -
  let ?ms = "[sim_mapping (sample_state (\<lambda>_. 0)) 1, sim_mapping (sample_state (\<lambda>_. 0)) 2]"
  have "\<forall>m\<in>set ?ms. mapping_ok m" by (simp add: sim_mapping_ok sim_pages_def)
  from parse_region_roundtrip [OF this, of 8200] show ?thesis
    by (simp add: mapping_region_def sim_mapping_def mapping_protection_def sample_state_def)
qed



end
