(* ===== verification/Mac_Memory.thy ===== *)
theory Mac_Memory
  imports Code_Memory
begin

text \<open>
  The macOS side of src/memory.rs: the platform functions of src/memory/macos.rs. The kernel is a
  record of calls. The locales state their documented behaviour: \<open>darwin_reader\<close> for the queries,
  which every build uses, and \<open>darwin_intel\<close> for the x86-64 build, which has the contract of
  \<open>code_platform\<close>. The Apple silicon build rewrites code in theory \<open>Mac_Remap\<close>.
\<close>

section \<open>Calls and constants\<close>

definition SUCCESS :: int where "SUCCESS = 0"

definition INVALID_ADDRESS :: int where "INVALID_ADDRESS = 1"

definition COPY :: nat where "COPY = 0x10"

text \<open>The fields of \<^verbatim>\<open>RegionInfo\<close> that the program reads.\<close>

record region_info =
  ri_protection :: nat
  ri_is_submap :: nat

text \<open>
  The calls, with their out parameters in the result: \<open>dw_region_recurse address depth\<close> returns a
  code, the start and size of the region, the depth and the description; \<open>dw_mmap\<close> is \<open>None\<close> for
  \<^verbatim>\<open>MAP_FAILED\<close>; \<open>dw_remap target length source\<close> maps the pages of \<open>source\<close> over \<open>target\<close>.
\<close>

record 'k darwin =
  dw_region_recurse :: "usize \<Rightarrow> nat \<Rightarrow> 'k \<Rightarrow> (int \<times> usize \<times> usize \<times> nat \<times> region_info) \<times> 'k"
  dw_read_overwrite :: "usize \<Rightarrow> usize \<Rightarrow> 'k \<Rightarrow> (int \<times> u8 list \<times> usize) \<times> 'k"
  dw_sysconf :: "'k \<Rightarrow> int \<times> 'k"
  dw_errno :: "'k \<Rightarrow> int"
  dw_cache_flush :: "usize \<Rightarrow> usize \<Rightarrow> 'k \<Rightarrow> 'k"
  dw_store :: "usize \<Rightarrow> u8 list \<Rightarrow> 'k \<Rightarrow> 'k"
  dw_vm_protect :: "usize \<Rightarrow> usize \<Rightarrow> nat \<Rightarrow> 'k \<Rightarrow> int \<times> 'k"
  dw_mmap :: "usize \<Rightarrow> 'k \<Rightarrow> usize option \<times> 'k"
  dw_mprotect :: "usize \<Rightarrow> usize \<Rightarrow> nat \<Rightarrow> 'k \<Rightarrow> int \<times> 'k"
  dw_remap :: "usize \<Rightarrow> usize \<Rightarrow> usize \<Rightarrow> 'k \<Rightarrow> int \<times> 'k"
  dw_munmap :: "usize \<Rightarrow> usize \<Rightarrow> 'k \<Rightarrow> int \<times> 'k"

section \<open>The platform functions\<close>

definition mach_check :: "string \<Rightarrow> int \<Rightarrow> unit result" where
  "mach_check operation code = (if code = SUCCESS then Ok () else Err (Os operation code))"

text \<open>
  The loop descends into submaps. It is a partial function; it ends because a kernel that reports
  a submap at some depth never reports it at a smaller one, and the depth is a \<^verbatim>\<open>u32\<close>.
\<close>

definition u32_max :: nat where "u32_max = 2 ^ 32 - 1"

partial_function (option) mac_region_loop ::
  "'k darwin \<Rightarrow> usize \<Rightarrow> nat \<Rightarrow> 'k \<Rightarrow> (region option result \<times> 'k) option" where
  "mac_region_loop D address depth k =
     (case dw_region_recurse D address depth k of ((result, start, size', depth', info), k') \<Rightarrow>
        if result = INVALID_ADDRESS then Some (Ok None, k')
        else if result \<noteq> SUCCESS then Some (Err (Os ''query memory'' result), k')
        else if ri_is_submap info \<noteq> 0
        then if u32_max \<le> depth' then Some (Err InvalidRange, k')
             else mac_region_loop D address (depth' + 1) k'
        else case checked_add start size' of
               None \<Rightarrow> Some (Err InvalidRange, k')
             | Some e \<Rightarrow>
                 if address < start \<or> e \<le> address then Some (Ok None, k')
                 else Some (Ok (Some \<lparr>rg_start = start, rg_end = e, rg_protection = ri_protection info,
                        rg_readable = (ri_protection info AND PROT_READ \<noteq> 0),
                        rg_executable = (ri_protection info AND PROT_EXEC \<noteq> 0)\<rparr>), k'))"

definition mac_region_at :: "'k darwin \<Rightarrow> usize \<Rightarrow> (region option, 'k) call" where
  "mac_region_at D address k = (case mac_region_loop D address 0 k of Some m \<Rightarrow> m | None \<Rightarrow> (Diverges, k))"

definition mac_read_bytes :: "'k darwin \<Rightarrow> usize \<Rightarrow> usize \<Rightarrow> (u8 list, 'k) call" where
  "mac_read_bytes D address len k =
     (case dw_read_overwrite D address len k of ((result, bytes, copied), k') \<Rightarrow>
        (and_then (mach_check ''read memory'' result) (\<lambda>_. Ok (take copied bytes)), k'))"

definition mac_page_size :: "'k darwin \<Rightarrow> (usize, 'k) call" where
  "mac_page_size D k =
     (case dw_sysconf D k of (bytes, k') \<Rightarrow>
        if bytes < 0 then (Err (Os ''page size'' (dw_errno D k')), k') else (Ok (nat bytes), k'))"

definition mac_protect :: "'k darwin \<Rightarrow> page_range \<Rightarrow> bool \<Rightarrow> (unit, 'k) call" where
  "mac_protect D page writable k =
     (let protection = pg_protection page OR (if writable then PROT_WRITE OR COPY else 0) in
      case dw_vm_protect D (pg_address page) (pg_length page) protection k of (result, k') \<Rightarrow>
        (mach_check ''protect memory'' result, k'))"

definition mac_flush :: "'k darwin \<Rightarrow> usize \<Rightarrow> usize \<Rightarrow> (unit, 'k) call" where
  "mac_flush D address len k =
     (mach_check ''flush instruction cache'' SUCCESS, dw_cache_flush D address len k)"

definition mac_platform :: "'k darwin \<Rightarrow> 'k platform" where
  "mac_platform D = \<lparr>region_at = mac_region_at D, read_bytes = mac_read_bytes D,
     page_size = mac_page_size D, protect = mac_protect D, flush = mac_flush D, store = dw_store D\<rparr>"

section \<open>What the program relies on\<close>

text \<open>
  The view \<open>prot\<close> tells the protection of a byte's page, and \<open>UNMAPPED\<close> where nothing is mapped.
  Queries change nothing; a region that is no submap is mapped with one protection.
\<close>

definition UNMAPPED :: nat where "UNMAPPED = 8"

locale darwin_reader =
  fixes D :: "'k darwin"
    and mem :: "'k \<Rightarrow> memory"
    and prot :: "'k \<Rightarrow> usize \<Rightarrow> nat"
  assumes recurse_law: "dw_region_recurse D a d k = ((result, start, n, d', info), k') \<Longrightarrow>
      mem k' = mem k \<and> prot k' = prot k \<and>
      (result = SUCCESS \<longrightarrow> ri_is_submap info \<noteq> 0 \<longrightarrow> d \<le> d') \<and>
      (result = SUCCESS \<longrightarrow> ri_is_submap info = 0 \<longrightarrow> ri_protection info < UNMAPPED \<and>
         (\<forall>b. start \<le> b \<longrightarrow> b < start + n \<longrightarrow> prot k b = ri_protection info))"
    and read_overwrite_law: "dw_read_overwrite D a n k = ((result, bytes, copied), k') \<Longrightarrow>
      mem k' = mem k \<and> prot k' = prot k \<and>
      (result = SUCCESS \<longrightarrow> copied \<le> n \<and> take copied bytes = fetch (mem k) a copied)"
    and sysconf_law: "dw_sysconf D k = (size', k') \<Longrightarrow> mem k' = mem k \<and> prot k' = prot k \<and> size' \<noteq> 0"
    and cache_flush_law: "mem (dw_cache_flush D a n k) = mem k \<and> prot (dw_cache_flush D a n k) = prot k"
begin

lemma mac_region_loop_law:
  "\<exists>r k'. mac_region_loop D a d k = Some (r, k') \<and> returns r \<and> mem k' = mem k \<and> prot k' = prot k \<and>
     (\<forall>region. r = Ok (Some region) \<longrightarrow> rg_start region \<le> a \<and> a < rg_end region \<and> rg_protection region < UNMAPPED \<and>
        (\<forall>b. rg_start region \<le> b \<longrightarrow> b < rg_end region \<longrightarrow> prot k b = rg_protection region))"
proof (induction "u32_max - d" arbitrary: d k rule: less_induct)
  case less
  obtain result start n d' info k1 where q: "dw_region_recurse D a d k = ((result, start, n, d', info), k1)"
    by (metis prod.exhaust)
  note law = recurse_law [OF q]
  show ?case
  proof (cases "result = SUCCESS \<and> ri_is_submap info \<noteq> 0 \<and> d' < u32_max")
    case True
    with law have "u32_max - (d' + 1) < u32_max - d" by auto
    from less [OF this, of k1] law True q show ?thesis
      by (subst mac_region_loop.simps) (simp add: SUCCESS_def INVALID_ADDRESS_def not_le)
  next
    case False
    with q law show ?thesis
      by (subst mac_region_loop.simps) (auto simp: not_less split: option.split)
  qed
qed

lemma mac_region_at_law:
  assumes "mac_region_at D a k = (r, k')"
  shows "returns r \<and> mem k' = mem k \<and> prot k' = prot k \<and>
     (\<forall>region. r = Ok (Some region) \<longrightarrow> rg_start region \<le> a \<and> a < rg_end region \<and> rg_protection region < UNMAPPED \<and>
        (\<forall>b. rg_start region \<le> b \<longrightarrow> b < rg_end region \<longrightarrow> prot k b = rg_protection region))"
  using mac_region_loop_law [of a 0 k] assms by (auto simp: mac_region_at_def)

lemma mac_read_bytes_law:
  assumes "mac_read_bytes D a n k = (r, k')"
  shows "returns r \<and> mem k' = mem k \<and> prot k' = prot k \<and> (\<forall>bs. r = Ok bs \<longrightarrow> (\<exists>c\<le>n. bs = fetch (mem k) a c))"
  using assms read_overwrite_law [of a n k]
  by (auto simp: mac_read_bytes_def mach_check_def split: prod.splits if_splits)

end

sublocale darwin_reader \<subseteq> code_reader "mac_platform D" mem prot
proof
  fix a k r k'
  assume "region_at (mac_platform D) a k = (r, k')"
  then show "returns r \<and> mem k' = mem k \<and> prot k' = prot k \<and>
      (\<forall>region. r = Ok (Some region) \<longrightarrow> rg_readable region \<longrightarrow> rg_executable region \<longrightarrow>
         rg_start region \<le> a \<and> a < rg_end region \<and>
         (\<forall>b. rg_start region \<le> b \<longrightarrow> b < rg_end region \<longrightarrow> prot k b = rg_protection region))"
    using mac_region_at_law [of a k r k'] by (simp add: mac_platform_def)
next
  fix a n k r k'
  assume "read_bytes (mac_platform D) a n k = (r, k')"
  then show "returns r \<and> mem k' = mem k \<and> prot k' = prot k \<and> (\<forall>bs. r = Ok bs \<longrightarrow> (\<exists>c\<le>n. bs = fetch (mem k) a c))"
    using mac_read_bytes_law [of a n k r k'] by (simp add: mac_platform_def)
next
  fix k r k'
  assume "page_size (mac_platform D) k = (r, k')"
  then show "returns r \<and> mem k' = mem k \<and> prot k' = prot k \<and> (\<forall>n. r = Ok n \<longrightarrow> 0 < n)"
    using sysconf_law [of k] by (auto simp: mac_platform_def mac_page_size_def split: prod.splits if_splits)
qed

context darwin_reader
begin

lemma code_region_mapped:
  assumes "code_region region"
  shows "rg_protection region < UNMAPPED"
proof -
  from assms obtain a k k' where "mac_region_at D a k = (Ok (Some region), k')"
    unfolding code_region_def by (auto simp: mac_platform_def)
  from mac_region_at_law [OF this] show ?thesis by simp
qed

end

text \<open>
  The x86-64 build changes the protection of a page in place. \<open>COPY\<close> asks for a private copy and is
  no part of the protection that the page gets.
\<close>

locale darwin_intel = darwin_reader D mem prot
  for D :: "'k darwin" and mem :: "'k \<Rightarrow> memory" and prot :: "'k \<Rightarrow> usize \<Rightarrow> nat" +
  assumes vm_protect_law: "dw_vm_protect D a n p k = (result, k') \<Longrightarrow>
      mem k' = mem k \<and> (\<forall>b. b < a \<or> a + n \<le> b \<longrightarrow> prot k' b = prot k b) \<and>
      (result = SUCCESS \<longrightarrow> (\<forall>b. a \<le> b \<longrightarrow> b < a + n \<longrightarrow> prot k' b = take_bit 3 p))"
    and intel_store_law: "(\<And>b. a \<le> b \<Longrightarrow> b < a + length data \<Longrightarrow> writable_protection (prot k b)) \<Longrightarrow>
      mem (dw_store D a data k) = write_bytes (mem k) a data \<and> prot (dw_store D a data k) = prot k"

lemma mac_grant: "p < UNMAPPED \<Longrightarrow> take_bit 3 (p OR (PROT_WRITE OR COPY)) = p OR PROT_WRITE"
  by (simp add: UNMAPPED_def PROT_WRITE_def COPY_def take_bit_or take_bit_nat_eq_self)

sublocale darwin_intel \<subseteq> code_platform "mac_platform D" mem prot writable_protection "\<lambda>p. p OR PROT_WRITE"
proof
  fix region page w k r k'
  assume "code_region region" "rg_protection region = pg_protection page" and q: "protect (mac_platform D) page w k = (r, k')"
  from code_region_mapped [OF this(1)] this(2) have p: "pg_protection page < UNMAPPED" by simp
  then have "take_bit 3 (pg_protection page) = pg_protection page" by (simp add: UNMAPPED_def take_bit_nat_eq_self)
  with q show "returns r \<and> mem k' = mem k \<and>
      (\<forall>b. b \<notin> page_bytes page \<longrightarrow> prot k' b = prot k b) \<and>
      (\<forall>b. r = Ok () \<longrightarrow> b \<in> page_bytes page \<longrightarrow>
         prot k' b = (if w then pg_protection page OR PROT_WRITE else pg_protection page))"
    using vm_protect_law [of "pg_address page" "pg_length page" _ k] mac_grant [OF p]
    by (auto simp: mac_platform_def mac_protect_def mach_check_def page_bytes_def Let_def split: prod.splits if_splits)
next
  fix a n k r k'
  assume "flush (mac_platform D) a n k = (r, k')"
  then show "returns r \<and> mem k' = mem k \<and> prot k' = prot k"
    using cache_flush_law by (auto simp: mac_platform_def mac_flush_def mach_check_def)
next
  fix a k and bytes :: "u8 list"
  assume "\<And>b. a \<le> b \<Longrightarrow> b < a + length bytes \<Longrightarrow> writable_protection (prot k b)"
  then show "mem (store (mac_platform D) a bytes k) = write_bytes (mem k) a bytes \<and>
      prot (store (mac_platform D) a bytes k) = prot k"
    using intel_store_law by (simp add: mac_platform_def)
qed (rule writable_write)

context darwin_intel
begin

lemma intel_contract: "code_platform (mac_platform D) mem prot writable_protection (\<lambda>p. p OR PROT_WRITE)"
  by unfold_locales

end

end
