(* ===== verification/Mac_Remap.thy ===== *)
theory Mac_Remap
  imports Mac_Memory
begin

text \<open>
  src/memory/macos/remap.rs, which rewrites code on Apple silicon. A page there can never be writable
  and executable, so the new contents are staged in fresh mappings, sealed, and remapped over the
  code; the old contents are staged beside them to undo a failure. The locale \<open>darwin_arm\<close> states the
  documented behaviour of the calls; in it the replacement of code is proved all or nothing and free
  of leaks. A simulated kernel with small pages shows that the behaviour can be had, and a
  replacement across two pages is run on it.
\<close>

section \<open>Remapped pages\<close>

record image =
  im_address :: usize
  im_length :: usize

definition image_release :: "'k darwin \<Rightarrow> image \<Rightarrow> (unit, 'k) call" where
  "image_release D img k =
     (case dw_munmap D (im_address img) (im_length img) k of (result, k') \<Rightarrow>
        if result \<noteq> 0 then (Err (Os ''release patch'' (dw_errno D k')), k') else (Ok (), k'))"

definition drop_image :: "'k darwin \<Rightarrow> image \<Rightarrow> (unit, 'k) call" where
  "drop_image D img k = or_fatal (image_release D img k)"

text \<open>Leaving a scope early drops what it owns.\<close>

fun leaving :: "(unit, 'k) call \<Rightarrow> 'a result \<times> 'k \<Rightarrow> 'a result \<times> 'k" where
  "leaving d (Err e, k) = andThen (d k) (\<lambda>_ k. (Err e, k))"
| "leaving d (Panics m, k) = andThen (d k) (\<lambda>_ k. (Panics m, k))"
| "leaving d other = other"

definition image_new :: "'k darwin \<Rightarrow> u8 list \<Rightarrow> nat \<Rightarrow> (image, 'k) call" where
  "image_new D bytes protection k =
     (case dw_mmap D (length bytes) k of
        (None, k') \<Rightarrow> (Err (Os ''allocate patch'' (dw_errno D k')), k')
      | (Some pointer, k') \<Rightarrow>
          let img = \<lparr>im_address = pointer, im_length = length bytes\<rparr> in
          leaving (drop_image D img)
            (case dw_mprotect D pointer (length bytes) protection (dw_store D pointer bytes k') of (result, k2) \<Rightarrow>
               if result \<noteq> 0 then (Err (Os ''seal patch'' (dw_errno D k2)), k2)
               else (Ok img, dw_cache_flush D (im_address img) (im_length img) k2)))"

definition image_install :: "'k darwin \<Rightarrow> image \<Rightarrow> usize \<Rightarrow> (unit, 'k) call" where
  "image_install D img address k =
     (case dw_remap D address (im_length img) (im_address img) k of (result, k') \<Rightarrow>
        (mach_check ''protect memory'' result, k'))"

text \<open>The contents of a page with the part of the replacement that falls into it.\<close>

definition patched_page :: "usize \<Rightarrow> u8 list \<Rightarrow> page_range \<Rightarrow> u8 list \<Rightarrow> u8 list result" where
  "patched_page address replacement page bytes =
     (let e = address + length replacement;
          start = max address (pg_address page);
          limit = min e (pg_address page + pg_length page) in
      and_then (usize_sub start (pg_address page)) (\<lambda>i.
      and_then (usize_sub limit (pg_address page)) (\<lambda>j.
      and_then (subslice bytes i j) (\<lambda>target.
      and_then (usize_sub start address) (\<lambda>x.
      and_then (usize_sub limit address) (\<lambda>y.
      and_then (subslice replacement x y) (\<lambda>part.
        if length part \<noteq> length target
        then Panics ''source slice length does not match destination slice length''
        else copy_from_slice bytes i part)))))))"

type_synonym staged = "usize \<times> image \<times> image"

definition stage_page :: "'k darwin \<Rightarrow> usize \<Rightarrow> u8 list \<Rightarrow> page_range \<Rightarrow> (staged, 'k) call" where
  "stage_page D address replacement page k =
     andThen (mac_read_bytes D (pg_address page) (pg_length page) k) (\<lambda>bytes k.
       if length bytes \<noteq> pg_length page then (Err InvalidRange, k)
       else
         andThen (image_new D bytes (pg_protection page) k) (\<lambda>original k.
           leaving (drop_image D original)
             (andThen (patched_page address replacement page bytes, k) (\<lambda>bytes k.
              andThen (image_new D bytes (pg_protection page) k) (\<lambda>updated k.
                (Ok (pg_address page, original, updated), k))))))"

primrec drop_images :: "'k darwin \<Rightarrow> staged list \<Rightarrow> (unit, 'k) call" where
  "drop_images D [] k = (Ok (), k)"
| "drop_images D (entry # entries) k =
     andThen (drop_image D (fst (snd entry)) k) (\<lambda>_ k.
     andThen (drop_image D (snd (snd entry)) k) (\<lambda>_. drop_images D entries))"

primrec stage_pages :: "'k darwin \<Rightarrow> usize \<Rightarrow> u8 list \<Rightarrow> page_range list \<Rightarrow> staged list \<Rightarrow> (staged list, 'k) call" where
  "stage_pages D address replacement [] images k = (Ok images, k)"
| "stage_pages D address replacement (page # pages) images k =
     andThen (leaving (drop_images D images) (stage_page D address replacement page k)) (\<lambda>entry.
       stage_pages D address replacement pages (images @ [entry]))"

definition put_image :: "'k darwin \<Rightarrow> usize \<Rightarrow> image \<Rightarrow> (unit, 'k) call" where
  "put_image D page img k =
     andThen (image_install D img page k) (\<lambda>_. mac_flush D page (im_length img))"

primrec put_back :: "'k darwin \<Rightarrow> staged list \<Rightarrow> (unit, 'k) call" where
  "put_back D [] k = (Ok (), k)"
| "put_back D (entry # entries) k =
     andThen (or_fatal (put_image D (fst entry) (fst (snd entry)) k)) (\<lambda>_. put_back D entries)"

text \<open>The second loop; \<open>before\<close> are the pages that are installed already.\<close>

primrec install_images :: "'k darwin \<Rightarrow> staged list \<Rightarrow> staged list \<Rightarrow> (unit, 'k) call" where
  "install_images D before [] k = (Ok (), k)"
| "install_images D before (entry # entries) k =
     andThen (on_error (put_image D (fst entry) (snd (snd entry)) k) (\<lambda>error k.
        andThen (put_back D (rev (before @ [entry])) k) (\<lambda>_ k. (Err error, k))))
       (\<lambda>_. install_images D (before @ [entry]) entries)"

definition stage_and_install :: "'k darwin \<Rightarrow> usize \<Rightarrow> u8 list \<Rightarrow> page_range list \<Rightarrow> (unit, 'k) call" where
  "stage_and_install D address replacement pages k =
     andThen (stage_pages D address replacement pages [] k) (\<lambda>images k.
       andThen (leaving (drop_images D images) (install_images D [] images k)) (\<lambda>_. drop_images D images))"

definition replace_pages :: "'k darwin \<Rightarrow> usize \<Rightarrow> u8 list \<Rightarrow> page_range list \<Rightarrow> (unit, 'k) call" where
  "replace_pages D address replacement pages = stage_and_install D address replacement pages"

text \<open>\<^verbatim>\<open>replace\<close> of src/memory.rs in the Apple silicon build.\<close>

definition mac_replace :: "'k darwin \<Rightarrow> usize \<Rightarrow> u8 list \<Rightarrow> u8 list \<Rightarrow> (unit, 'k) call" where
  "mac_replace D = replace_with (mac_platform D)
     (\<lambda>address original replacement pages. replace_pages D address replacement pages)"

section \<open>What the program relies on\<close>

text \<open>
  Pages are mapped, sealed, remapped and unmapped in whole pages of \<open>psize\<close> bytes. A fresh mapping
  takes addresses where nothing was mapped. A store writes the mapping it was made for. Remapping
  \<open>source\<close> over \<open>target\<close> touches only the bytes of \<open>target\<close>: it gives them the contents and the
  protection of \<open>source\<close>, or it fails and may leave them in any state.
\<close>

lemma apart: "A \<inter> B = {} \<Longrightarrow> x \<in> B \<Longrightarrow> x \<notin> A"
  by blast

locale darwin_arm = darwin_reader D mem prot
  for D :: "'k darwin" and mem :: "'k \<Rightarrow> memory" and prot :: "'k \<Rightarrow> usize \<Rightarrow> nat" +
  fixes psize :: usize
  assumes sysconf_pages: "dw_sysconf D k = (bytes, k') \<Longrightarrow> 0 \<le> bytes \<Longrightarrow> bytes = int psize"
    and recurse_pages: "dw_region_recurse D a d k = ((SUCCESS, start, n, d', info), k') \<Longrightarrow>
      ri_is_submap info = 0 \<Longrightarrow> psize dvd start \<and> psize dvd n"
    and mmap_none: "dw_mmap D n k = (None, k') \<Longrightarrow> mem k' = mem k \<and> prot k' = prot k"
    and mmap_some: "dw_mmap D n k = (Some a, k') \<Longrightarrow> psize dvd n \<Longrightarrow> psize dvd a \<and>
      (\<forall>b\<in>{a ..< a + n}. prot k b = UNMAPPED \<and> prot k' b = PROT_READ OR PROT_WRITE) \<and>
      (\<forall>b. b \<notin> {a ..< a + n} \<longrightarrow> prot k' b = prot k b \<and> mem k' b = mem k b)"
    and mmap_store: "dw_mmap D (length data) k = (Some a, k') \<Longrightarrow> psize dvd length data \<Longrightarrow>
      mem (dw_store D a data k') = write_bytes (mem k') a data \<and> prot (dw_store D a data k') = prot k'"
    and mprotect_law: "dw_mprotect D a n p k = (result, k') \<Longrightarrow> psize dvd a \<Longrightarrow> psize dvd n \<Longrightarrow> p < UNMAPPED \<Longrightarrow>
      mem k' = mem k \<and> (\<forall>b. b \<notin> {a ..< a + n} \<longrightarrow> prot k' b = prot k b) \<and>
      (\<forall>b. prot k' b = UNMAPPED \<longleftrightarrow> prot k b = UNMAPPED) \<and>
      (result = 0 \<longrightarrow> (\<forall>b\<in>{a ..< a + n}. prot k' b = p))"
    and remap_law: "dw_remap D target n source k = (result, k') \<Longrightarrow>
      psize dvd target \<Longrightarrow> psize dvd source \<Longrightarrow> psize dvd n \<Longrightarrow>
      {target ..< target + n} \<inter> {source ..< source + n} = {} \<Longrightarrow>
      (\<forall>b. b \<notin> {target ..< target + n} \<longrightarrow> prot k' b = prot k b \<and> mem k' b = mem k b) \<and>
      (result = SUCCESS \<longrightarrow> (\<forall>i<n. prot k' (target + i) = prot k (source + i) \<and>
         mem k' (target + i) = mem k (source + i)))"
    and munmap_law: "dw_munmap D a n k = (result, k') \<Longrightarrow> psize dvd a \<Longrightarrow> psize dvd n \<Longrightarrow>
      (\<forall>b. b \<notin> {a ..< a + n} \<longrightarrow> prot k' b = prot k b \<and> mem k' b = mem k b) \<and>
      (result = 0 \<longrightarrow> (\<forall>b\<in>{a ..< a + n}. prot k' b = UNMAPPED))"
begin

text \<open>The pages that \<open>replace\<close> cuts out are whole pages.\<close>

lemma region_loop_pages:
  assumes "mac_region_loop D a d k = Some (Ok (Some region), k')"
  shows "psize dvd rg_start region \<and> psize dvd rg_end region"
  using assms
proof (induction "u32_max - d" arbitrary: d k rule: less_induct)
  case less
  obtain result start n d' info k1 where q: "dw_region_recurse D a d k = ((result, start, n, d', info), k1)"
    by (metis prod.exhaust)
  show ?case
  proof (cases "result = SUCCESS \<and> ri_is_submap info \<noteq> 0 \<and> d' < u32_max")
    case True
    with recurse_law [OF q] have "u32_max - (d' + 1) < u32_max - d" by auto
    from less.hyps [OF this, of k1] less.prems True q show ?thesis
      by (simp add: mac_region_loop.simps [of D a d] SUCCESS_def INVALID_ADDRESS_def not_le)
  next
    case False
    with less.prems q show ?thesis
      using recurse_pages [of a d k start n d' info k1]
      by (auto simp: mac_region_loop.simps [of D a d] split: if_splits option.splits)
  qed
qed

lemma code_region_pages:
  assumes "code_region region"
  shows "psize dvd rg_start region \<and> psize dvd rg_end region"
proof -
  from assms obtain a k k' where "mac_region_at D a k = (Ok (Some region), k')"
    unfolding code_region_def by (auto simp: mac_platform_def)
  then show ?thesis by (auto simp: mac_region_at_def dest: region_loop_pages split: option.splits)
qed

definition whole :: "page_range \<Rightarrow> bool" where
  "whole page \<longleftrightarrow> psize dvd pg_address page \<and> psize dvd pg_length page \<and> pg_protection page < UNMAPPED"

lemma granular_whole:
  assumes "granular a page"
  shows "whole page"
proof -
  from assms obtain ps k k' n r where p: "page_size (mac_platform D) k = (Ok ps, k')" "code_region r"
    "page_range_of ps a (n * ps) r = Ok page" unfolding granular_def by blast
  from p(1) sysconf_pages have "ps = psize"
    by (force simp: mac_platform_def mac_page_size_def split: prod.splits if_splits)
  with p code_region_pages [OF p(2)] code_region_mapped [OF p(2)] show ?thesis
    by (auto simp: page_range_of_def whole_def Let_def max_def min_def result_simps)
qed

text \<open>
  What the staging and installing steps keep of the state \<open>k0\<close> they start in. \<open>R\<close> are the bytes of
  the staged images, all outside the memory mapped in \<open>k0\<close>; \<open>X\<close> are the bytes that still differ
  from the contents \<open>m\<close>. When both are empty, nothing is left behind.
\<close>

definition mapped :: "'k \<Rightarrow> usize set" where
  "mapped k = {b. prot k b \<noteq> UNMAPPED}"

definition tracked :: "'k \<Rightarrow> memory \<Rightarrow> usize set \<Rightarrow> usize set \<Rightarrow> 'k \<Rightarrow> bool" where
  "tracked k0 m X R k \<longleftrightarrow> R \<inter> mapped k0 = {} \<and> X \<subseteq> mapped k0 \<and>
     (\<forall>b. b \<notin> R \<longrightarrow> b \<notin> X \<longrightarrow> prot k b = prot k0 b) \<and> (\<forall>b\<in>R. prot k b \<noteq> UNMAPPED) \<and>
     (\<forall>b\<in>mapped k0 - X. mem k b = m b)"

lemma tracked_none: "tracked k0 m {} {} k \<longleftrightarrow> prot k = prot k0 \<and> (\<forall>b\<in>mapped k0. mem k b = m b)"
  by (auto simp: tracked_def fun_eq_iff)

lemma tracked_start: "tracked k (mem k) {} {} k"
  by (simp add: tracked_none)

definition span :: "image \<Rightarrow> usize set" where
  "span img = {im_address img ..< im_address img + im_length img}"

definition aligned :: "image \<Rightarrow> bool" where
  "aligned img \<longleftrightarrow> psize dvd im_address img \<and> psize dvd im_length img"

definition keeps :: "usize set \<Rightarrow> 'k \<Rightarrow> 'k \<Rightarrow> bool" where
  "keeps R k k' \<longleftrightarrow> (\<forall>b\<in>R. mem k' b = mem k b \<and> prot k' b = prot k b)"

lemma keeps_trans: "keeps R k k1 \<Longrightarrow> keeps R' k1 k2 \<Longrightarrow> R \<subseteq> R' \<Longrightarrow> keeps R k k2"
  by (auto simp: keeps_def)

definition holds :: "'k \<Rightarrow> image \<Rightarrow> u8 list \<Rightarrow> nat \<Rightarrow> bool" where
  "holds k img data p \<longleftrightarrow> aligned img \<and> im_length img = length data \<and>
     (\<forall>i<length data. mem k (im_address img + i) = data ! i) \<and> (\<forall>b\<in>span img. prot k b = p)"

lemma holds_keeps: "holds k img data p \<Longrightarrow> keeps R k k' \<Longrightarrow> span img \<subseteq> R \<Longrightarrow> holds k' img data p"
  by (auto simp: holds_def keeps_def span_def subset_iff)

lemma drop_image_law:
  assumes "tracked k0 m X R k" "aligned img" "span img \<inter> mapped k0 = {}"
  shows "leaves (drop_image D img k) (\<lambda>r k'. (r = Ok () \<or> r = Aborts) \<and>
    (r = Ok () \<longrightarrow> tracked k0 m X (R - span img) k'))"
proof -
  obtain result k' where q: "dw_munmap D (im_address img) (im_length img) k = (result, k')"
    by (cases "dw_munmap D (im_address img) (im_length img) k")
  from munmap_law [OF q] assms(2)
  have law: "\<And>b. b \<notin> span img \<Longrightarrow> prot k' b = prot k b \<and> mem k' b = mem k b"
    "result = 0 \<Longrightarrow> b \<in> span img \<Longrightarrow> prot k' b = UNMAPPED" for b by (simp_all add: aligned_def span_def)
  show ?thesis
  proof (cases "result = 0")
    case True
    have "tracked k0 m X (R - span img) k'"
      unfolding tracked_def
    proof (intro conjI allI ballI impI)
      fix b
      assume "b \<notin> R - span img" "b \<notin> X"
      then show "prot k' b = prot k0 b"
        using law True assms(1,3) by (cases "b \<in> span img") (auto simp: tracked_def mapped_def)
    qed (use law assms(1) apart [OF assms(3)] in \<open>auto simp: tracked_def\<close>)
    with q True show ?thesis by (simp add: drop_image_def image_release_def)
  qed (use q in \<open>simp add: drop_image_def image_release_def\<close>)
qed

lemma image_new_law:
  assumes t: "tracked k0 m {} R k" and n: "psize dvd length data" "p < UNMAPPED"
  shows "leaves (image_new D data p k) (\<lambda>r k'. settles r \<and>
    (\<forall>img. r = Ok img \<longrightarrow> holds k' img data p \<and> tracked k0 m {} (R \<union> span img) k' \<and> keeps R k k' \<and>
       span img \<inter> R = {}) \<and>
    (\<forall>e. r = Err e \<longrightarrow> tracked k0 m {} R k'))"
proof (cases "dw_mmap D (length data) k")
  case (Pair pointer k1)
  show ?thesis
  proof (cases pointer)
    case None
    with mmap_none [of "length data" k k1] Pair t show ?thesis
      by (simp add: image_new_def tracked_def)
  next
    case (Some a)
    let ?img = "\<lparr>im_address = a, im_length = length data\<rparr>"
    let ?k2 = "dw_store D a data k1"
    note q = Pair [unfolded Some]
    have map: "psize dvd a" "\<And>b. b \<in> span ?img \<Longrightarrow> prot k b = UNMAPPED \<and> prot k1 b \<noteq> UNMAPPED"
      "\<And>b. b \<notin> span ?img \<Longrightarrow> prot k1 b = prot k b \<and> mem k1 b = mem k b"
      using mmap_some [OF q n(1)] by (auto simp: span_def UNMAPPED_def PROT_READ_def PROT_WRITE_def)
    have store: "mem ?k2 = write_bytes (mem k1) a data" "prot ?k2 = prot k1"
      using mmap_store [OF q n(1)] by simp_all
    have fresh: "span ?img \<inter> R = {}" "span ?img \<inter> mapped k0 = {}"
      using map(2) t by (auto simp: tracked_def mapped_def)
    obtain result k3 where seal: "dw_mprotect D a (length data) p ?k2 = (result, k3)"
      by (cases "dw_mprotect D a (length data) p ?k2")
    from mprotect_law [OF seal map(1) n] have l3: "mem k3 = mem ?k2"
      "\<And>b. b \<notin> span ?img \<Longrightarrow> prot k3 b = prot ?k2 b" "\<And>b. b \<in> span ?img \<Longrightarrow> prot k3 b \<noteq> UNMAPPED"
      "result = 0 \<Longrightarrow> b \<in> span ?img \<Longrightarrow> prot k3 b = p" for b
      using store map(2) by (auto simp: span_def)
    have out: "prot k3 b = prot k b" "mem k3 b = mem k b" if "b \<notin> span ?img" for b
      using that l3 store map(3) by (auto simp: write_bytes_def span_def)
    have t3: "tracked k0 m {} (R \<union> span ?img) k3" and keep: "keeps R k k3"
      using t out l3(3) fresh [THEN apart] by (auto simp: tracked_def keeps_def)
    have al: "aligned ?img" using map(1) n by (simp add: aligned_def)
    show ?thesis
    proof (cases "result = 0")
      case True
      have "holds k3 ?img data p"
        using l3 al True store by (auto simp: holds_def span_def write_bytes_def)
      with t3 keep fresh q seal True cache_flush_law show ?thesis
        by (simp add: image_new_def Let_def tracked_def holds_def keeps_def)
    next
      case False
      have "R \<union> span ?img - span ?img = R" using fresh by auto
      with drop_image_law [OF t3 al fresh(2)] q seal False show ?thesis
        by (cases "drop_image D ?img k3") (auto simp: image_new_def Let_def)
    qed
  qed
qed

text \<open>The new contents of a page are those of the memory after the replacement.\<close>

lemma patched_page_law:
  assumes "touches a (a + length replacement) page"
  shows "patched_page a replacement page (fetch m (pg_address page) (pg_length page)) =
    Ok (fetch (write_bytes m a replacement) (pg_address page) (pg_length page))"
proof -
  define s where "s = max a (pg_address page)"
  define l where "l = min (a + length replacement) (pg_address page + pg_length page)"
  have b: "a \<le> s" "pg_address page \<le> s" "s \<le> l" "l \<le> a + length replacement" "l \<le> pg_address page + pg_length page"
    "l - a \<le> length replacement" "l - pg_address page \<le> pg_length page"
    using assms by (auto simp: touches_def s_def l_def)
  have "splice_at (fetch m (pg_address page) (pg_length page)) (s - pg_address page)
      (take (l - a - (s - a)) (drop (s - a) replacement)) =
    fetch (write_bytes m a replacement) (pg_address page) (pg_length page)"
    using b(1-5) by (intro nth_equalityI)
      (auto simp: nth_splice_at fetch_def write_bytes_def add.commute s_def l_def)
  with b show ?thesis
    unfolding patched_page_def Let_def s_def [symmetric] l_def [symmetric]
    by (simp add: usize_sub_def subslice_def copy_from_slice_def diff_le_mono)
qed

definition entry_ok :: "'k \<Rightarrow> memory \<Rightarrow> 'k \<Rightarrow> page_range \<Rightarrow> staged \<Rightarrow> bool" where
  "entry_ok k0 m k page entry \<longleftrightarrow> fst entry = pg_address page \<and>
     holds k (fst (snd entry)) (fetch (mem k0) (pg_address page) (pg_length page)) (pg_protection page) \<and>
     holds k (snd (snd entry)) (fetch m (pg_address page) (pg_length page)) (pg_protection page)"

definition spans :: "staged \<Rightarrow> usize set" where
  "spans entry = span (fst (snd entry)) \<union> span (snd (snd entry))"

definition page_ok :: "'k \<Rightarrow> usize \<Rightarrow> usize \<Rightarrow> page_range \<Rightarrow> bool" where
  "page_ok k0 a e page \<longleftrightarrow> whole page \<and> touches a e page \<and> (\<forall>b\<in>page_bytes page. prot k0 b = pg_protection page)"

lemma page_ok_mapped: "page_ok k0 a e page \<Longrightarrow> page_bytes page \<subseteq> mapped k0"
  by (auto simp: page_ok_def whole_def mapped_def)

lemma stage_page_law:
  assumes t: "tracked k0 (mem k0) {} R k" and page: "page_ok k0 a (a + length replacement) page"
    and m: "m = write_bytes (mem k0) a replacement"
  shows "leaves (stage_page D a replacement page k) (\<lambda>r k'. settles r \<and>
    (\<forall>entry. r = Ok entry \<longrightarrow> entry_ok k0 m k' page entry \<and>
       tracked k0 (mem k0) {} (R \<union> spans entry) k' \<and> keeps R k k') \<and>
    (\<forall>e. r = Err e \<longrightarrow> tracked k0 (mem k0) {} R k'))"
proof -
  let ?a = "pg_address page" and ?n = "pg_length page" and ?p = "pg_protection page"
  obtain rr k1 where read: "mac_read_bytes D ?a ?n k = (rr, k1)" by (cases "mac_read_bytes D ?a ?n k")
  note l1 = mac_read_bytes_law [OF read]
  from page have w: "psize dvd ?n" "?p < UNMAPPED" by (simp_all add: page_ok_def whole_def)
  have t1: "tracked k0 (mem k0) {} R k1" and keep1: "keeps R k k1" using t l1 by (simp_all add: tracked_def keeps_def)
  have old: "fetch (mem k) ?a ?n = fetch (mem k0) ?a ?n"
    using t page_ok_mapped [OF page] by (auto simp: tracked_def fetch_def page_bytes_def subset_iff)
  show ?thesis
  proof (cases "rr = Ok (fetch (mem k0) ?a ?n)")
    case False
    have "\<exists>e. stage_page D a replacement page k = (Err e, k1)"
      using read l1 False old by (cases rr) (auto simp: stage_page_def)
    with t1 show ?thesis by auto
  next
    case True
    obtain ro k2 where new1: "image_new D (fetch (mem k0) ?a ?n) ?p k1 = (ro, k2)"
      by (cases "image_new D (fetch (mem k0) ?a ?n) ?p k1")
    have l2: "settles ro" "\<And>img. ro = Ok img \<Longrightarrow> holds k2 img (fetch (mem k0) ?a ?n) ?p \<and>
        tracked k0 (mem k0) {} (R \<union> span img) k2 \<and> keeps R k1 k2 \<and> span img \<inter> R = {}" "\<And>e. ro = Err e \<Longrightarrow> tracked k0 (mem k0) {} R k2"
      using leavesD [OF image_new_law [OF t1 _ w(2)] new1] w(1) by auto
    show ?thesis
    proof (cases ro)
      case (Ok original)
      with l2 have h: "holds k2 original (fetch (mem k0) ?a ?n) ?p"
        and t2: "tracked k0 (mem k0) {} (R \<union> span original) k2" and keep2: "keeps R k1 k2"
        and fresh: "span original \<inter> R = {}" by simp_all
      obtain ru k3 where new2: "image_new D (fetch m ?a ?n) ?p k2 = (ru, k3)"
        by (cases "image_new D (fetch m ?a ?n) ?p k2")
      from leavesD [OF image_new_law [OF t2 _ w(2)] new2] w(1)
      have l3: "settles ru" "\<And>img. ru = Ok img \<Longrightarrow> holds k3 img (fetch m ?a ?n) ?p \<and>
          tracked k0 (mem k0) {} (R \<union> span original \<union> span img) k3 \<and> keeps (R \<union> span original) k2 k3"
        "\<And>e. ru = Err e \<Longrightarrow> tracked k0 (mem k0) {} (R \<union> span original) k3" by auto
      have run: "stage_page D a replacement page k = leaving (drop_image D original)
          (andThen (ru, k3) (\<lambda>updated k. (Ok (?a, original, updated), k)))"
        using read True new1 Ok new2 page by (simp add: stage_page_def patched_page_law page_ok_def m)
      show ?thesis
      proof (cases ru)
        case upd: (Ok updated)
        with l3 h keep1 keep2 have "entry_ok k0 m k3 page (?a, original, updated)" "keeps R k k3"
          by (auto simp: entry_ok_def intro: keeps_trans holds_keeps)
        with run upd l3 show ?thesis by (simp add: spans_def Un_assoc)
      next
        case (Err e)
        have "aligned original" "span original \<inter> mapped k0 = {}" "R \<union> span original - span original = R"
          using h t2 fresh by (auto simp: holds_def tracked_def)
        with drop_image_law [OF l3(3) [OF Err] this(1,2)] run Err show ?thesis
          by (cases "drop_image D original k3") auto
      qed (use l3 run in simp_all)
    qed (use read True new1 l2 in \<open>auto simp: stage_page_def\<close>)
  qed
qed

definition all_spans :: "staged list \<Rightarrow> usize set" where
  "all_spans entries = (\<Union>entry\<in>set entries. spans entry)"

lemma all_spans_simps [simp]:
  "all_spans [] = {}" "all_spans (entry # entries) = spans entry \<union> all_spans entries"
  "all_spans (xs @ ys) = all_spans xs \<union> all_spans ys"
  by (auto simp: all_spans_def)

definition spare :: "'k \<Rightarrow> staged \<Rightarrow> bool" where
  "spare k0 entry \<longleftrightarrow> aligned (fst (snd entry)) \<and> aligned (snd (snd entry)) \<and> spans entry \<inter> mapped k0 = {}"

lemma drop_images_law:
  assumes "tracked k0 m X R k" "\<forall>entry\<in>set entries. spare k0 entry"
  shows "leaves (drop_images D entries k) (\<lambda>r k'. (r = Ok () \<or> r = Aborts) \<and>
    (r = Ok () \<longrightarrow> tracked k0 m X (R - all_spans entries) k'))"
  using assms
proof (induction entries arbitrary: R k)
  case (Cons entry entries)
  let ?o = "fst (snd entry)" and ?u = "snd (snd entry)"
  from Cons.prems(2) have sp: "aligned ?o" "span ?o \<inter> mapped k0 = {}" "aligned ?u" "span ?u \<inter> mapped k0 = {}"
    by (auto simp: spare_def spans_def)
  obtain r1 k1 where q1: "drop_image D ?o k = (r1, k1)" by (cases "drop_image D ?o k")
  obtain r2 k2 where q2: "drop_image D ?u k1 = (r2, k2)" by (cases "drop_image D ?u k1")
  note l1 = leavesD [OF drop_image_law [OF Cons.prems(1) sp(1,2)] q1]
  show ?case
  proof (cases "r1 = Ok () \<and> r2 = Ok ()")
    case True
    with l1 have "tracked k0 m X (R - span ?o) k1" by simp
    from leavesD [OF drop_image_law [OF this sp(3,4)] q2] True
    have t2: "tracked k0 m X (R - spans entry) k2" by (simp add: spans_def Diff_eq inf_assoc)
    from Cons.IH [OF t2] Cons.prems(2) q1 q2 True show ?thesis by (simp add: Diff_eq inf_assoc)
  next
    case False
    then show ?thesis
    proof (cases "r1 = Ok ()")
      case True
      with l1 have "tracked k0 m X (R - span ?o) k1" by simp
      from leavesD [OF drop_image_law [OF this sp(3,4)] q2] True False q1 q2 show ?thesis by auto
    qed (use l1 q1 in auto)
  qed
qed simp

text \<open>Staging all pages: the images hold the old and the new contents, or nothing is left.\<close>

lemma entry_ok_keeps:
  "entry_ok k0 m k page entry \<Longrightarrow> keeps R k k' \<Longrightarrow> spans entry \<subseteq> R \<Longrightarrow> entry_ok k0 m k' page entry"
  by (auto simp: entry_ok_def spans_def intro: holds_keeps)

lemma entry_ok_spare:
  "entry_ok k0 m k page entry \<Longrightarrow> tracked k0 m' X R k \<Longrightarrow> spans entry \<subseteq> R \<Longrightarrow> spare k0 entry"
  by (auto simp: entry_ok_def spare_def holds_def tracked_def)

lemma entries_keep:
  assumes "list_all2 (entry_ok k0 m k) pages entries" "keeps R k k'" "all_spans entries \<subseteq> R"
  shows "list_all2 (entry_ok k0 m k') pages entries"
  using assms by (induction pages entries rule: list_all2_induct) (auto intro: entry_ok_keeps)

lemma entries_spare:
  assumes "list_all2 (entry_ok k0 m k) pages entries" "tracked k0 m' X R k" "all_spans entries \<subseteq> R"
  shows "\<forall>entry\<in>set entries. spare k0 entry"
  using assms by (induction pages entries rule: list_all2_induct) (auto intro: entry_ok_spare)

lemma stage_pages_law:
  assumes "\<forall>page\<in>set pages. page_ok k0 a (a + length replacement) page"
    and "m = write_bytes (mem k0) a replacement"
    and "tracked k0 (mem k0) {} (all_spans images) k" "list_all2 (entry_ok k0 m k) before images"
  shows "leaves (stage_pages D a replacement pages images k) (\<lambda>r k'. settles r \<and>
    (\<forall>entries. r = Ok entries \<longrightarrow> list_all2 (entry_ok k0 m k') (before @ pages) entries \<and>
       tracked k0 (mem k0) {} (all_spans entries) k') \<and>
    (\<forall>e. r = Err e \<longrightarrow> tracked k0 (mem k0) {} {} k'))"
  using assms
proof (induction pages arbitrary: before images k)
  case (Cons page pages)
  obtain r1 k1 where q1: "stage_page D a replacement page k = (r1, k1)"
    by (cases "stage_page D a replacement page k")
  have l1: "settles r1" "\<And>entry. r1 = Ok entry \<Longrightarrow> entry_ok k0 m k1 page entry \<and>
      tracked k0 (mem k0) {} (all_spans images \<union> spans entry) k1 \<and> keeps (all_spans images) k k1"
    "\<And>e. r1 = Err e \<Longrightarrow> tracked k0 (mem k0) {} (all_spans images) k1"
    using leavesD [OF stage_page_law [OF Cons.prems(3) _ Cons.prems(2)] q1] Cons.prems(1) by auto
  show ?case
  proof (cases r1)
    case (Ok entry)
    with l1(2) Cons.prems(4) have "tracked k0 (mem k0) {} (all_spans (images @ [entry])) k1"
      "list_all2 (entry_ok k0 m k1) (before @ [page]) (images @ [entry])"
      by (auto intro!: list_all2_appendI intro: entries_keep)
    from Cons.IH [OF _ Cons.prems(2) this] Cons.prems(1) q1 Ok show ?thesis by simp
  next
    case (Err e)
    from drop_images_law [OF l1(3) [OF Err] entries_spare [OF Cons.prems(4,3)]] q1 Err show ?thesis
      by (cases "drop_images D images k1") auto
  qed (use q1 l1 in simp_all)
qed simp

text \<open>
  Installing an image over its page. A failure may leave the page in any state; success makes the
  page agree with every memory that the image holds.
\<close>

lemma put_image_law:
  assumes t: "tracked k0 m X R k" and page: "page_ok k0 a e page"
    and img: "holds k img data (pg_protection page)" "length data = pg_length page" "span img \<subseteq> R"
    and q: "put_image D (pg_address page) img k = (r, k')"
  shows "settles r \<and> (\<forall>s. r = Err s \<longrightarrow> tracked k0 m (X \<union> page_bytes page) R k') \<and> keeps R k k' \<and>
    (r = Ok () \<longrightarrow> tracked k0 (\<lambda>b. if b \<in> page_bytes page then data ! (b - pg_address page) else m b)
       (X - page_bytes page) R k')"
proof -
  let ?a = "pg_address page" and ?n = "pg_length page"
  have n: "im_length img = ?n" "aligned img" "\<And>i. i < ?n \<Longrightarrow> mem k (im_address img + i) = data ! i"
    "\<And>b. b \<in> span img \<Longrightarrow> prot k b = pg_protection page" using img by (simp_all add: holds_def)
  have disj: "R \<inter> page_bytes page = {}" using page_ok_mapped [OF page] t by (auto simp: tracked_def)
  have w: "psize dvd ?a" "psize dvd ?n" using page by (simp_all add: page_ok_def whole_def)
  obtain result k1 where q1: "dw_remap D ?a ?n (im_address img) k = (result, k1)"
    by (cases "dw_remap D ?a ?n (im_address img) k")
  have "{?a ..< ?a + ?n} \<inter> {im_address img ..< im_address img + ?n} = {}"
    using disj img(3) [unfolded span_def n(1)] unfolding page_bytes_def by blast
  from remap_law [OF q1 w(1) _ w(2) this] n(2)
  have l1: "\<And>b. b \<notin> page_bytes page \<Longrightarrow> prot k1 b = prot k b \<and> mem k1 b = mem k b"
    "\<And>i. result = SUCCESS \<Longrightarrow> i < ?n \<Longrightarrow> prot k1 (?a + i) = prot k (im_address img + i) \<and>
       mem k1 (?a + i) = mem k (im_address img + i)" by (auto simp: page_bytes_def aligned_def)
  have copied: "prot k1 b = prot k0 b \<and> mem k1 b = data ! (b - ?a)"
    if "result = SUCCESS" "b \<in> page_bytes page" for b
  proof -
    from that(2) obtain i where "b = ?a + i" "i < ?n" by (auto simp: page_bytes_def dest: le_Suc_ex)
    with l1(2) [OF that(1), of i] n(1,3) n(4) [of "im_address img + i"] page that(2) show ?thesis
      by (simp add: page_ok_def span_def)
  qed
  have any: "tracked k0 m (X \<union> page_bytes page) R k1" and keep: "keeps R k k1"
    using t l1(1) page_ok_mapped [OF page] apart [OF disj] apart [OF disj [unfolded Int_commute [of R]]]
    by (auto simp: tracked_def keeps_def)
  have good: "tracked k0 (\<lambda>b. if b \<in> page_bytes page then data ! (b - ?a) else m b) (X - page_bytes page) R k1"
    if "result = SUCCESS"
  proof -
    have "prot k1 b = prot k0 b" if "b \<notin> R" "b \<notin> X - page_bytes page" for b
      using copied [OF \<open>result = SUCCESS\<close>, of b] l1(1) [of b] t that by (cases "b \<in> page_bytes page") (auto simp: tracked_def)
    with any t copied [OF that] l1(1) show ?thesis by (auto simp: tracked_def)
  qed
  show ?thesis
  proof (cases "result = SUCCESS")
    case True
    with q q1 n(1) have "r = Ok ()" "k' = dw_cache_flush D ?a ?n k1"
      by (auto simp: put_image_def image_install_def mach_check_def mac_flush_def)
    with good [OF True] keep cache_flush_law show ?thesis by (simp add: tracked_def keeps_def)
  next
    case False
    with q q1 n(1) any keep show ?thesis by (auto simp: put_image_def image_install_def mach_check_def)
  qed
qed

lemma put_image_towards:
  assumes "tracked k0 m X R k" "page_ok k0 a e page"
    and "holds k img (fetch m (pg_address page) (pg_length page)) (pg_protection page)" "span img \<subseteq> R"
    and "put_image D (pg_address page) img k = (r, k')"
  shows "settles r \<and> keeps R k k' \<and> (\<forall>s. r = Err s \<longrightarrow> tracked k0 m (X \<union> page_bytes page) R k') \<and>
    (r = Ok () \<longrightarrow> tracked k0 m (X - page_bytes page) R k')"
proof -
  have "(\<lambda>b. if b \<in> page_bytes page then fetch m (pg_address page) (pg_length page) ! (b - pg_address page) else m b) = m"
    by (auto simp: fun_eq_iff fetch_def page_bytes_def)
  with put_image_law [OF assms(1-3) _ assms(4,5)] show ?thesis by simp
qed

lemma put_image_away:
  assumes "tracked k0 m X R k" "page_ok k0 a e page"
    and "holds k img data (pg_protection page)" "length data = pg_length page" "span img \<subseteq> R"
    and "put_image D (pg_address page) img k = (r, k')"
  shows "settles r \<and> keeps R k k' \<and> (returns r \<longrightarrow> tracked k0 m (X \<union> page_bytes page) R k')"
proof -
  note law = put_image_law [OF assms]
  have "tracked k0 m (X \<union> page_bytes page) R k'"
    if "tracked k0 (\<lambda>b. if b \<in> page_bytes page then data ! (b - pg_address page) else m b) (X - page_bytes page) R k'"
    using that page_ok_mapped [OF assms(2)] assms(1) by (auto simp: tracked_def split: if_splits)
  with law show ?thesis by (cases r) auto
qed

text \<open>Putting the old pages back.\<close>

lemma put_back_law:
  assumes "list_all2 (entry_ok k0 m k) pages entries" "tracked k0 (mem k0) X R k" "all_spans entries \<subseteq> R"
    and "\<forall>page\<in>set pages. page_ok k0 a e page"
  shows "leaves (put_back D entries k) (\<lambda>r k'. (r = Ok () \<or> r = Aborts) \<and>
    (r = Ok () \<longrightarrow> tracked k0 (mem k0) (X - pages_bytes pages) R k'))"
  using assms
proof (induction entries arbitrary: pages X k rule: list.induct)
  case (Cons entry entries)
  then obtain page rest where p: "pages = page # rest" "entry_ok k0 m k page entry"
    "list_all2 (entry_ok k0 m k) rest entries" by (auto simp: list_all2_Cons2)
  obtain r1 k1 where q1: "put_image D (fst entry) (fst (snd entry)) k = (r1, k1)"
    by (cases "put_image D (fst entry) (fst (snd entry)) k")
  have "settles r1 \<and> keeps R k k1 \<and> (r1 = Ok () \<longrightarrow> tracked k0 (mem k0) (X - page_bytes page) R k1)"
    using put_image_towards [OF Cons.prems(2), of a e page "fst (snd entry)" r1 k1] p Cons.prems(3,4) q1
    by (simp add: entry_ok_def spans_def)
  then show ?case
    using Cons.IH [OF entries_keep [OF p(3), of R], of k1 "X - page_bytes page"] Cons.prems(3,4) p(1) q1
    by (cases r1) (auto simp: Diff_eq inf_assoc)
qed auto

lemma tracked_mono:
  "tracked k0 m X R k \<Longrightarrow> X \<subseteq> Y \<Longrightarrow> Y \<subseteq> mapped k0 \<Longrightarrow> tracked k0 m Y R k"
  by (auto simp: tracked_def)

lemma pages_mapped: "\<forall>page\<in>set pages. page_ok k0 a e page \<Longrightarrow> pages_bytes pages \<subseteq> mapped k0"
  using page_ok_mapped unfolding pages_bytes_def by blast

lemma all_spans_rev: "all_spans (rev entries) = all_spans entries"
  by (simp add: all_spans_def)

text \<open>
  Installing the new pages in order. On the way the memory is tracked twice: towards the new
  contents, which the pages still to do lack, and away from the old ones, which only the installed
  pages have left.
\<close>

lemma install_images_law:
  assumes "list_all2 (entry_ok k0 m k) done_pages before" "list_all2 (entry_ok k0 m k) pages entries"
    and "tracked k0 m (pages_bytes pages) R k" "tracked k0 (mem k0) (pages_bytes done_pages) R k"
    and "all_spans (before @ entries) \<subseteq> R" "\<forall>page\<in>set (done_pages @ pages). page_ok k0 a e page"
  shows "leaves (install_images D before entries k) (\<lambda>r k'. settles r \<and>
    (r = Ok () \<longrightarrow> tracked k0 m {} R k') \<and> (\<forall>e. r = Err e \<longrightarrow> tracked k0 (mem k0) {} R k'))"
  using assms
proof (induction entries arbitrary: done_pages before pages k rule: list.induct)
  case (Cons entry entries)
  from Cons.prems(2) obtain page rest where p: "pages = page # rest" "entry_ok k0 m k page entry"
    "list_all2 (entry_ok k0 m k) rest entries" by (auto simp: list_all2_Cons2)
  let ?u = "snd (snd entry)"
  from p Cons.prems(5,6) have u: "holds k ?u (fetch m (pg_address page) (pg_length page)) (pg_protection page)"
    "span ?u \<subseteq> R" "page_ok k0 a e page" by (auto simp: entry_ok_def spans_def)
  obtain r1 k1 where q1: "put_image D (fst entry) ?u k = (r1, k1)" by (cases "put_image D (fst entry) ?u k")
  with p have q: "put_image D (pg_address page) ?u k = (r1, k1)" by (simp add: entry_ok_def)
  note new = put_image_towards [OF Cons.prems(3) u(3,1,2) q]
  note old = put_image_away [OF Cons.prems(4) u(3,1) _ u(2) q]
  have e: "list_all2 (entry_ok k0 m k1) (done_pages @ [page]) (before @ [entry])" "list_all2 (entry_ok k0 m k1) rest entries"
    using new Cons.prems(1,5) p by (auto intro!: list_all2_appendI intro: entries_keep entry_ok_keeps)
  show ?case
  proof (cases r1)
    case (Ok x)
    have "pages_bytes rest \<subseteq> mapped k0" using pages_mapped [of rest k0 a e] Cons.prems(6) p(1) by simp
    with new Ok p(1) have "tracked k0 m (pages_bytes rest) R k1" by (auto intro: tracked_mono)
    moreover have "tracked k0 (mem k0) (pages_bytes (done_pages @ [page])) R k1" using old Ok by simp
    ultimately show ?thesis using Cons.IH [OF e] Cons.prems(5,6) p(1) q1 Ok by simp
  next
    case (Err s)
    with old have "tracked k0 (mem k0) (pages_bytes (rev (done_pages @ [page]))) R k1"
      by (simp add: pages_bytes_def Un_commute)
    from put_back_law [OF list_all2_rev [THEN iffD2, OF e(1)] this, of a e] Cons.prems(5,6) p(1) q1 Err
    show ?thesis by (cases "put_back D (rev (before @ [entry])) k1") (auto simp: all_spans_rev)
  qed (use new q1 in auto)
qed auto

lemma stage_and_install_law:
  assumes pages: "\<forall>page\<in>set pages. page_ok k a (a + length replacement) page"
    and cover: "{a ..< a + length replacement} \<subseteq> pages_bytes pages"
  shows "leaves (stage_and_install D a replacement pages k) (\<lambda>r k'. settles r \<and>
    (r = Ok () \<longrightarrow> tracked k (write_bytes (mem k) a replacement) {} {} k') \<and>
    (\<forall>e. r = Err e \<longrightarrow> tracked k (mem k) {} {} k'))"
proof -
  let ?m = "write_bytes (mem k) a replacement"
  obtain r1 k1 where q1: "stage_pages D a replacement pages [] k = (r1, k1)"
    by (cases "stage_pages D a replacement pages [] k")
  have l1: "settles r1" "\<And>entries. r1 = Ok entries \<Longrightarrow> list_all2 (entry_ok k ?m k1) pages entries \<and>
      tracked k (mem k) {} (all_spans entries) k1" "\<And>e. r1 = Err e \<Longrightarrow> tracked k (mem k) {} {} k1"
    using leavesD [OF stage_pages_law [OF pages refl, of "[]" k "[]"] q1] tracked_start by auto
  show ?thesis
  proof (cases r1)
    case (Ok images)
    let ?R = "all_spans images"
    from l1(2) [OF Ok] have e: "list_all2 (entry_ok k ?m k1) pages images" and t: "tracked k (mem k) {} ?R k1" by simp_all
    from t pages_mapped [OF pages] cover have "tracked k ?m (pages_bytes pages) ?R k1"
      by (auto simp: tracked_def write_bytes_def subset_iff)
    from install_images_law [of k ?m k1 "[]" "[]", OF _ e this] t pages
    have l2: "leaves (install_images D [] images k1) (\<lambda>r k'. settles r \<and>
      (r = Ok () \<longrightarrow> tracked k ?m {} ?R k') \<and> (\<forall>e. r = Err e \<longrightarrow> tracked k (mem k) {} ?R k'))" by simp
    obtain r2 k2 where q2: "install_images D [] images k1 = (r2, k2)" by (cases "install_images D [] images k1")
    have drop: "leaves (drop_images D images k2) (\<lambda>r k'. (r = Ok () \<or> r = Aborts) \<and> (r = Ok () \<longrightarrow> tracked k m {} {} k'))"
      if "tracked k m {} ?R k2" for m
      using drop_images_law [OF that entries_spare [OF e t]] by simp
    obtain r3 k3 where q3: "drop_images D images k2 = (r3, k3)" by (cases "drop_images D images k2")
    show ?thesis
    proof (cases r2)
      case fin: (Ok x)
      with leavesD [OF drop q3, of ?m] leavesD [OF l2 q2] q1 q2 q3 Ok show ?thesis
        by (auto simp: stage_and_install_def)
    next
      case (Err s)
      with leavesD [OF drop q3, of "mem k"] leavesD [OF l2 q2] q1 q2 q3 Ok show ?thesis
        by (auto simp: stage_and_install_def)
    qed (use leavesD [OF l2 q2] q1 q2 Ok in \<open>auto simp: stage_and_install_def\<close>)
  qed (use q1 l1 in \<open>simp_all add: stage_and_install_def\<close>)
qed

lemma arm_reader: "code_reader (mac_platform D) mem prot"
  by unfold_locales

theorem mac_replace_law:
  "leaves (mac_replace D a expected replacement k) (\<lambda>r k'. settles r \<and>
    (r = Ok () \<longrightarrow> length replacement = length expected \<and> fetch (mem k) a (length expected) = expected \<and>
       prot k' = prot k \<and> (\<forall>b. prot k b \<noteq> UNMAPPED \<longrightarrow> mem k' b = write_bytes (mem k) a replacement b)) \<and>
    (\<forall>e. r = Err e \<longrightarrow> prot k' = prot k \<and> (\<forall>b. prot k b \<noteq> UNMAPPED \<longrightarrow> mem k' b = mem k b)))"
proof (cases "length expected = length replacement")
  case False
  then show ?thesis by (simp add: mac_replace_def replace_with_def)
next
  case True
  let ?w = "\<lambda>address original replacement pages. replace_pages D address replacement pages"
  from replace_reads [OF True, of ?w a k] show ?thesis
  proof (elim disjE exE conjE)
    fix r k'
    assume "replace_with (mac_platform D) ?w a expected replacement k = (r, k')" "returns r" "r \<noteq> Ok ()" "unchanged k k'"
    then show ?thesis by (auto simp: mac_replace_def unchanged_def settles_def)
  next
    fix pages k1
    assume step: "replace_with (mac_platform D) ?w a expected replacement k = replace_pages D a replacement pages k1"
      and u: "unchanged k k1" and f: "fits k1 pages" "{a ..< a + length expected} \<subseteq> pages_bytes pages"
      and g: "\<forall>page\<in>set pages. touches a (a + length expected) page \<and> granular a page"
      and old: "expected = fetch (mem k1) a (length expected)"
    have "\<forall>page\<in>set pages. page_ok k1 a (a + length replacement) page"
      using f(1) g True granular_whole by (auto simp: page_ok_def fits_def)
    from stage_and_install_law [OF this] f(2) True
    have "leaves (stage_and_install D a replacement pages k1) (\<lambda>r k'. settles r \<and>
      (r = Ok () \<longrightarrow> tracked k1 (write_bytes (mem k1) a replacement) {} {} k') \<and>
      (\<forall>e. r = Err e \<longrightarrow> tracked k1 (mem k1) {} {} k'))" by simp
    then show ?thesis
      unfolding mac_replace_def step replace_pages_def
      by (rule leaves_mono) (use True u old in \<open>auto simp: tracked_none unchanged_def mapped_def\<close>)
  qed
qed

end


section \<open>A kernel that behaves as documented\<close>

text \<open>
  Pages of eight bytes. Every mapped page is a region of its own, inside one submap; fresh mappings
  are taken one after the other; protections are changed only where something is mapped.
\<close>

record dsim =
  ds_bytes :: memory
  ds_page :: "nat \<Rightarrow> nat"
  ds_next :: nat

definition dsim_prot :: "dsim \<Rightarrow> usize \<Rightarrow> nat" where
  "dsim_prot k b = ds_page k (b div 8)"

definition set_pages :: "nat \<Rightarrow> nat \<Rightarrow> (nat \<Rightarrow> nat) \<Rightarrow> dsim \<Rightarrow> dsim" where
  "set_pages a n f k = k\<lparr>ds_page := (\<lambda>i. if a div 8 \<le> i \<and> i < a div 8 + n div 8 then f i else ds_page k i)\<rparr>"

definition whole_pages :: "nat \<Rightarrow> nat \<Rightarrow> bool" where
  "whole_pages a n \<longleftrightarrow> a mod 8 = 0 \<and> n mod 8 = 0"

definition all_mapped :: "nat \<Rightarrow> nat \<Rightarrow> dsim \<Rightarrow> bool" where
  "all_mapped a n k \<longleftrightarrow> (\<forall>i\<in>set [a div 8 ..< a div 8 + n div 8]. ds_page k i \<noteq> UNMAPPED)"

definition dsim_protect :: "usize \<Rightarrow> usize \<Rightarrow> nat \<Rightarrow> dsim \<Rightarrow> int \<times> dsim" where
  "dsim_protect a n p k = (if whole_pages a n \<and> all_mapped a n k then (0, set_pages a n (\<lambda>_. p) k) else (2, k))"

definition dsim_recurse :: "usize \<Rightarrow> nat \<Rightarrow> dsim \<Rightarrow> (int \<times> usize \<times> usize \<times> nat \<times> region_info) \<times> dsim" where
  "dsim_recurse a d k =
     (if UNMAPPED \<le> dsim_prot k a
      then ((INVALID_ADDRESS, 0, 0, d, \<lparr>ri_protection = 0, ri_is_submap = 0\<rparr>), k)
      else ((SUCCESS, a div 8 * 8, 8, d,
        \<lparr>ri_protection = dsim_prot k a, ri_is_submap = (if d = 0 then 1 else 0)\<rparr>), k))"

definition dsim_mmap :: "usize \<Rightarrow> dsim \<Rightarrow> usize option \<times> dsim" where
  "dsim_mmap n k =
     (if n mod 8 = 0 \<and> (\<forall>i\<in>set [ds_next k ..< ds_next k + n div 8]. ds_page k i = UNMAPPED)
      then (Some (ds_next k * 8),
        (set_pages (ds_next k * 8) n (\<lambda>_. PROT_READ OR PROT_WRITE) k)\<lparr>ds_next := ds_next k + n div 8\<rparr>)
      else (None, k))"

definition dsim_remap :: "usize \<Rightarrow> usize \<Rightarrow> usize \<Rightarrow> dsim \<Rightarrow> int \<times> dsim" where
  "dsim_remap target n source k =
     (if whole_pages target n \<and> whole_pages source n
      then (SUCCESS, (set_pages target n (\<lambda>i. ds_page k (i - target div 8 + source div 8)) k)
        \<lparr>ds_bytes := (\<lambda>b. if target \<le> b \<and> b < target + n then ds_bytes k (b - target + source) else ds_bytes k b)\<rparr>)
      else (4, k))"

definition dsim_munmap :: "usize \<Rightarrow> usize \<Rightarrow> dsim \<Rightarrow> int \<times> dsim" where
  "dsim_munmap a n k = (if whole_pages a n then (0, set_pages a n (\<lambda>_. UNMAPPED) k) else (-1, k))"

definition dsim_kernel :: "dsim darwin" where
  "dsim_kernel = \<lparr>
     dw_region_recurse = dsim_recurse,
     dw_read_overwrite = (\<lambda>a n k. ((SUCCESS, fetch (ds_bytes k) a n, n), k)),
     dw_sysconf = (\<lambda>k. (8, k)),
     dw_errno = (\<lambda>k. 12),
     dw_cache_flush = (\<lambda>a n k. k),
     dw_store = (\<lambda>a data k. k\<lparr>ds_bytes := write_bytes (ds_bytes k) a data\<rparr>),
     dw_vm_protect = (\<lambda>a n p k. dsim_protect a n (take_bit 3 p) k),
     dw_mmap = dsim_mmap,
     dw_mprotect = dsim_protect,
     dw_remap = dsim_remap,
     dw_munmap = dsim_munmap\<rparr>"

definition dsim_start :: dsim where
  "dsim_start = \<lparr>ds_bytes = (\<lambda>_. 0), ds_page = (\<lambda>i. if i = 2 \<or> i = 3 then PROT_READ OR PROT_EXEC else UNMAPPED), ds_next = 5\<rparr>"

lemma dsim_page_in_range:
  assumes "whole_pages a n"
  shows "a div 8 \<le> b div 8 \<and> b div 8 < a div 8 + n div 8 \<longleftrightarrow> a \<le> b \<and> b < a + n"
proof -
  from assms have "a = a div 8 * 8" "n = n div 8 * 8" by (auto simp: whole_pages_def)
  then obtain x y where al: "a = x * 8" "n = y * 8" by blast
  show ?thesis
    unfolding al add_mult_distrib [symmetric]
    by (simp add: less_eq_div_iff_mult_less_eq div_less_iff_less_mult)
qed

lemma set_pages_prot:
  "whole_pages a n \<Longrightarrow> dsim_prot (set_pages a n f k) b = (if a \<le> b \<and> b < a + n then f (b div 8) else dsim_prot k b)"
  using dsim_page_in_range [of a n b] by (simp add: dsim_prot_def set_pages_def)

lemma set_pages_bytes [simp]: "ds_bytes (set_pages a n f k) = ds_bytes k"
  by (simp add: set_pages_def)

lemma dsim_prot_update [simp]:
  "dsim_prot (k\<lparr>ds_next := x\<rparr>) = dsim_prot k" "dsim_prot (k\<lparr>ds_bytes := m\<rparr>) = dsim_prot k"
  by (simp_all add: dsim_prot_def fun_eq_iff)

lemma dsim_recurse_law:
  assumes "dsim_recurse a d k = ((result, start, n, d', info), k')"
  shows "k' = k \<and> (result = SUCCESS \<longrightarrow> d' = d \<and> start = a div 8 * 8 \<and> n = 8 \<and> ri_protection info < UNMAPPED \<and>
    (\<forall>b. start \<le> b \<longrightarrow> b < start + n \<longrightarrow> dsim_prot k b = ri_protection info))"
proof -
  define q where "q = dsim_prot k a"
  have "dsim_prot k b = q" if "a div 8 * 8 \<le> b" "b < a div 8 * 8 + 8" for b
    using that div_nat_eqI [of 8 "a div 8" b] by (simp add: q_def dsim_prot_def mult.commute)
  with assms show ?thesis unfolding dsim_recurse_def q_def [symmetric]
    by (cases "UNMAPPED \<le> q") (auto simp: SUCCESS_def INVALID_ADDRESS_def)
qed

interpretation dsim: darwin_reader dsim_kernel ds_bytes dsim_prot
proof
  fix a d k result start n d' info k'
  assume "dw_region_recurse dsim_kernel a d k = ((result, start, n, d', info), k')"
  then show "ds_bytes k' = ds_bytes k \<and> dsim_prot k' = dsim_prot k \<and>
      (result = SUCCESS \<longrightarrow> ri_is_submap info \<noteq> 0 \<longrightarrow> d \<le> d') \<and>
      (result = SUCCESS \<longrightarrow> ri_is_submap info = 0 \<longrightarrow> ri_protection info < UNMAPPED \<and>
         (\<forall>b. start \<le> b \<longrightarrow> b < start + n \<longrightarrow> dsim_prot k b = ri_protection info))"
    using dsim_recurse_law [of a d k result start n d' info k'] by (auto simp: dsim_kernel_def)
qed (auto simp: dsim_kernel_def fun_eq_iff)

lemma dsim_protect_law:
  assumes "dsim_protect a n p k = (result, k')"
  shows "ds_bytes k' = ds_bytes k \<and> (\<forall>b. b \<notin> {a ..< a + n} \<longrightarrow> dsim_prot k' b = dsim_prot k b) \<and>
    (result = 0 \<longrightarrow> (\<forall>b\<in>{a ..< a + n}. dsim_prot k' b = p)) \<and>
    (p < UNMAPPED \<longrightarrow> (\<forall>b. dsim_prot k' b = UNMAPPED \<longleftrightarrow> dsim_prot k b = UNMAPPED))"
proof (cases "whole_pages a n \<and> all_mapped a n k")
  case True
  then have "dsim_prot k b \<noteq> UNMAPPED" if "a \<le> b" "b < a + n" for b
    using dsim_page_in_range [of a n b] that by (simp add: all_mapped_def dsim_prot_def)
  with True assms show ?thesis by (auto simp: dsim_protect_def set_pages_prot split: if_splits)
qed (use assms in \<open>auto simp: dsim_protect_def\<close>)

interpretation dsim_intel: darwin_intel dsim_kernel ds_bytes dsim_prot
proof
  fix a n p k result k'
  assume "dw_vm_protect dsim_kernel a n p k = (result, k')"
  then have "dsim_protect a n (take_bit 3 p) k = (result, k')" by (simp add: dsim_kernel_def)
  from dsim_protect_law [OF this]
  show "ds_bytes k' = ds_bytes k \<and> (\<forall>b. b < a \<or> a + n \<le> b \<longrightarrow> dsim_prot k' b = dsim_prot k b) \<and>
      (result = SUCCESS \<longrightarrow> (\<forall>b. a \<le> b \<longrightarrow> b < a + n \<longrightarrow> dsim_prot k' b = take_bit 3 p))"
    by (auto simp: SUCCESS_def)
qed (simp_all add: dsim_kernel_def)

lemma dsim_mmap_law:
  assumes "dsim_mmap n k = (Some a, k')"
  shows "8 dvd a \<and> (\<forall>b\<in>{a ..< a + n}. dsim_prot k b = UNMAPPED \<and> dsim_prot k' b = PROT_READ OR PROT_WRITE) \<and>
    (\<forall>b. b \<notin> {a ..< a + n} \<longrightarrow> dsim_prot k' b = dsim_prot k b \<and> ds_bytes k' b = ds_bytes k b)"
proof -
  have w: "whole_pages a n" using assms by (auto simp: dsim_mmap_def whole_pages_def split: if_splits)
  have "dsim_prot k b = UNMAPPED" if "a \<le> b" "b < a + n" for b
    using dsim_page_in_range [OF w, of b] that assms by (auto simp: dsim_mmap_def dsim_prot_def split: if_splits)
  with w assms show ?thesis by (auto simp: dsim_mmap_def set_pages_prot split: if_splits)
qed

lemma dsim_remap_law:
  assumes "dsim_remap target n source k = (result, k')"
  shows "(\<forall>b. b \<notin> {target ..< target + n} \<longrightarrow> dsim_prot k' b = dsim_prot k b \<and> ds_bytes k' b = ds_bytes k b) \<and>
    (result = SUCCESS \<longrightarrow> (\<forall>i<n. dsim_prot k' (target + i) = dsim_prot k (source + i) \<and>
       ds_bytes k' (target + i) = ds_bytes k (source + i)))"
proof (cases "whole_pages target n \<and> whole_pages source n")
  case True
  then obtain x y where al: "target = x * 8" "source = y * 8"
    unfolding whole_pages_def by (metis div_mult_mod_eq add_0_right)
  have "ds_page k ((target + i) div 8 - target div 8 + source div 8) = dsim_prot k (source + i)" for i
    unfolding al by (simp add: dsim_prot_def add.commute)
  with True assms show ?thesis by (auto simp: dsim_remap_def set_pages_prot add.commute [of _ source])
qed (use assms in \<open>auto simp: dsim_remap_def SUCCESS_def\<close>)

interpretation dsim_arm: darwin_arm dsim_kernel ds_bytes dsim_prot 8
proof
  fix a n p k result k'
  assume "dw_mprotect dsim_kernel a n p k = (result, k')" "p < UNMAPPED"
  then show "ds_bytes k' = ds_bytes k \<and> (\<forall>b. b \<notin> {a ..< a + n} \<longrightarrow> dsim_prot k' b = dsim_prot k b) \<and>
      (\<forall>b. dsim_prot k' b = UNMAPPED \<longleftrightarrow> dsim_prot k b = UNMAPPED) \<and>
      (result = 0 \<longrightarrow> (\<forall>b\<in>{a ..< a + n}. dsim_prot k' b = p))"
    using dsim_protect_law [of a n p k result k'] by (simp add: dsim_kernel_def)
next
  fix a n k result k'
  assume "dw_munmap dsim_kernel a n k = (result, k')"
  then show "(\<forall>b. b \<notin> {a ..< a + n} \<longrightarrow> dsim_prot k' b = dsim_prot k b \<and> ds_bytes k' b = ds_bytes k b) \<and>
      (result = 0 \<longrightarrow> (\<forall>b\<in>{a ..< a + n}. dsim_prot k' b = UNMAPPED))"
    by (auto simp: dsim_kernel_def dsim_munmap_def set_pages_prot split: if_splits)
next
  fix a d k start n d' info k'
  assume "dw_region_recurse dsim_kernel a d k = ((SUCCESS, start, n, d', info), k')"
  then show "8 dvd start \<and> 8 dvd n"
    using dsim_recurse_law [of a d k SUCCESS start n d' info k'] by (simp add: dsim_kernel_def)
next
  fix n k k'
  assume "dw_mmap dsim_kernel n k = (None, k')"
  then show "ds_bytes k' = ds_bytes k \<and> dsim_prot k' = dsim_prot k"
    by (auto simp: dsim_kernel_def dsim_mmap_def split: if_splits)
qed (use dsim_mmap_law dsim_remap_law in \<open>simp_all add: dsim_kernel_def\<close>)


section \<open>Properties\<close>

lemma dsim_calls:
  "dw_region_recurse dsim_kernel = dsim_recurse" "dw_sysconf dsim_kernel k = (8, k)"
  "dw_read_overwrite dsim_kernel a n k = ((SUCCESS, fetch (ds_bytes k) a n, n), k)"
  "dw_cache_flush dsim_kernel a n k = k" "dw_mmap dsim_kernel = dsim_mmap"
  "dw_store dsim_kernel a data k = k\<lparr>ds_bytes := write_bytes (ds_bytes k) a data\<rparr>"
  "dw_mprotect dsim_kernel = dsim_protect" "dw_remap dsim_kernel = dsim_remap" "dw_munmap dsim_kernel = dsim_munmap"
  by (simp_all add: dsim_kernel_def)

lemma dsim_region_at:
  assumes "a < 1000"
  shows "region_at (mac_platform dsim_kernel) a k =
     (if UNMAPPED \<le> dsim_prot k a then (Ok None, k)
      else (Ok (Some \<lparr>rg_start = a div 8 * 8, rg_end = a div 8 * 8 + 8, rg_protection = dsim_prot k a,
        rg_readable = (dsim_prot k a AND PROT_READ \<noteq> 0), rg_executable = (dsim_prot k a AND PROT_EXEC \<noteq> 0)\<rparr>), k))"
proof -
  have "a < a div 8 * 8 + 8" "\<not> a < a div 8 * 8" using dividend_less_div_times [of 8 a] by (simp_all add: not_less)
  with assms show ?thesis
    by (simp add: mac_platform_def mac_region_at_def mac_region_loop.simps [of dsim_kernel a 0]
      mac_region_loop.simps [of dsim_kernel a "Suc 0"] dsim_calls dsim_recurse_def SUCCESS_def INVALID_ADDRESS_def
      checked_add_def usize_defs u32_max_def)
qed

lemma dsim_pages:
  "mac_replace dsim_kernel 20 [0, 0, 0, 0, 0, 0] [1, 2, 3, 4, 5, 6] dsim_start =
   replace_pages dsim_kernel 20 [1, 2, 3, 4, 5, 6] [\<lparr>pg_address = 16, pg_length = 8, pg_protection = 5\<rparr>,
     \<lparr>pg_address = 24, pg_length = 8, pg_protection = 5\<rparr>] dsim_start"
proof -
  have r: "executable_regions (mac_platform dsim_kernel) 20 6 dsim_start =
     (Ok [\<lparr>rg_start = 16, rg_end = 24, rg_protection = 5, rg_readable = True, rg_executable = True\<rparr>,
          \<lparr>rg_start = 24, rg_end = 32, rg_protection = 5, rg_readable = True, rg_executable = True\<rparr>], dsim_start)"
    by (simp add: executable_regions_def checked_end_def checked_add_def usize_defs
      regions_loop.simps [of _ 26 20] regions_loop.simps [of _ 26 24] regions_loop.simps [of _ 26 26] dsim_region_at
      dsim_start_def dsim_prot_def UNMAPPED_def PROT_READ_def PROT_EXEC_def)
  have six: "Suc (Suc (Suc (Suc (Suc (Suc 0))))) = 6" by simp
  show ?thesis
    by (simp add: mac_replace_def replace_with_def checked_end_def checked_add_def usize_defs six r)
      (simp add: mac_platform_def mac_read_bytes_def mac_page_size_def dsim_calls mach_check_def fetch_def dsim_start_def
        page_range_of_def usize_sub_def checked_add_def usize_defs upt_rec)
qed

lemma dsim_image_new:
  assumes "length data = 8" "ds_page k (ds_next k) = UNMAPPED" "p < UNMAPPED"
  shows "image_new dsim_kernel data p k = (Ok \<lparr>im_address = ds_next k * 8, im_length = 8\<rparr>,
    \<lparr>ds_bytes = write_bytes (ds_bytes k) (ds_next k * 8) data, ds_page = (ds_page k)(ds_next k := p), ds_next = ds_next k + 1\<rparr>)"
  using assms
  by (auto simp: image_new_def dsim_calls dsim_mmap_def dsim_protect_def whole_pages_def all_mapped_def set_pages_def
      UNMAPPED_def PROT_READ_def PROT_WRITE_def fun_eq_iff)

lemma dsim_drop_image:
  "whole_pages (im_address img) (im_length img) \<Longrightarrow>
   drop_image dsim_kernel img k = (Ok (), snd (dsim_munmap (im_address img) (im_length img) k))"
  by (simp add: drop_image_def image_release_def dsim_calls dsim_munmap_def)

lemma dsim_put_image:
  "whole_pages a (im_length img) \<Longrightarrow> whole_pages (im_address img) (im_length img) \<Longrightarrow>
   put_image dsim_kernel a img k = (Ok (), snd (dsim_remap a (im_length img) (im_address img) k))"
  by (simp add: put_image_def image_install_def mac_flush_def mach_check_def dsim_calls dsim_remap_def)

lemma dsim_replaces:
  "fst (mac_replace dsim_kernel 20 [0, 0, 0, 0, 0, 0] [1, 2, 3, 4, 5, 6] dsim_start) = Ok ()"
proof -
  let ?p = "\<lambda>a. \<lparr>pg_address = a, pg_length = 8, pg_protection = 5\<rparr>" and ?bs = "[1, 2, 3, 4, 5, 6] :: u8 list"
  have "patched_page 20 ?bs (?p 16) (fetch m 16 8) = Ok (fetch (write_bytes m 20 ?bs) 16 8)"
    "patched_page 20 ?bs (?p 24) (fetch m 24 8) = Ok (fetch (write_bytes m 20 ?bs) 24 8)" for m
    using dsim_arm.patched_page_law [of 20 ?bs "?p 16" m] dsim_arm.patched_page_law [of 20 ?bs "?p 24" m]
    by (simp_all add: dsim.touches_def)
  then show ?thesis unfolding dsim_pages
    by (simp add: replace_pages_def stage_and_install_def stage_page_def mac_read_bytes_def dsim_calls mach_check_def
       dsim_image_new dsim_start_def UNMAPPED_def dsim_drop_image dsim_put_image whole_pages_def)
qed

text \<open>
  C9: On Apple silicon, where code pages are remapped instead of written, replacing code bytes is
  all or nothing and leaves nothing behind, whatever the kernel calls return. When it succeeds, the
  bytes were the expected ones, the mapped memory is the old one with the replacement in it, and
  every protection is as before: no staged page stays mapped. When it fails, no mapped byte and no
  protection has changed, even if a remapping failed half way. In every other case the process ends.
\<close>

theorem mac_replace_all_or_nothing:
  assumes "darwin_arm D mem prot psize"
  shows "\<exists>r k'. mac_replace D a expected replacement k = (r, k') \<and> settles r \<and>
    (r = Ok () \<longrightarrow> length replacement = length expected \<and> fetch (mem k) a (length expected) = expected \<and>
       prot k' = prot k \<and> (\<forall>b. prot k b \<noteq> UNMAPPED \<longrightarrow> mem k' b = write_bytes (mem k) a replacement b)) \<and>
    (\<forall>e. r = Err e \<longrightarrow> prot k' = prot k \<and> (\<forall>b. prot k b \<noteq> UNMAPPED \<longrightarrow> mem k' b = mem k b))"
  using darwin_arm.mac_replace_law [OF assms, of a expected replacement k] by (auto simp: leaves_def split: prod.splits)

theorem mac_replace_all_or_nothing_witness:
  "\<exists>k'. mac_replace dsim_kernel 20 [0, 0, 0, 0, 0, 0] [1, 2, 3, 4, 5, 6] dsim_start = (Ok (), k') \<and>
    dsim_prot k' = dsim_prot dsim_start \<and> ds_bytes k' 19 = 0 \<and> ds_bytes k' 24 = 5"
proof -
  let ?m = "mac_replace dsim_kernel 20 [0, 0, 0, 0, 0, 0] [1, 2, 3, 4, 5, 6] dsim_start"
  have "?m = (Ok (), snd ?m)" using dsim_replaces by (metis prod.collapse)
  then show ?thesis
    using mac_replace_all_or_nothing [OF dsim_arm.darwin_arm_axioms,
        of 20 "[0, 0, 0, 0, 0, 0]" "[1, 2, 3, 4, 5, 6]" dsim_start]
    by (auto simp: dsim_prot_def dsim_start_def write_bytes_def UNMAPPED_def PROT_READ_def PROT_EXEC_def)
qed

end
