(* ===== verification/Hosts.thy ===== *)
theory Hosts
  imports Code_Target Exec_Pages Linux_Simulation Mac_Remap
begin

text \<open>
  The build a process runs: the target of src/code.rs, the memory platform of src/memory.rs, the
  remapping of code pages that replaces the plain write on Apple silicon, and the source of
  executable pages of src/executable.rs. The operating system behind them is the parameter; the
  predicate \<open>code_contract\<close> says what is relied on, in terms of the contracts of the memory
  platforms and of the locale \<open>relay_pages\<close> for pages near the code.
\<close>

section \<open>The build\<close>

record 'k host =
  h_target :: target
  h_memory :: "'k platform"
  h_remaps :: "'k darwin option"
  h_pages :: "'k page_source"

text \<open>\<^verbatim>\<open>memory::write\<close>: the Apple silicon build remaps, every other build writes in place.\<close>

definition host_write :: "'k host \<Rightarrow> usize \<Rightarrow> u8 list \<Rightarrow> u8 list \<Rightarrow> (unit, 'k) call" where
  "host_write H address expected replacement k =
     (case h_remaps H of
        None \<Rightarrow> memory_write (h_memory H) address expected replacement k
      | Some D \<Rightarrow> mac_replace D address expected replacement k)"

text \<open>The page functions of the Unix builds, with the reach of the target, and of Windows.\<close>

definition unix_page_source ::
  "usize \<Rightarrow> 'k mman \<Rightarrow> (bool, 'k) call \<Rightarrow> (usize \<Rightarrow> u8 list \<Rightarrow> 'k \<Rightarrow> 'k) \<Rightarrow> 'k page_source" where
  "unix_page_source reach M shadow copy =
     \<lparr>ps_allocate = allocate_unix reach M, ps_seal = seal_unix M, ps_release = release_unix M,
      ps_shadow_stack = shadow, ps_store = copy\<rparr>"

definition apple_page_source ::
  "'k mman \<Rightarrow> (bool, 'k) call \<Rightarrow> (usize \<Rightarrow> u8 list \<Rightarrow> 'k \<Rightarrow> 'k) \<Rightarrow> 'k page_source" where
  "apple_page_source M shadow copy =
     \<lparr>ps_allocate = allocate_apple_silicon M, ps_seal = seal_unix M, ps_release = release_unix M,
      ps_shadow_stack = shadow, ps_store = copy\<rparr>"

definition windows_page_source ::
  "usize \<Rightarrow> 'k kernel32 \<Rightarrow> (bool, 'k) call \<Rightarrow> (usize \<Rightarrow> u8 list \<Rightarrow> 'k \<Rightarrow> 'k) \<Rightarrow> 'k page_source" where
  "windows_page_source reach W shadow copy =
     \<lparr>ps_allocate = allocate_windows reach W, ps_seal = seal_windows W, ps_release = release_windows W,
      ps_shadow_stack = shadow, ps_store = copy\<rparr>"

text \<open>Leaving a scope early drops the page that was allocated in it.\<close>

definition dropping :: "'k host \<Rightarrow> executable \<Rightarrow> 'a result \<times> 'k \<Rightarrow> 'a result \<times> 'k" where
  "dropping H page m =
     (case m of
        (Err e, k) \<Rightarrow> andThen (drop_page (h_pages H) page k) (\<lambda>_ k. (Err e, k))
      | (Panics s, k) \<Rightarrow> andThen (drop_page (h_pages H) page k) (\<lambda>_ k. (Panics s, k))
      | other \<Rightarrow> other)"

section \<open>Relays\<close>

text \<open>
  On ARM64 a raw replacement first gets a page near the function that jumps to the target, and the
  entry is patched with a jump to that page; on x86-64 the entry jumps to the target itself.
\<close>

definition raw_relay :: "'k host \<Rightarrow> usize \<Rightarrow> usize \<Rightarrow> (usize \<times> executable option, 'k) call" where
  "raw_relay H source destination k =
     (case h_target H of
        X86_64 \<Rightarrow> (Ok (destination, None), k)
      | Arm64 \<Rightarrow>
          andThen (near (h_pages H) source k) (\<lambda>page k.
            dropping H page
              (andThen (code_jump Arm64 (ex_address page) destination, k) (\<lambda>bytes k.
                 case publish (h_pages H) bytes page k of ((r, page'), k') \<Rightarrow>
                   andThen (r, k') (\<lambda>_ k. (Ok (ex_address page', Some page'), k))))))"

definition drop_relay :: "'k host \<Rightarrow> executable option \<Rightarrow> (unit, 'k) call" where
  "drop_relay H relay k =
     (case relay of None \<Rightarrow> (Ok (), k) | Some page \<Rightarrow> drop_page (h_pages H) page k)"

definition dropping_relay :: "'k host \<Rightarrow> executable option \<Rightarrow> 'a result \<times> 'k \<Rightarrow> 'a result \<times> 'k" where
  "dropping_relay H relay m = (case relay of None \<Rightarrow> m | Some page \<Rightarrow> dropping H page m)"

lemma dropping_Ok: "dropping H page m = (Ok v, k) \<longleftrightarrow> m = (Ok v, k)"
  by (cases m; cases "fst m") (auto simp: dropping_def result_simps)

section \<open>The code of the program\<close>

text \<open>
  \<open>code\<close> are the addresses of the program's code, \<open>mem\<close> is the memory of a state and \<open>held\<close> says that
  the code is mapped in it. A step keeps the code when it stays mapped and no byte of it changes.
\<close>

definition same_on :: "usize set \<Rightarrow> memory \<Rightarrow> memory \<Rightarrow> bool" where
  "same_on code m m' \<longleftrightarrow> (\<forall>a\<in>code. m a = m' a)"

lemma same_on_refl [simp]: "same_on code m m"
  by (simp add: same_on_def)

lemma same_on_UNIV: "same_on UNIV m m' \<longleftrightarrow> m = m'"
  by (auto simp: same_on_def)

lemma same_on_sym: "same_on code m m' \<Longrightarrow> same_on code m' m"
  by (simp add: same_on_def)

lemma same_on_trans: "same_on code m m' \<Longrightarrow> same_on code m' m'' \<Longrightarrow> same_on code m m''"
  by (simp add: same_on_def)

lemma same_on_write: "same_on code m m' \<Longrightarrow> same_on code (write_bytes m a bytes) (write_bytes m' a bytes)"
  by (simp add: same_on_def write_bytes_def)

definition keeps_code :: "usize set \<Rightarrow> ('k \<Rightarrow> memory) \<Rightarrow> ('k \<Rightarrow> bool) \<Rightarrow> 'k \<Rightarrow> 'k \<Rightarrow> bool" where
  "keeps_code code mem held k k' \<longleftrightarrow> (held k \<longrightarrow> held k' \<and> same_on code (mem k') (mem k))"

lemma keeps_code_refl [simp]: "keeps_code code mem held k k"
  by (simp add: keeps_code_def)

lemma keeps_code_trans:
  "keeps_code code mem held k k1 \<Longrightarrow> keeps_code code mem held k1 k2 \<Longrightarrow> keeps_code code mem held k k2"
  by (auto simp: keeps_code_def intro: same_on_trans)

definition page_apart :: "usize set \<Rightarrow> usize \<Rightarrow> bool" where
  "page_apart code a \<longleftrightarrow> {a ..< a + CAPACITY} \<inter> code = {}"

text \<open>The relay of a patch: none on x86-64, a page apart from the code on ARM64.\<close>

definition relay_ok :: "'k host \<Rightarrow> usize set \<Rightarrow> executable option \<Rightarrow> bool" where
  "relay_ok H code relay \<longleftrightarrow>
     (case relay of None \<Rightarrow> True | Some page \<Rightarrow> h_target H = Arm64 \<and> page_apart code (ex_address page))"

section \<open>Pages near the code\<close>

text \<open>
  What the program relies on when it takes pages: a fresh page lies apart from the code, and
  writing, sealing and releasing a page apart from the code keeps the code.
\<close>

locale relay_pages =
  fixes G :: "'k page_source" and mem :: "'k \<Rightarrow> memory" and code :: "usize set" and held :: "'k \<Rightarrow> bool"
  assumes allocate_law: "held k \<Longrightarrow> source \<le> isize_max - CAPACITY \<Longrightarrow> ps_allocate G source k = (r, k') \<Longrightarrow>
      returns r \<and> keeps_code code mem held k k' \<and> (\<forall>a. r = Ok a \<longrightarrow> page_apart code a)"
    and store_law: "page_apart code a \<Longrightarrow> length bytes \<le> CAPACITY \<Longrightarrow>
      keeps_code code mem held k (ps_store G a bytes k)"
    and seal_law: "page_apart code a \<Longrightarrow> ps_seal G a k = (ru, k') \<Longrightarrow>
      returns ru \<and> keeps_code code mem held k k'"
    and release_law: "page_apart code a \<Longrightarrow> ps_release G a k = (ru, k') \<Longrightarrow>
      returns ru \<and> keeps_code code mem held k k'"
begin

lemma near_law:
  assumes "held k"
  shows "leaves (near G source k) (\<lambda>r k'. returns r \<and> keeps_code code mem held k k' \<and>
     (\<forall>page. r = Ok page \<longrightarrow> page_apart code (ex_address page)))"
  using allocate_law [OF assms, of source] by (cases "ps_allocate G source k"; cases "fst (ps_allocate G source k)")
    (auto simp: near_def)

lemma publish_law:
  assumes "page_apart code (ex_address page)" "publish G bytes page k = ((r, page'), k')"
  shows "returns r \<and> keeps_code code mem held k k' \<and> ex_address page' = ex_address page"
proof (cases "ex_sealed page \<or> bytes = [] \<or> CAPACITY < length bytes")
  case True
  with assms(2) show ?thesis by (auto simp: publish_def)
next
  case False
  let ?k = "ps_store G (ex_address page) bytes k"
  from False assms(2) have "ps_seal G (ex_address page) ?k = (r, k')" "page' = page\<lparr>ex_sealed := True\<rparr>"
    by (auto simp: publish_def split: prod.splits)
  with seal_law [OF assms(1), of ?k r k'] store_law [OF assms(1), of bytes k] False show ?thesis
    by (auto intro: keeps_code_trans)
qed

lemma drop_page_law:
  assumes "page_apart code (ex_address page)"
  shows "leaves (drop_page G page k) (\<lambda>r k'. (r = Ok () \<or> r = Aborts) \<and> keeps_code code mem held k k')"
  using release_law [OF assms, of k] by (cases "ps_release G (ex_address page) k"; cases "fst (ps_release G (ex_address page) k)")
    (auto simp: drop_page_def)

end

text \<open>The Unix calls behind it; \<open>copy\<close> is the raw copy into a page.\<close>

locale unix_code =
  fixes M :: "'k mman" and shadow :: "(bool, 'k) call" and copy :: "usize \<Rightarrow> u8 list \<Rightarrow> 'k \<Rightarrow> 'k"
    and mem :: "'k \<Rightarrow> memory" and code :: "usize set" and held :: "'k \<Rightarrow> bool"
  assumes map_law: "held k \<Longrightarrow> mm_map M hint k = (found, k') \<Longrightarrow> keeps_code code mem held k k' \<and>
      (\<forall>a. found = Some a \<longrightarrow> page_apart code a)"
    and protect_law: "page_apart code a \<Longrightarrow> mm_protect M a k = (result, k') \<Longrightarrow> keeps_code code mem held k k'"
    and unmap_law: "page_apart code a \<Longrightarrow> mm_unmap M a k = (result, k') \<Longrightarrow> keeps_code code mem held k k'"
    and flush_law: "keeps_code code mem held k (mm_cache_flush M a n k)"
    and copy_law: "page_apart code a \<Longrightarrow> length bytes \<le> CAPACITY \<Longrightarrow> keeps_code code mem held k (copy a bytes k)"
begin

abbreviation kept :: "'k \<Rightarrow> usize result \<Rightarrow> 'k \<Rightarrow> bool" where
  "kept k r k' \<equiv> keeps_code code mem held k k' \<and> (\<forall>a. r = Ok a \<longrightarrow> page_apart code a)"

lemma release_unix_law:
  assumes "page_apart code a" "release_unix M a k = (r, k')"
  shows "returns r \<and> keeps_code code mem held k k'"
  using unmap_law [OF assms(1)] assms(2) by (auto simp: release_unix_def split: prod.splits if_splits)

lemma seal_unix_law:
  assumes "page_apart code a" "seal_unix M a k = (r, k')"
  shows "returns r \<and> keeps_code code mem held k k'"
  using protect_law [OF assms(1)] assms(2)
  by (auto simp: seal_unix_def intro: keeps_code_trans [OF _ flush_law] split: prod.splits if_splits)

lemma search_steps_keeps:
  "held k \<Longrightarrow> leaves (search_steps reach (reserve_unix M) (release_unix M) source steps k) (\<lambda>r k'. returns r \<and> kept k r k')"
proof (induction steps arbitrary: k)
  case (Cons step steps)
  let ?hint = "search_hint reach source step"
  obtain found k1 where q: "reserve_unix M ?hint k = (found, k1)" by (cases "reserve_unix M ?hint k")
  then have law: "keeps_code code mem held k k1" "\<And>a. found = Some a \<Longrightarrow> page_apart code a"
    using map_law [OF Cons.prems, of ?hint found k1] by (auto simp: reserve_unix_def)
  then have "held k1" using Cons.prems by (simp add: keeps_code_def)
  have further: "leaves (search_steps reach (reserve_unix M) (release_unix M) source steps k2) (\<lambda>r k'. returns r \<and> kept k r k')"
    if "keeps_code code mem held k k2" for k2
    using that Cons.prems by (intro leaves_mono [OF Cons.IH]) (auto simp: keeps_code_def intro: same_on_trans)
  show ?case
  proof (cases "?hint < CAPACITY \<or> isize_max - CAPACITY < ?hint \<or> found = None")
    case True
    with q further law(1) Cons show ?thesis by (auto simp: Let_def)
  next
    case False
    then obtain a where a: "found = Some a" by auto
    obtain r k2 where rel: "release_unix M a k1 = (r, k2)" by (cases "release_unix M a k1")
    note back_law = release_unix_law [OF law(2) [OF a] rel]
    then have "keeps_code code mem held k k2" using law(1) by (auto intro: keeps_code_trans)
    with False q a law rel back_law further show ?thesis by (cases r) (auto simp: Let_def)
  qed
qed simp

lemma allocate_unix_keeps: "leaves (allocate_unix reach M source k) (\<lambda>r k'. returns r \<and> kept k r k')" if "held k"
  unfolding allocate_unix_def search_unix_def by (rule search_steps_keeps [OF that])

lemma allocate_apple_keeps:
  assumes "held k"
  shows "leaves (allocate_apple_silicon M source k) (\<lambda>r k'. returns r \<and> kept k r k')"
proof -
  obtain r k1 where q: "search_unix REACH_ARM64 (reserve_unix M) (release_unix M) source k = (r, k1)"
    by (cases "search_unix REACH_ARM64 (reserve_unix M) (release_unix M) source k")
  with leavesD [OF search_steps_keeps [OF assms]] have law: "returns r" "kept k r k1"
    unfolding search_unix_def by blast+
  then have "held k1" using assms by (simp add: keeps_code_def)
  obtain found k2 where m: "reserve_unix M 0 k1 = (found, k2)" by (cases "reserve_unix M 0 k1")
  with map_law [OF \<open>held k1\<close>, of 0 found k2] law have "keeps_code code mem held k k2"
    "\<And>a. found = Some a \<Longrightarrow> page_apart code a" by (auto simp: reserve_unix_def intro: keeps_code_trans)
  with q m law show ?thesis
    by (auto simp: allocate_apple_silicon_def fallback_page_def split: result.splits error.splits option.splits)
qed

end

sublocale unix_code \<subseteq> unix: relay_pages "unix_page_source reach M shadow copy" mem code held for reach
  using copy_law seal_unix_law release_unix_law
  by unfold_locales (auto simp: unix_page_source_def dest!: leavesD [OF allocate_unix_keeps])

sublocale unix_code \<subseteq> apple: relay_pages "apple_page_source M shadow copy" mem code held
  using copy_law seal_unix_law release_unix_law
  by unfold_locales (auto simp: apple_page_source_def dest!: leavesD [OF allocate_apple_keeps])

text \<open>The Windows calls behind it.\<close>

locale windows_code = windows_pages W owned for W :: "'k kernel32" and owned +
  fixes shadow :: "(bool, 'k) call" and copy :: "usize \<Rightarrow> u8 list \<Rightarrow> 'k \<Rightarrow> 'k"
    and mem :: "'k \<Rightarrow> memory" and code :: "usize set" and held :: "'k \<Rightarrow> bool"
  assumes alloc_keeps: "held k \<Longrightarrow> k32_alloc W hint k = (a, k') \<Longrightarrow> keeps_code code mem held k k' \<and>
      (a \<noteq> 0 \<longrightarrow> page_apart code a)"
    and query_keeps: "k32_query W a k = (found, k') \<Longrightarrow> keeps_code code mem held k k'"
    and protect_keeps: "page_apart code a \<Longrightarrow> k32_protect W a k = (result, k') \<Longrightarrow> keeps_code code mem held k k'"
    and flush_keeps: "k32_flush W a n k = (result, k') \<Longrightarrow> keeps_code code mem held k k'"
    and free_keeps: "page_apart code a \<Longrightarrow> k32_free W a k = (result, k') \<Longrightarrow> keeps_code code mem held k k'"
    and copy_law: "page_apart code a \<Longrightarrow> length bytes \<le> CAPACITY \<Longrightarrow> keeps_code code mem held k (copy a bytes k)"
begin

abbreviation found_apart :: "'k \<Rightarrow> usize result \<Rightarrow> 'k \<Rightarrow> bool" where
  "found_apart k r k' \<equiv> keeps_code code mem held k k' \<and> (\<forall>a. r = Ok a \<longrightarrow> page_apart code a)"

lemma search_windows_loop_keeps:
  "held k \<Longrightarrow> leaves (search_windows_loop (region_windows W) (reserve_windows W) upper cursor k) (found_apart k)"
proof (induction "Suc upper - cursor" arbitrary: cursor k rule: less_induct)
  case less
  let ?loop = "search_windows_loop (region_windows W) (reserve_windows W) upper"
  obtain r k1 where q: "region_windows W cursor k = (r, k1)" by (cases "region_windows W cursor k")
  then have k1: "keeps_code code mem held k k1"
    using query_keeps [of cursor k] by (auto simp: region_windows_def split: prod.splits option.splits)
  then have "held k1" using less.prems by (simp add: keeps_code_def)
  obtain found k2 where res: "reserve_windows W cursor k1 = (found, k2)" by (cases "reserve_windows W cursor k1")
  with alloc_keeps [OF \<open>held k1\<close>, of cursor] have k2: "keeps_code code mem held k1 k2"
    "\<And>a. found = Some a \<Longrightarrow> page_apart code a"
    by (auto simp: reserve_windows_def split: prod.splits if_splits)
  have further: "leaves (?loop c k') (found_apart k)"
    if "cursor < c" "cursor \<le> upper" "keeps_code code mem held k k'" for c k'
  proof (rule leaves_mono [OF less.hyps [of c k']])
    show "Suc upper - c < Suc upper - cursor" "held k'"
      using that less.prems by (simp_all add: keeps_code_def)
  qed (use that in \<open>auto intro: keeps_code_trans\<close>)
  show ?case
  proof (cases "cursor \<le> upper - CAPACITY")
    case False
    then show ?thesis by (subst search_windows_loop.simps) (simp add: saturating_sub_def)
  next
    case True
    have up: "leaves (andThen (align_up e, k1) ?loop) (found_apart k)" if "\<not> e \<le> cursor" for e
    proof (cases "align_up e")
      case (Ok c)
      then have "leaves (?loop c k1) (found_apart k)"
        using align_up_ge [OF Ok] that True k1 by (intro further) auto
      with Ok show ?thesis by simp
    qed (use k1 in simp_all)
    have over: "leaves (?loop (cursor + GRANULARITY) k2) (found_apart k)"
      using True k1 k2 by (intro further) (auto simp: GRANULARITY_def intro: keeps_code_trans)
    show ?thesis
      using True q res k1 k2 up over keeps_code_trans [OF k1 k2(1)]
      by (subst search_windows_loop.simps, cases r; cases found) (auto simp: saturating_sub_def)
  qed
qed

lemma allocate_windows_keeps:
  assumes "held k" "source \<le> isize_max - CAPACITY"
  shows "leaves (allocate_windows reach W source k) (\<lambda>r k'. returns r \<and> found_apart k r k')"
proof -
  obtain r k' where q: "allocate_windows reach W source k = (r, k')" by (cases "allocate_windows reach W source k")
  have "found_apart k r k'"
    using leavesD [OF search_windows_loop_keeps [OF assms(1)]] q
    by (cases "align_up (max (saturating_sub source reach) GRANULARITY)")
      (auto simp: allocate_windows_def search_windows_def Let_def)
  with q leavesD [OF search_windows_law [OF assms(2)] q [unfolded allocate_windows_def]] show ?thesis by simp
qed

lemma seal_windows_law:
  assumes "page_apart code a" "seal_windows W a k = (r, k')"
  shows "returns r \<and> keeps_code code mem held k k'"
  using assms(2) by (auto simp: seal_windows_def split: prod.splits if_splits
      dest!: protect_keeps [OF assms(1)] flush_keeps intro: keeps_code_trans)

lemma release_windows_law:
  assumes "page_apart code a" "release_windows W a k = (r, k')"
  shows "returns r \<and> keeps_code code mem held k k'"
  using free_keeps [OF assms(1)] assms(2) by (auto simp: release_windows_def split: prod.splits if_splits)

end

sublocale windows_code \<subseteq> windows: relay_pages "windows_page_source reach W shadow copy" mem code held for reach
  using copy_law seal_windows_law release_windows_law
  by unfold_locales (auto simp: windows_page_source_def dest!: leavesD [OF allocate_windows_keeps])

section \<open>What the build relies on\<close>

text \<open>
  Builds that write in place rely on a memory platform, for which the code is mapped at all times;
  Apple silicon relies on the calls of the remapping, for which the code is what is not
  \<open>UNMAPPED\<close>. An ARM64 build also relies on its pages.
\<close>

definition code_contract :: "'k host \<Rightarrow> ('k \<Rightarrow> memory) \<Rightarrow> usize set \<Rightarrow> ('k \<Rightarrow> bool) \<Rightarrow> bool" where
  "code_contract H mem code held \<longleftrightarrow>
     (h_target H = Arm64 \<longrightarrow> relay_pages (h_pages H) mem code held) \<and>
     (case h_remaps H of
        None \<Rightarrow> (\<exists>prot can_write grant. code_platform (h_memory H) mem prot can_write grant) \<and> (\<forall>k. held k)
      | Some D \<Rightarrow> h_memory H = mac_platform D \<and>
          (\<exists>prot psize. darwin_arm D mem prot psize \<and> (\<forall>k. held k \<longleftrightarrow> (\<forall>b\<in>code. prot k b \<noteq> UNMAPPED))))"

locale code_host =
  fixes H :: "'k host" and mem :: "'k \<Rightarrow> memory" and code :: "usize set" and held :: "'k \<Rightarrow> bool"
  assumes contract: "code_contract H mem code held"
begin

lemma read_keeps:
  assumes "memory_read (h_memory H) a n k = (r, k')"
  shows "returns r \<and> keeps_code code mem held k k'"
proof (cases "h_remaps H")
  case None
  with contract obtain prot can_write grant where "code_platform (h_memory H) mem prot can_write grant" "\<forall>k. held k"
    by (auto simp: code_contract_def)
  with code_reader.memory_read_law [OF code_platform.axioms(1) assms] show ?thesis by (auto simp: keeps_code_def)
next
  case (Some D)
  with contract obtain prot psize where D: "h_memory H = mac_platform D" "darwin_arm D mem prot psize"
    "\<forall>k. held k \<longleftrightarrow> (\<forall>b\<in>code. prot k b \<noteq> UNMAPPED)" by (auto simp: code_contract_def)
  from code_reader.memory_read_law [OF darwin_arm.arm_reader [OF D(2)] assms [unfolded D(1)]] D(3) show ?thesis by (auto simp: keeps_code_def)
qed

text \<open>A write replaces the expected bytes in the code, or fails and keeps it, or ends the process.\<close>

lemma host_write_law:
  assumes "held k"
  shows "leaves (host_write H a expected replacement k) (\<lambda>r k'. settles r \<and>
    (r = Ok () \<longrightarrow> held k' \<and> length replacement = length expected \<and>
       fetch (mem k) a (length expected) = expected \<and> same_on code (mem k') (write_bytes (mem k) a replacement)) \<and>
    (\<forall>e. r = Err e \<longrightarrow> keeps_code code mem held k k'))"
proof (cases "h_remaps H")
  case None
  with contract obtain prot can_write grant where p: "code_platform (h_memory H) mem prot can_write grant" "\<forall>k. held k"
    by (auto simp: code_contract_def)
  show ?thesis unfolding host_write_def None option.case memory_write_def
    by (rule leaves_mono [OF code_platform.replace_law [OF p(1)]]) (use p(2) in \<open>auto simp: keeps_code_def\<close>)
next
  case (Some D)
  with contract obtain prot psize where D: "darwin_arm D mem prot psize"
    "\<forall>k. held k \<longleftrightarrow> (\<forall>b\<in>code. prot k b \<noteq> UNMAPPED)" by (auto simp: code_contract_def)
  then have "\<forall>b\<in>code. prot k b \<noteq> UNMAPPED" using assms by blast
  then show ?thesis unfolding host_write_def Some option.case
    by (intro leaves_mono [OF darwin_arm.mac_replace_law [OF D(1)]])
      (auto simp: D(2) keeps_code_def same_on_def)
qed

text \<open>
  Taking a relay keeps the code, and so does dropping one. A call that drops its relay on the way
  out has the outcome it had, unless the process ends.
\<close>

lemma drop_relay_law:
  assumes "relay_ok H code relay"
  shows "leaves (drop_relay H relay k) (\<lambda>r k'. (r = Ok () \<or> r = Aborts) \<and> keeps_code code mem held k k')"
proof (cases relay)
  case (Some page)
  with assms contract have "relay_pages (h_pages H) mem code held" "page_apart code (ex_address page)"
    by (auto simp: code_contract_def relay_ok_def)
  from relay_pages.drop_page_law [OF this] Some show ?thesis by (simp add: drop_relay_def)
qed (simp add: drop_relay_def)

lemma dropping_relay_law:
  assumes "relay_ok H code relay" "settles r"
  shows "leaves (dropping_relay H relay (r, k)) (\<lambda>r' k'. settles r' \<and> (r' = r \<or> r' = Aborts) \<and>
    keeps_code code mem held k k')"
proof (cases relay)
  case (Some page)
  with drop_relay_law [OF assms(1), of k] have "leaves (drop_page (h_pages H) page k)
    (\<lambda>r k'. (r = Ok () \<or> r = Aborts) \<and> keeps_code code mem held k k')" by (simp add: drop_relay_def)
  then show ?thesis using assms(2) unfolding Some dropping_relay_def option.case
    by (cases r; cases "drop_page (h_pages H) page k") (auto simp: dropping_def)
qed (use assms(2) in \<open>simp add: dropping_relay_def\<close>)

lemma raw_relay_law:
  assumes "held k"
  shows "leaves (raw_relay H source destination k) (\<lambda>r k'. settles r \<and> (r \<noteq> Aborts \<longrightarrow> keeps_code code mem held k k') \<and>
    (\<forall>d relay. r = Ok (d, relay) \<longrightarrow> relay_ok H code relay))"
proof (cases "h_target H")
  case X86_64
  then show ?thesis by (simp add: raw_relay_def relay_ok_def)
next
  case Arm64
  with contract have pages: "relay_pages (h_pages H) mem code held" by (simp add: code_contract_def)
  have fill: "leaves (dropping H page (andThen (code_jump Arm64 (ex_address page) destination, k1) (\<lambda>bytes k.
         case publish (h_pages H) bytes page k of ((r, page'), k') \<Rightarrow>
           andThen (r, k') (\<lambda>_ k. (Ok (ex_address page', Some page'), k))))) (\<lambda>r k'. settles r \<and>
      (r \<noteq> Aborts \<longrightarrow> keeps_code code mem held k1 k') \<and>
      (\<forall>d relay. r = Ok (d, relay) \<longrightarrow> relay_ok H code relay))"
    (is "leaves (dropping H page ?m) _") if apart: "page_apart code (ex_address page)" for page k1
  proof -
    obtain r k2 where m: "?m = (r, k2)" by (cases ?m)
    have law: "returns r \<and> keeps_code code mem held k1 k2 \<and> (\<forall>d relay. r = Ok (d, relay) \<longrightarrow> relay_ok H code relay)"
    proof (cases "code_jump Arm64 (ex_address page) destination")
      case (Ok bytes)
      obtain r1 page' k' where p: "publish (h_pages H) bytes page k1 = ((r1, page'), k')"
        by (metis prod.exhaust)
      with relay_pages.publish_law [OF pages apart p] m Ok apart Arm64 show ?thesis
        by (cases r1) (auto simp: relay_ok_def)
    qed (use m code_jump_returns [of Arm64 "ex_address page" destination] in auto)
    have "leaves (dropping_relay H (Some page) (r, k2)) (\<lambda>r' k'. settles r' \<and> (r' = r \<or> r' = Aborts) \<and>
        keeps_code code mem held k2 k')"
      by (rule dropping_relay_law) (use law apart Arm64 in \<open>simp_all add: relay_ok_def settles_def\<close>)
    then have "leaves (dropping H page (r, k2)) (\<lambda>r' k'. settles r' \<and> (r' = r \<or> r' = Aborts) \<and>
        keeps_code code mem held k2 k')" by (simp add: dropping_relay_def)
    then show ?thesis unfolding m by (rule leaves_mono) (use law in \<open>auto intro: keeps_code_trans\<close>)
  qed
  show ?thesis unfolding raw_relay_def Arm64 target.case
    by (rule leaves_andThen, rule leaves_mono [OF relay_pages.near_law [OF pages assms]])
      (auto intro!: leaves_mono [OF fill] simp: Arm64 simp del: code_jump.simps intro: keeps_code_trans)
qed

end

section \<open>Builds on simulated systems\<close>

lemma copy_apart: "page_apart code a \<Longrightarrow> length bytes \<le> CAPACITY \<Longrightarrow> same_on code (write_bytes m a bytes) m"
  by (fastforce simp: page_apart_def same_on_def write_bytes_def)

text \<open>
  The simulated Linux process of theory \<open>Linux_Simulation\<close>, with one page to give away behind the
  code, as an x86-64 and as an ARM64 build.
\<close>

definition sim_mman :: "sim mman" where
  "sim_mman = \<lparr>mm_map = (\<lambda>hint k. (Some 32768, k)), mm_protect = (\<lambda>a k. (0, k)), mm_unmap = (\<lambda>a k. (0, k)),
     mm_errno = (\<lambda>k. 0), mm_cache_flush = (\<lambda>a n k. k)\<rparr>"

definition sim_copy :: "usize \<Rightarrow> u8 list \<Rightarrow> sim \<Rightarrow> sim" where
  "sim_copy a bytes k = k\<lparr>sm_bytes := write_bytes (sm_bytes k) a bytes\<rparr>"

definition sim_shadow :: "(bool, sim) call" where
  "sim_shadow = query_shadow_stack (\<lambda>k. 0) (\<lambda>k. ((0, 0), k))"

definition sim_host :: "sim host" where
  "sim_host = \<lparr>h_target = X86_64, h_memory = linux_platform sim_kernel, h_remaps = None,
     h_pages = unix_page_source REACH_X86 sim_mman sim_shadow sim_copy\<rparr>"

definition sim_arm_host :: "sim host" where
  "sim_arm_host = \<lparr>h_target = Arm64, h_memory = linux_platform sim_kernel, h_remaps = None,
     h_pages = unix_page_source REACH_ARM64 sim_mman sim_shadow sim_copy\<rparr>"

lemma sim_hosts [simp]:
  "h_target sim_host = X86_64" "h_memory sim_host = linux_platform sim_kernel"
  "host_write sim_host = memory_write (linux_platform sim_kernel)"
  "h_target sim_arm_host = Arm64" "h_memory sim_arm_host = linux_platform sim_kernel"
  "host_write sim_arm_host = memory_write (linux_platform sim_kernel)"
  by (simp_all add: fun_eq_iff sim_host_def sim_arm_host_def host_write_def)

lemma sim_page_calls [simp]:
  assumes "G = h_pages sim_host \<or> G = h_pages sim_arm_host"
  shows "ps_seal G a k = (Ok (), k)" "ps_release G a k = (Ok (), k)" "ps_store G = sim_copy"
  using assms by (auto simp: sim_host_def sim_arm_host_def unix_page_source_def seal_unix_def release_unix_def sim_mman_def)

lemma sim_near:
  assumes "G = h_pages sim_host \<or> G = h_pages sim_arm_host"
  shows "near G 4096 k = (Ok \<lparr>ex_address = 32768, ex_sealed = False\<rparr>, k)"
  using assms
  by (auto simp: near_def sim_host_def sim_arm_host_def unix_page_source_def allocate_unix_def search_unix_def
      upt_rec [of _ 129] search_hint_def div_ceil_def saturating_add_def saturating_sub_def usize_defs CAPACITY_def
      REACH_X86_def REACH_ARM64_def reserve_unix_def sim_mman_def abs_diff_def)

interpretation sim_pages: unix_code sim_mman sim_shadow sim_copy sm_bytes "{..<32768}" "\<lambda>k. True"
  by unfold_locales (auto simp: sim_mman_def sim_copy_def keeps_code_def page_apart_def
      intro!: copy_apart [unfolded page_apart_def])

lemma sim_contracts:
  "code_contract sim_host sm_bytes UNIV (\<lambda>k. True)" "code_contract sim_arm_host sm_bytes {..<32768} (\<lambda>k. True)"
  using sim.code_platform_axioms sim_pages.unix.relay_pages_axioms
  by (auto simp: code_contract_def sim_host_def sim_arm_host_def)

interpretation sim_code: code_host sim_host sm_bytes UNIV "\<lambda>k. True"
  by (rule code_host.intro) (rule sim_contracts)

interpretation sim_arm_code: code_host sim_arm_host sm_bytes "{..<32768}" "\<lambda>k. True"
  by (rule code_host.intro) (rule sim_contracts)

text \<open>The simulated Apple silicon system of theory \<open>Mac_Remap\<close>, whose code is at 16.\<close>

definition dsim_mman :: "dsim mman" where
  "dsim_mman = \<lparr>mm_map = (\<lambda>hint. dsim_mmap CAPACITY), mm_protect = (\<lambda>a. dsim_protect a CAPACITY (PROT_READ OR PROT_EXEC)),
     mm_unmap = (\<lambda>a. dsim_munmap a CAPACITY), mm_errno = (\<lambda>k. 12), mm_cache_flush = (\<lambda>a n k. k)\<rparr>"

definition dsim_copy :: "usize \<Rightarrow> u8 list \<Rightarrow> dsim \<Rightarrow> dsim" where
  "dsim_copy a bytes k = k\<lparr>ds_bytes := write_bytes (ds_bytes k) a bytes\<rparr>"

definition dsim_held :: "dsim \<Rightarrow> bool" where
  "dsim_held k \<longleftrightarrow> (\<forall>b\<in>{16 ..< 32}. dsim_prot k b \<noteq> UNMAPPED)"

definition dsim_host :: "dsim host" where
  "dsim_host = \<lparr>h_target = Arm64, h_memory = mac_platform dsim_kernel, h_remaps = Some dsim_kernel,
     h_pages = apple_page_source dsim_mman shadow_stack_macos dsim_copy\<rparr>"

lemma dsim_keeps:
  assumes "\<forall>b. b \<notin> {a ..< a + CAPACITY} \<longrightarrow> dsim_prot k' b = dsim_prot k b \<and> ds_bytes k' b = ds_bytes k b"
    "page_apart {16 ..< 32} a"
  shows "keeps_code {16 ..< 32} ds_bytes dsim_held k k'"
proof -
  have "b \<notin> {a ..< a + CAPACITY}" if "b \<in> {16 ..< 32}" for b using assms(2) that by (auto simp: page_apart_def)
  with assms(1) show ?thesis by (auto simp: keeps_code_def dsim_held_def same_on_def)
qed

lemma dsim_mmap_keeps:
  assumes "dsim_held k" "dsim_mmap CAPACITY k = (found, k')"
  shows "keeps_code {16 ..< 32} ds_bytes dsim_held k k' \<and> (\<forall>a. found = Some a \<longrightarrow> page_apart {16 ..< 32} a)"
proof (cases found)
  case None
  with assms(2) show ?thesis by (auto simp: dsim_mmap_def split: if_splits)
next
  case (Some a)
  note law = dsim_mmap_law [OF assms(2) [unfolded Some]]
  have "b \<notin> {16 ..< 32}" if "b \<in> {a ..< a + CAPACITY}" for b
  proof
    assume "b \<in> {16 ..< 32}"
    with assms(1) have "dsim_prot k b \<noteq> UNMAPPED" unfolding dsim_held_def by (rule bspec)
    with law that show False by blast
  qed
  then have "page_apart {16 ..< 32} a" unfolding page_apart_def by (meson disjoint_iff)
  with law dsim_keeps [of a k' k] Some show ?thesis by blast
qed

interpretation dsim_pages: unix_code dsim_mman shadow_stack_macos dsim_copy ds_bytes "{16 ..< 32}" dsim_held
proof
  fix a k result k'
  assume apart: "page_apart {16 ..< 32} a"
  show "keeps_code {16 ..< 32} ds_bytes dsim_held k k'" if "mm_protect dsim_mman a k = (result, k')"
    using that dsim_protect_law [of a CAPACITY _ k result k'] by (intro dsim_keeps [OF _ apart]) (simp add: dsim_mman_def)
  show "keeps_code {16 ..< 32} ds_bytes dsim_held k k'" if "mm_unmap dsim_mman a k = (result, k')"
    using that by (intro dsim_keeps [OF _ apart])
      (auto simp: dsim_mman_def dsim_munmap_def set_pages_prot split: if_splits)
next
  fix a k and bytes :: "u8 list"
  assume "page_apart {16 ..< 32} a" "length bytes \<le> CAPACITY"
  from copy_apart [OF this] show "keeps_code {16 ..< 32} ds_bytes dsim_held k (dsim_copy a bytes k)"
    by (simp add: keeps_code_def dsim_copy_def dsim_held_def)
qed (use dsim_mmap_keeps in \<open>simp_all add: dsim_mman_def\<close>)

interpretation dsim_code: code_host dsim_host ds_bytes "{16 ..< 32}" dsim_held
  by (rule code_host.intro)
    (use dsim_arm.darwin_arm_axioms dsim_pages.apple.relay_pages_axioms in
      \<open>auto simp: code_contract_def dsim_host_def dsim_held_def\<close>)

text \<open>A Windows system that keeps the list of its pages and a memory, with the code below 65536.\<close>

definition sim_kernel32 :: "(usize list \<times> memory) kernel32" where
  "sim_kernel32 = \<lparr>k32_query = (\<lambda>a k. (if a + 1048576 \<le> isize_max then Some (a, 1048576, 65536) else None, k)),
     k32_alloc = (\<lambda>hint k. if hint \<in> set (fst k) \<or> hint < 65536 then (0, k) else (hint, hint # fst k, snd k)),
     k32_protect = (\<lambda>a k. (1, k)), k32_flush = (\<lambda>a n k. (1, k)),
     k32_free = (\<lambda>a k. (1, removeAll a (fst k), snd k)), k32_error = (\<lambda>k. 0)\<rparr>"

interpretation sim_windows: windows_code sim_kernel32 "\<lambda>k. set (fst k)" "\<lambda>k. (Ok False, k)"
  "\<lambda>a bytes k. (fst k, write_bytes (snd k) a bytes)" snd "{..<65536}" "\<lambda>k. True"
  by unfold_locales (auto simp: sim_kernel32_def keeps_code_def page_apart_def split: if_splits
      intro!: copy_apart [unfolded page_apart_def])

end
