(* ===== verification/Routing.thy ===== *)
theory Routing
  imports Hosts
begin

text \<open>
  Routes of mocked functions (src/routing.rs). A function that is mocked in a local session is
  patched once, for the life of the process, with a jump to its dispatcher; the dispatcher asks
  \<^verbatim>\<open>route\<close> where to go. The answer is the calling thread's own replacement, else the replacement
  of a global session, else the saved original code.

  The process state holds the leaked entries (a heap; a pointer is an index), the lock-free list
  that starts at \<^verbatim>\<open>HEAD\<close>, the table \<^verbatim>\<open>ENTRIES\<close>, and the routes of every thread. The
  operations of \<^verbatim>\<open>ENTRIES\<close> run under its mutex and are atomic steps here; the list is read without
  it, so \<open>publish_entry\<close> and the write of the patch are separate steps of \<open>new_route\<close>.
\<close>

section \<open>State\<close>

record patch =
  pt_entry :: usize
  pt_address :: usize
  pt_original :: "u8 list"
  pt_replacement :: "u8 list"
  pt_relay :: "executable option"

definition pt_end :: "patch \<Rightarrow> usize" where
  "pt_end p = pt_address p + length (pt_original p)"

record entry =
  en_patch :: patch
  en_dispatcher :: usize
  en_original :: executable
  en_call_bridge :: bool
  en_global :: usize
  en_next :: "nat option"

record route_record =
  rc_entry :: nat
  rc_sites :: "usize list"

record local_route =
  lc_source :: usize
  lc_dispatcher :: usize
  lc_target :: usize

record 'k process =
  pr_system :: 'k
  pr_heap :: "entry list"
  pr_records :: "route_record list"
  pr_head :: "nat option"
  pr_local :: "thread \<Rightarrow> local_route list"

definition record_patch :: "entry list \<Rightarrow> route_record \<Rightarrow> patch" where
  "record_patch heap rc = en_patch (heap ! rc_entry rc)"

text \<open>A call that only the operating system sees, as a step of the process.\<close>

definition in_system :: "('a, 'k) call \<Rightarrow> ('a, 'k process) call" where
  "in_system m pr = (case m (pr_system pr) of (r, k) \<Rightarrow> (r, pr\<lparr>pr_system := k\<rparr>))"

section \<open>Finding a route\<close>

text \<open>
  The list is followed pointer by pointer. A dangling pointer would be undefined behaviour and is
  the end of the process here; a cycle would never end.
\<close>

definition entry_target :: "'k host \<Rightarrow> entry \<Rightarrow> (usize option, 'k) call" where
  "entry_target H en k =
     (if en_global en \<noteq> 0 then (Ok (Some (en_global en)), k)
      else if en_call_bridge en
      then case check_call_bridge (h_pages H) k of
             (Ok u, k') \<Rightarrow> (Ok (Some (ex_address (en_original en))), k')
           | (Err e, k') \<Rightarrow> (Panics ''original call is not supported with shadow stacks'', k')
           | (Panics m, k') \<Rightarrow> (Panics m, k')
           | (Aborts, k') \<Rightarrow> (Aborts, k')
           | (Diverges, k') \<Rightarrow> (Diverges, k')
      else (Ok (Some (ex_address (en_original en))), k))"

partial_function (option) fallback_loop ::
  "'k host \<Rightarrow> entry list \<Rightarrow> usize \<Rightarrow> nat option \<Rightarrow> 'k \<Rightarrow> (usize option result \<times> 'k) option" where
  "fallback_loop H heap dispatcher cursor k =
     (case cursor of
        None \<Rightarrow> Some (Ok None, k)
      | Some p \<Rightarrow>
          if p < length heap
          then if en_dispatcher (heap ! p) = dispatcher then Some (entry_target H (heap ! p) k)
               else fallback_loop H heap dispatcher (en_next (heap ! p)) k
          else Some (Aborts, k))"

definition fallback :: "'k host \<Rightarrow> usize \<Rightarrow> (usize option, 'k process) call" where
  "fallback H dispatcher pr =
     in_system (\<lambda>k. case fallback_loop H (pr_heap pr) dispatcher (pr_head pr) k of
        Some m \<Rightarrow> m | None \<Rightarrow> (Diverges, k)) pr"

definition local_target :: "thread \<Rightarrow> usize \<Rightarrow> 'k process \<Rightarrow> usize option" where
  "local_target t dispatcher pr =
     map_option lc_target (List.find (\<lambda>route. lc_dispatcher route = dispatcher) (pr_local pr t))"

definition route :: "'k host \<Rightarrow> thread \<Rightarrow> usize \<Rightarrow> (usize option, 'k process) call" where
  "route H t dispatcher pr =
     (case local_target t dispatcher pr of
        Some target \<Rightarrow>
          if target \<noteq> dispatcher then (Ok (Some target), pr) else fallback H dispatcher pr
      | None \<Rightarrow> fallback H dispatcher pr)"

section \<open>Installing a route\<close>

definition resize :: "nat \<Rightarrow> 'a \<Rightarrow> 'a list \<Rightarrow> 'a list" where
  "resize n x xs = take n xs @ replicate (n - length xs) x"

text \<open>The part of \<^verbatim>\<open>install_replacement\<close> that prepares a new entry, up to its publication.\<close>

definition fill_page ::
  "'k host \<Rightarrow> patch list \<Rightarrow> usize \<Rightarrow> usize \<Rightarrow> u8 list \<Rightarrow> executable \<Rightarrow> (entry, 'k) call" where
  "fill_page H patches source dispatcher bytes page k =
     (let relay = ex_address page + 512 in
      andThen (code_plan (h_target H) source relay bytes, k) (\<lambda>pl k.
      andThen (ok_or (checked_add source (plan_offset pl)) InvalidRange, k) (\<lambda>address k.
      andThen (ok_or (checked_add address (length (plan_original pl))) InvalidRange, k) (\<lambda>e k.
        if \<exists>p\<in>set patches. address < pt_end p \<and> pt_address p < e then (Err Overlap, k)
        else
          andThen (code_trampoline (h_target H) address (ex_address page) (plan_original pl), k) (\<lambda>saved k.
          andThen (code_call_bridge (h_target H) (plan_original pl), k) (\<lambda>call_bridge k.
          andThen (if call_bridge then check_call_bridge (h_pages H) k else (Ok (), k)) (\<lambda>_ k.
          andThen (code_jump (h_target H) relay dispatcher, k) (\<lambda>tail k.
            case publish (h_pages H) (resize 512 0xcc saved @ tail) page k of ((r, page'), k') \<Rightarrow>
              andThen (r, k') (\<lambda>_ k.
                (Ok \<lparr>en_patch = \<lparr>pt_entry = source, pt_address = address,
                                  pt_original = plan_original pl, pt_replacement = plan_replacement pl,
                                  pt_relay = None\<rparr>,
                      en_dispatcher = dispatcher, en_original = page', en_call_bridge = call_bridge,
                      en_global = 0, en_next = None\<rparr>, k))))))))))"

definition prepare_entry ::
  "'k host \<Rightarrow> patch list \<Rightarrow> usize \<Rightarrow> usize \<Rightarrow> (entry, 'k) call" where
  "prepare_entry H patches source dispatcher k =
     andThen (memory_read (h_memory H) source MAX_PREFIX k) (\<lambda>bytes k.
     andThen (near (h_pages H) source k) (\<lambda>page k.
       dropping H page (fill_page H patches source dispatcher bytes page k)))"

text \<open>\<^verbatim>\<open>Box::leak\<close> and the store to \<^verbatim>\<open>HEAD\<close>: the entry is found from now on.\<close>

definition publish_entry :: "entry \<Rightarrow> 'k process \<Rightarrow> 'k process" where
  "publish_entry en pr = pr\<lparr>pr_heap := pr_heap pr @ [en\<lparr>en_next := pr_head pr\<rparr>],
                            pr_head := Some (length (pr_heap pr))\<rparr>"

definition write_entry :: "'k host \<Rightarrow> entry \<Rightarrow> (unit, 'k process) call" where
  "write_entry H en = in_system (host_write H (pt_address (en_patch en))
     (pt_original (en_patch en)) (pt_replacement (en_patch en)))"

definition new_route :: "'k host \<Rightarrow> usize \<Rightarrow> usize \<Rightarrow> (nat, 'k process) call" where
  "new_route H source dispatcher pr =
     andThen (in_system (prepare_entry H (map (record_patch (pr_heap pr)) (pr_records pr)) source dispatcher) pr)
       (\<lambda>en pr.
         let pointer = length (pr_heap pr); previous = pr_head pr in
         on_error
           (andThen (write_entry H en (publish_entry en pr)) (\<lambda>_ pr.
              (Ok pointer, pr\<lparr>pr_records := pr_records pr @ [\<lparr>rc_entry = pointer, rc_sites = [dispatcher]\<rparr>]\<rparr>)))
           (\<lambda>error pr. (Err error, pr\<lparr>pr_head := previous\<rparr>)))"

primrec update_first :: "('a \<Rightarrow> bool) \<Rightarrow> ('a \<Rightarrow> 'a) \<Rightarrow> 'a list \<Rightarrow> 'a list" where
  "update_first P f [] = []"
| "update_first P f (x # xs) = (if P x then f x # xs else x # update_first P f xs)"

definition add_site :: "usize \<Rightarrow> route_record \<Rightarrow> route_record" where
  "add_site dispatcher rc =
     (if dispatcher \<in> set (rc_sites rc) then rc else rc\<lparr>rc_sites := rc_sites rc @ [dispatcher]\<rparr>)"

definition refuses :: "entry list \<Rightarrow> usize \<Rightarrow> usize \<Rightarrow> usize \<Rightarrow> route_record \<Rightarrow> bool" where
  "refuses heap source dispatcher target rc =
     (let p = record_patch heap rc in
      (pt_entry p \<le> target \<and> target < pt_end p) \<or>
      (source \<noteq> pt_entry p \<and>
        ((pt_entry p \<le> source \<and> source < pt_end p) \<or> dispatcher \<in> set (rc_sites rc))))"

definition install_replacement ::
  "'k host \<Rightarrow> thread \<Rightarrow> usize \<Rightarrow> usize \<Rightarrow> usize \<Rightarrow> (unit, 'k process) call" where
  "install_replacement H t source dispatcher target pr =
     (if source = target then (Err SameAddress, pr)
      else if \<exists>route\<in>set (pr_local pr t). lc_source route = source then (Err Overlap, pr)
      else if \<exists>rc\<in>set (pr_records pr). refuses (pr_heap pr) source dispatcher target rc
      then (Err Overlap, pr)
      else
        andThen (in_system (memory_read (h_memory H) target 1) pr) (\<lambda>_ pr.
        andThen (in_system (memory_read (h_memory H) dispatcher 1) pr) (\<lambda>_ pr.
        andThen
          (let this = (\<lambda>rc. pt_entry (record_patch (pr_heap pr) rc) = source) in
           case List.find this (pr_records pr) of
             Some rc \<Rightarrow>
               (Ok (rc_entry rc), pr\<lparr>pr_records := update_first this (add_site dispatcher) (pr_records pr)\<rparr>)
           | None \<Rightarrow> new_route H source dispatcher pr) (\<lambda>pointer pr.
          (Ok (), pr\<lparr>pr_local := (pr_local pr)(t := pr_local pr t @
             [\<lparr>lc_source = source, lc_dispatcher = en_dispatcher (pr_heap pr ! pointer),
               lc_target = target\<rparr>])\<rparr>)))))"

definition install :: "'k host \<Rightarrow> thread \<Rightarrow> usize \<Rightarrow> usize \<Rightarrow> (unit, 'k process) call" where
  "install H t source target pr = install_replacement H t source target target pr"

definition remove_route :: "thread \<Rightarrow> usize \<Rightarrow> 'k process \<Rightarrow> 'k process" where
  "remove_route t source pr =
     pr\<lparr>pr_local := (pr_local pr)(t := filter (\<lambda>route. lc_source route \<noteq> source) (pr_local pr t))\<rparr>"

section \<open>Global routes\<close>

definition set_global :: "nat \<Rightarrow> usize \<Rightarrow> 'k process \<Rightarrow> 'k process" where
  "set_global pointer target pr =
     pr\<lparr>pr_heap := (pr_heap pr)[pointer := (pr_heap pr ! pointer)\<lparr>en_global := target\<rparr>]\<rparr>"

definition global_route :: "'k host \<Rightarrow> usize \<Rightarrow> usize \<Rightarrow> (bool, 'k process) call" where
  "global_route H source target pr =
     (if source = target then (Err SameAddress, pr)
      else if \<exists>rc\<in>set (pr_records pr). let p = record_patch (pr_heap pr) rc in
          (pt_entry p \<le> target \<and> target < pt_end p) \<or>
          (source \<noteq> pt_entry p \<and> pt_entry p \<le> source \<and> source < pt_end p)
      then (Err Overlap, pr)
      else
        case List.find (\<lambda>rc. pt_entry (record_patch (pr_heap pr) rc) = source) (pr_records pr) of
          None \<Rightarrow> (Ok False, pr)
        | Some rc \<Rightarrow>
            andThen (in_system (memory_read (h_memory H) target 1) pr) (\<lambda>_ pr.
              if en_global (pr_heap pr ! rc_entry rc) = 0
              then (Ok True, set_global (rc_entry rc) target pr)
              else (Err Overlap, pr)))"

definition overlaps :: "usize \<Rightarrow> nat \<Rightarrow> 'k process \<Rightarrow> bool" where
  "overlaps address len pr \<longleftrightarrow>
     (\<exists>rc\<in>set (pr_records pr). let p = record_patch (pr_heap pr) rc in
        address < pt_end p \<and> pt_address p < address + len)"

definition remove_global :: "usize \<Rightarrow> (unit, 'k process) call" where
  "remove_global source pr =
     (case List.find (\<lambda>rc. pt_entry (record_patch (pr_heap pr) rc) = source) (pr_records pr) of
        None \<Rightarrow> (Panics ''global route is missing'', pr)
      | Some rc \<Rightarrow> (Ok (), set_global (rc_entry rc) 0 pr))"

section \<open>The published list\<close>

text \<open>
  Entries are appended to the heap and point to an older entry, so following the list ends. The
  list from a cursor, newest entry first:
\<close>

function chain :: "entry list \<Rightarrow> nat option \<Rightarrow> nat list" where
  "chain heap None = []"
| "chain heap (Some p) =
     p # (case en_next (heap ! p) of
            None \<Rightarrow> []
          | Some q \<Rightarrow> if q < p then chain heap (Some q) else [])"
  by pat_completeness auto
termination
  by (relation "measure (\<lambda>(heap, cursor). case cursor of None \<Rightarrow> 0 | Some p \<Rightarrow> Suc p)") auto

declare chain.simps(2) [simp del]

definition list_ok :: "entry list \<Rightarrow> nat option \<Rightarrow> bool" where
  "list_ok heap head \<longleftrightarrow>
     (\<forall>p<length heap. \<forall>q. en_next (heap ! p) = Some q \<longrightarrow> q < p) \<and>
     (\<forall>p. head = Some p \<longrightarrow> p < length heap)"

lemma chain_bound: "p \<in> set (chain heap cursor) \<Longrightarrow> \<exists>c. cursor = Some c \<and> p \<le> c"
proof (induction heap cursor rule: chain.induct)
  case (2 heap c)
  from "2.prems" have "p = c \<or> (\<exists>q. en_next (heap ! c) = Some q \<and> q < c \<and> p \<in> set (chain heap (Some q)))"
    by (cases "en_next (heap ! c)") (auto simp: chain.simps(2) [of heap c] split: if_splits)
  then show ?case
  proof
    assume "\<exists>q. en_next (heap ! c) = Some q \<and> q < c \<and> p \<in> set (chain heap (Some q))"
    then obtain q where q: "en_next (heap ! c) = Some q" "q < c" "p \<in> set (chain heap (Some q))" by blast
    from "2.IH" [OF q] q(2) show ?thesis by simp
  qed simp
qed simp

lemma chain_in_heap: "list_ok heap head \<Longrightarrow> p \<in> set (chain heap head) \<Longrightarrow> p < length heap"
  by (drule chain_bound) (auto simp: list_ok_def)

text \<open>The list does not see entries that are newer than its head.\<close>

lemma chain_cong:
  assumes "\<And>p. p \<in> set (chain heap cursor) \<Longrightarrow> en_next (heap' ! p) = en_next (heap ! p)"
  shows "chain heap' cursor = chain heap cursor"
  using assms
proof (induction heap cursor rule: chain.induct)
  case (2 heap p)
  have "en_next (heap' ! p) = en_next (heap ! p)"
    by (rule "2.prems") (simp add: chain.simps(2) [of heap p])
  moreover have "chain heap' (Some q) = chain heap (Some q)" if "en_next (heap ! p) = Some q" "q < p" for q
    using that by (intro "2.IH" "2.prems") (auto simp: chain.simps(2) [of heap p])
  ultimately show ?case
    by (simp add: chain.simps(2) [of heap p] chain.simps(2) [of heap' p] split: option.splits)
qed simp

lemma chain_append:
  assumes "list_ok heap head"
  shows "chain (heap @ xs) head = chain heap head"
  by (rule chain_cong) (use chain_in_heap [OF assms] in \<open>auto simp: nth_append\<close>)

lemma chain_update:
  assumes "list_ok heap head" "en_next en = en_next (heap ! i)"
  shows "chain (heap[i := en]) head = chain heap head"
proof (rule chain_cong)
  fix p
  assume "p \<in> set (chain heap head)"
  then have "p < length heap" by (rule chain_in_heap [OF assms(1)])
  then show "en_next (heap[i := en] ! p) = en_next (heap ! p)"
    using assms(2) by (cases "i < length heap") (simp_all add: nth_list_update)
qed

text \<open>Following the list always ends, at the first entry of the dispatcher.\<close>

lemma fallback_loop_chain:
  assumes "list_ok heap cursor"
  shows "fallback_loop H heap dispatcher cursor k =
    Some (case List.find (\<lambda>p. en_dispatcher (heap ! p) = dispatcher) (chain heap cursor) of
            None \<Rightarrow> (Ok None, k) | Some p \<Rightarrow> entry_target H (heap ! p) k)"
  using assms
proof (induction heap cursor rule: chain.induct)
  case (1 heap)
  then show ?case by (simp add: fallback_loop.simps)
next
  case (2 heap p)
  then have p: "p < length heap" by (simp add: list_ok_def)
  show ?case
  proof (cases "en_dispatcher (heap ! p) = dispatcher")
    case True
    with p show ?thesis by (simp add: fallback_loop.simps [of H heap dispatcher "Some p"] chain.simps(2) [of heap p])
  next
    case False
    show ?thesis
    proof (cases "en_next (heap ! p)")
      case None
      with p False show ?thesis
        by (simp add: fallback_loop.simps [of H heap dispatcher "Some p"]
            fallback_loop.simps [of H heap dispatcher None] chain.simps(2) [of heap p])
    next
      case (Some q)
      with 2 p have q: "q < p" by (simp add: list_ok_def)
      with 2 p have "list_ok heap (Some q)" by (simp add: list_ok_def)
      with "2.IH" [OF Some q] Some q False p show ?thesis
        by (simp add: fallback_loop.simps [of H heap dispatcher "Some p"] chain.simps(2) [of heap p])
    qed
  qed
qed

definition fallback_entry :: "usize \<Rightarrow> 'k process \<Rightarrow> entry option" where
  "fallback_entry dispatcher pr =
     map_option ((!) (pr_heap pr))
       (List.find (\<lambda>p. en_dispatcher (pr_heap pr ! p) = dispatcher) (chain (pr_heap pr) (pr_head pr)))"

lemma fallback_eq:
  assumes "list_ok (pr_heap pr) (pr_head pr)"
  shows "fallback H dispatcher pr =
    (case fallback_entry dispatcher pr of
       None \<Rightarrow> (Ok None, pr) | Some en \<Rightarrow> in_system (entry_target H en) pr)"
  unfolding fallback_def fallback_entry_def fallback_loop_chain [OF assms] in_system_def
  by (auto split: option.splits)

section \<open>The table and the list agree\<close>

text \<open>
  The invariant of the process: the list ends; every record of \<^verbatim>\<open>ENTRIES\<close> has an entry of its own
  that the list reaches; the patched ranges of the records are disjoint and no two records patch
  the same function.
\<close>

definition patch_ok :: "patch \<Rightarrow> bool" where
  "patch_ok p \<longleftrightarrow> pt_entry p \<le> pt_address p \<and> pt_address p \<le> pt_entry p + 4 \<and>
     pt_original p \<noteq> [] \<and> length (pt_replacement p) = length (pt_original p) \<and> pt_end p \<le> usize_max"

definition patches_apart :: "patch \<Rightarrow> patch \<Rightarrow> bool" where
  "patches_apart p q \<longleftrightarrow> pt_end p \<le> pt_address q \<or> pt_end q \<le> pt_address p"

definition pr_patches :: "'k process \<Rightarrow> patch list" where
  "pr_patches pr = map (record_patch (pr_heap pr)) (pr_records pr)"

definition routing_ok :: "'k process \<Rightarrow> bool" where
  "routing_ok pr \<longleftrightarrow>
     list_ok (pr_heap pr) (pr_head pr) \<and>
     (\<forall>rc\<in>set (pr_records pr). rc_entry rc \<in> set (chain (pr_heap pr) (pr_head pr))) \<and>
     distinct (map rc_entry (pr_records pr)) \<and>
     distinct (map pt_entry (pr_patches pr)) \<and>
     (\<forall>p\<in>set (pr_patches pr). patch_ok p) \<and>
     pairwise patches_apart (set (pr_patches pr))"

lemma chain_publish:
  assumes "list_ok (pr_heap pr) (pr_head pr)"
  shows "chain (pr_heap (publish_entry en pr)) (pr_head (publish_entry en pr)) =
    length (pr_heap pr) # chain (pr_heap pr) (pr_head pr)"
proof -
  let ?heap = "pr_heap pr @ [en\<lparr>en_next := pr_head pr\<rparr>]"
  have "chain ?heap (Some (length (pr_heap pr))) = length (pr_heap pr) # chain ?heap (pr_head pr)"
    using assms by (subst chain.simps(2)) (auto simp: list_ok_def split: option.splits)
  with chain_append [OF assms] show ?thesis by (simp add: publish_entry_def)
qed

lemma fallback_entry_publish:
  assumes "list_ok (pr_heap pr) (pr_head pr)"
  shows "fallback_entry dispatcher (publish_entry en pr) =
    (if en_dispatcher en = dispatcher then Some (en\<lparr>en_next := pr_head pr\<rparr>)
     else fallback_entry dispatcher pr)"
proof -
  let ?heap = "pr_heap pr @ [en\<lparr>en_next := pr_head pr\<rparr>]"
  have "chain ?heap (Some (length (pr_heap pr))) = length (pr_heap pr) # chain (pr_heap pr) (pr_head pr)"
    using chain_publish [OF assms, of en] by (simp add: publish_entry_def)
  moreover have "List.find (\<lambda>p. en_dispatcher (?heap ! p) = dispatcher) (chain (pr_heap pr) (pr_head pr)) =
      List.find (\<lambda>p. en_dispatcher (pr_heap pr ! p) = dispatcher) (chain (pr_heap pr) (pr_head pr))"
    using chain_in_heap [OF assms] by (intro find_cong) (auto simp: nth_append)
  moreover have "(!) ?heap p = (!) (pr_heap pr) p"
    if "List.find (\<lambda>p. en_dispatcher (pr_heap pr ! p) = dispatcher) (chain (pr_heap pr) (pr_head pr)) = Some p" for p
    using that chain_in_heap [OF assms, of p] by (auto simp: find_Some_iff nth_append)
  ultimately show ?thesis
    by (auto simp: fallback_entry_def publish_entry_def map_option_case split: option.splits)
qed

lemma in_system_result: "in_system m pr = (r, pr') \<Longrightarrow> \<exists>k. m (pr_system pr) = (r, k) \<and> pr' = pr\<lparr>pr_system := k\<rparr>"
  by (auto simp: in_system_def split: prod.splits)

lemma routing_ok_system [simp]: "routing_ok (pr\<lparr>pr_system := k\<rparr>) = routing_ok pr"
  by (simp add: routing_ok_def pr_patches_def)

lemma routing_ok_local [simp]: "routing_ok (pr\<lparr>pr_local := l\<rparr>) = routing_ok pr"
  by (simp add: routing_ok_def pr_patches_def)

lemma in_system_ok: "in_system m pr = (r, pr') \<Longrightarrow> routing_ok pr' = routing_ok pr"
  by (drule in_system_result) auto

text \<open>A prepared entry is a plan of its function that is apart from all patches so far.\<close>

definition entry_ready :: "patch list \<Rightarrow> usize \<Rightarrow> usize \<Rightarrow> entry \<Rightarrow> bool" where
  "entry_ready patches source dispatcher en \<longleftrightarrow>
     pt_entry (en_patch en) = source \<and> en_dispatcher en = dispatcher \<and> en_global en = 0 \<and>
     patch_ok (en_patch en) \<and> (\<forall>p\<in>set patches. patches_apart (en_patch en) p)"

lemma fill_page_ready:
  "fill_page H patches source dispatcher bytes page k = (Ok en, k') \<Longrightarrow>
   entry_ready patches source dispatcher en"
  by (auto simp: fill_page_def Let_def result_simps entry_ready_def patch_ok_def patches_apart_def pt_end_def
      not_less code_plan_shape(3) case_prod_unfold split: if_splits dest: code_plan_shape(1,2))

lemma prepare_entry_ready:
  "prepare_entry H patches source dispatcher k = (Ok en, k') \<Longrightarrow>
   entry_ready patches source dispatcher en"
  by (auto simp: prepare_entry_def dropping_Ok result_simps dest: fill_page_ready)

lemma list_ok_publish:
  "list_ok (pr_heap pr) (pr_head pr) \<Longrightarrow>
   list_ok (pr_heap (publish_entry en pr)) (pr_head (publish_entry en pr))"
  by (auto simp: list_ok_def publish_entry_def nth_append less_Suc_eq)

lemma record_in_heap: "routing_ok pr \<Longrightarrow> rc \<in> set (pr_records pr) \<Longrightarrow> rc_entry rc < length (pr_heap pr)"
  by (auto simp: routing_ok_def intro: chain_in_heap)

lemma pr_patches_publish:
  assumes "routing_ok pr"
  shows "pr_patches (publish_entry en pr) = pr_patches pr"
  using record_in_heap [OF assms]
  by (auto simp: pr_patches_def publish_entry_def record_patch_def nth_append)

lemma routing_ok_publish:
  assumes "routing_ok pr"
  shows "routing_ok (publish_entry en pr)"
proof -
  have l: "list_ok (pr_heap pr) (pr_head pr)" using assms by (simp add: routing_ok_def)
  have "pr_records (publish_entry en pr) = pr_records pr" by (simp add: publish_entry_def)
  with assms list_ok_publish [OF l, of en] chain_publish [OF l, of en] pr_patches_publish [OF assms, of en]
  show ?thesis by (auto simp: routing_ok_def)
qed

lemma record_patch_append:
  "rc_entry rc < length heap \<Longrightarrow> record_patch (heap @ xs) rc = record_patch heap rc"
  by (simp add: record_patch_def nth_append)

text \<open>After a failed write the entry stays allocated but nothing leads to it.\<close>

lemma routing_ok_unpublish:
  assumes "routing_ok pr"
  shows "routing_ok (publish_entry en pr\<lparr>pr_head := pr_head pr\<rparr>)"
proof -
  have l: "list_ok (pr_heap pr) (pr_head pr)" using assms by (simp add: routing_ok_def)
  let ?pr = "publish_entry en pr\<lparr>pr_head := pr_head pr\<rparr>"
  have "list_ok (pr_heap ?pr) (pr_head ?pr)"
    using list_ok_publish [OF l, of en] l by (auto simp: list_ok_def publish_entry_def)
  moreover have "chain (pr_heap ?pr) (pr_head ?pr) = chain (pr_heap pr) (pr_head pr)"
    using chain_append [OF l] by (simp add: publish_entry_def)
  moreover have "pr_patches ?pr = pr_patches pr"
    using pr_patches_publish [OF assms, of en] by (simp add: pr_patches_def)
  moreover have "pr_records ?pr = pr_records pr" by (simp add: publish_entry_def)
  ultimately show ?thesis using assms by (simp add: routing_ok_def)
qed

lemma patches_apart_sym: "patches_apart p q \<longleftrightarrow> patches_apart q p"
  by (auto simp: patches_apart_def)

lemma routing_ok_record:
  assumes ok: "routing_ok pr" and ready: "entry_ready (pr_patches pr) source dispatcher en"
    and new: "source \<notin> set (map pt_entry (pr_patches pr))"
  shows "routing_ok (publish_entry en pr\<lparr>pr_records := pr_records pr @
      [\<lparr>rc_entry = length (pr_heap pr), rc_sites = [dispatcher]\<rparr>]\<rparr>)" (is "routing_ok ?pr")
proof -
  have l: "list_ok (pr_heap pr) (pr_head pr)" using ok by (simp add: routing_ok_def)
  have p: "pr_patches ?pr = pr_patches pr @ [en_patch en]"
    using pr_patches_publish [OF ok, of en]
    by (simp add: pr_patches_def publish_entry_def record_patch_def)
  have c: "chain (pr_heap ?pr) (pr_head ?pr) = length (pr_heap pr) # chain (pr_heap pr) (pr_head pr)"
    using chain_publish [OF l, of en] by simp
  have "length (pr_heap pr) \<notin> rc_entry ` set (pr_records pr)"
    using record_in_heap [OF ok] by fastforce
  moreover have "pairwise patches_apart (set (pr_patches ?pr))"
    using ok ready unfolding p
    by (auto simp: routing_ok_def entry_ready_def pairwise_def patches_apart_sym)
  ultimately show ?thesis
    using ok ready new list_ok_publish [OF l, of en] c p
    by (auto simp: routing_ok_def entry_ready_def)
qed

text \<open>How \<open>new_route\<close> ends: before the publication, after a failed write, or with a new record.\<close>

lemma new_route_cases:
  assumes "new_route H source dispatcher pr = (r, pr')"
  obtains (Unpublished) k where "pr' = pr\<lparr>pr_system := k\<rparr>" "\<forall>p. r \<noteq> Ok p"
  | (Failed) en k e where "r = Err e" "entry_ready (pr_patches pr) source dispatcher en"
      "pr' = (publish_entry en pr)\<lparr>pr_system := k, pr_head := pr_head pr\<rparr>"
  | (Stuck) en k where "\<forall>p. r \<noteq> Ok p" "\<forall>e. r \<noteq> Err e" "entry_ready (pr_patches pr) source dispatcher en"
      "pr' = (publish_entry en pr)\<lparr>pr_system := k\<rparr>"
  | (Installed) en k where "r = Ok (length (pr_heap pr))" "entry_ready (pr_patches pr) source dispatcher en"
      "pr' = (publish_entry en pr)\<lparr>pr_system := k, pr_records := pr_records pr @
         [\<lparr>rc_entry = length (pr_heap pr), rc_sites = [dispatcher]\<rparr>]\<rparr>"
proof -
  obtain r1 k1 where q: "prepare_entry H (pr_patches pr) source dispatcher (pr_system pr) = (r1, k1)"
    by (cases "prepare_entry H (pr_patches pr) source dispatcher (pr_system pr)")
  show thesis
  proof (cases r1)
    case (Ok en)
    have ready: "entry_ready (pr_patches pr) source dispatcher en"
      using q Ok by (blast intro: prepare_entry_ready)
    let ?pub = "publish_entry en pr"
    obtain r2 k2 where w: "host_write H (pt_address (en_patch en)) (pt_original (en_patch en))
        (pt_replacement (en_patch en)) k1 = (r2, k2)"
      by (cases "host_write H (pt_address (en_patch en)) (pt_original (en_patch en))
        (pt_replacement (en_patch en)) k1")
    have pub: "publish_entry en (pr\<lparr>pr_system := k1\<rparr>) = ?pub\<lparr>pr_system := k1\<rparr>" "pr_system (?pub\<lparr>pr_system := k1\<rparr>) = k1"
      by (simp_all add: publish_entry_def)
    from assms q Ok w show thesis
      by (cases r2)
        (auto simp: new_route_def pr_patches_def [symmetric] in_system_def write_entry_def publish_entry_def Let_def
          intro: Failed [OF _ ready] Stuck [OF _ _ ready] Installed [OF _ ready])
  qed (use assms q in \<open>auto simp: new_route_def pr_patches_def [symmetric] in_system_def intro: Unpublished\<close>)
qed

lemma update_first_map:
  "(\<And>x. g (f x) = g x) \<Longrightarrow> map g (update_first P f xs) = map g xs"
  by (induction xs) auto

lemma routing_ok_add_site:
  assumes "routing_ok pr"
  shows "routing_ok (pr\<lparr>pr_records := update_first P (add_site dispatcher) (pr_records pr)\<rparr>)"
proof -
  let ?rs = "update_first P (add_site dispatcher) (pr_records pr)"
  have e: "map rc_entry ?rs = map rc_entry (pr_records pr)"
    by (rule update_first_map) (simp add: add_site_def)
  have p: "map (record_patch (pr_heap pr)) ?rs = map (record_patch (pr_heap pr)) (pr_records pr)"
    by (rule update_first_map) (simp add: add_site_def record_patch_def)
  have "rc_entry ` set ?rs = rc_entry ` set (pr_records pr)" using e by (metis set_map)
  then have "(\<forall>rc\<in>set ?rs. rc_entry rc \<in> S) \<longleftrightarrow> (\<forall>rc\<in>set (pr_records pr). rc_entry rc \<in> S)" for S
    by (metis (no_types, lifting) imageE image_eqI)
  with assms e p show ?thesis by (simp add: routing_ok_def pr_patches_def)
qed

text \<open>
  How \<open>install_replacement\<close> ends: nothing but the system's state changes; or the table or the
  list changes on the way and the call does not succeed; or it succeeds and the calling thread has
  one route more.
\<close>

lemma routing_ok_new_route:
  assumes "routing_ok pr" "new_route H source dispatcher pr = (r, pr')"
    "\<forall>rc\<in>set (pr_records pr). pt_entry (record_patch (pr_heap pr) rc) \<noteq> source"
  shows "routing_ok pr' \<and> pr_local pr' = pr_local pr \<and>
    (\<forall>p. r = Ok p \<longrightarrow> p < length (pr_heap pr') \<and> en_dispatcher (pr_heap pr' ! p) = dispatcher)"
  using assms(2)
proof (cases rule: new_route_cases)
  case (Unpublished k)
  with assms show ?thesis by simp
next
  case (Failed en k e)
  then have "pr' = (publish_entry en pr\<lparr>pr_head := pr_head pr\<rparr>)\<lparr>pr_system := k\<rparr>" by simp
  with routing_ok_unpublish [OF assms(1), of en] Failed show ?thesis by (simp add: publish_entry_def)
next
  case (Stuck en k)
  with routing_ok_publish [OF assms(1), of en] show ?thesis by (simp add: publish_entry_def)
next
  case (Installed en k)
  have "source \<notin> set (map pt_entry (pr_patches pr))" using assms(3) by (auto simp: pr_patches_def)
  note ok = routing_ok_record [OF assms(1) Installed(2) this]
  have "pr' = (publish_entry en pr\<lparr>pr_records := pr_records pr @
      [\<lparr>rc_entry = length (pr_heap pr), rc_sites = [dispatcher]\<rparr>]\<rparr>)\<lparr>pr_system := k\<rparr>"
    using Installed(3) by simp
  with ok Installed(1,2) show ?thesis by (auto simp: publish_entry_def entry_ready_def)
qed

text \<open>The pointer that \<open>install_replacement\<close> works with, found or newly made.\<close>

definition obtain_entry :: "'k host \<Rightarrow> usize \<Rightarrow> usize \<Rightarrow> (nat, 'k process) call" where
  "obtain_entry H source dispatcher pr =
     (let this = (\<lambda>rc. pt_entry (record_patch (pr_heap pr) rc) = source) in
      case List.find this (pr_records pr) of
        Some rc \<Rightarrow>
          (Ok (rc_entry rc), pr\<lparr>pr_records := update_first this (add_site dispatcher) (pr_records pr)\<rparr>)
      | None \<Rightarrow> new_route H source dispatcher pr)"

lemma obtain_entry_ok:
  assumes "routing_ok pr" "obtain_entry H source dispatcher pr = (r, pr')"
  shows "routing_ok pr' \<and> pr_local pr' = pr_local pr \<and> (\<forall>p. r = Ok p \<longrightarrow> p < length (pr_heap pr'))"
proof (cases "List.find (\<lambda>rc. pt_entry (record_patch (pr_heap pr) rc) = source) (pr_records pr)")
  case None
  with assms routing_ok_new_route [OF assms(1), of H source dispatcher r pr'] show ?thesis
    by (simp add: obtain_entry_def find_None_iff)
next
  case (Some rc)
  then have "rc \<in> set (pr_records pr)" by (auto simp: find_Some_iff)
  with Some assms routing_ok_add_site [OF assms(1)] record_in_heap [OF assms(1)] show ?thesis
    by (auto simp: obtain_entry_def Let_def)
qed

lemma install_replacement_cases:
  assumes "install_replacement H t source dispatcher target pr = (r, pr')" "routing_ok pr"
  shows "(\<exists>k. pr' = pr\<lparr>pr_system := k\<rparr> \<and> r \<noteq> Ok ()) \<or>
    (\<exists>k r1 pr1. obtain_entry H source dispatcher (pr\<lparr>pr_system := k\<rparr>) = (r1, pr1) \<and>
       source \<noteq> target \<and> (\<forall>route\<in>set (pr_local pr t). lc_source route \<noteq> source) \<and>
       (\<forall>rc\<in>set (pr_records pr). \<not> refuses (pr_heap pr) source dispatcher target rc) \<and>
       ((r \<noteq> Ok () \<and> (\<forall>p. r1 \<noteq> Ok p) \<and> pr' = pr1) \<or>
        (\<exists>p. r = Ok () \<and> r1 = Ok p \<and> pr' = pr1\<lparr>pr_local := (pr_local pr1)(t := pr_local pr1 t @
           [\<lparr>lc_source = source, lc_dispatcher = en_dispatcher (pr_heap pr1 ! p), lc_target = target\<rparr>])\<rparr>)))"
    (is "?early \<or> ?late")
proof (cases "source = target \<or> (\<exists>route\<in>set (pr_local pr t). lc_source route = source) \<or>
    (\<exists>rc\<in>set (pr_records pr). refuses (pr_heap pr) source dispatcher target rc)")
  case True
  with assms(1) have "pr' = pr\<lparr>pr_system := pr_system pr\<rparr> \<and> r \<noteq> Ok ()"
    by (auto simp: install_replacement_def split: if_splits)
  then show ?thesis by blast
next
  case go: False
  obtain r1 k1 where q1: "memory_read (h_memory H) target 1 (pr_system pr) = (r1, k1)"
    by (cases "memory_read (h_memory H) target 1 (pr_system pr)")
  obtain r2 k2 where q2: "memory_read (h_memory H) dispatcher 1 k1 = (r2, k2)"
    by (cases "memory_read (h_memory H) dispatcher 1 k1")
  show ?thesis
  proof (cases "\<exists>a b. r1 = Ok a \<and> r2 = Ok b")
    case False
    with assms(1) go q1 q2 have ?early
      by (cases r1; cases r2) (auto simp: install_replacement_def in_system_def)
    then show ?thesis ..
  next
    case True
    obtain r3 pr3 where o: "obtain_entry H source dispatcher (pr\<lparr>pr_system := k2\<rparr>) = (r3, pr3)"
      by (cases "obtain_entry H source dispatcher (pr\<lparr>pr_system := k2\<rparr>)")
    from True assms(1) go q1 q2 have step: "(r, pr') = andThen (r3, pr3) (\<lambda>pointer pr.
        (Ok (), pr\<lparr>pr_local := (pr_local pr)(t := pr_local pr t @
             [\<lparr>lc_source = source, lc_dispatcher = en_dispatcher (pr_heap pr ! pointer),
               lc_target = target\<rparr>])\<rparr>))"
      by (auto simp: install_replacement_def in_system_def obtain_entry_def [symmetric] o)
    from go o step have ?late
      by (intro exI [of _ k2] exI [of _ r3] exI [of _ pr3]) (cases r3; auto)
    then show ?thesis ..
  qed
qed

section \<open>Dispatchers and routes\<close>

text \<open>
  A dispatcher serves one function only: the sites of different records are disjoint, and the
  routes of a thread are for different functions and carry the dispatcher of their record.
\<close>

definition record_dispatcher :: "'k process \<Rightarrow> route_record \<Rightarrow> usize" where
  "record_dispatcher pr rc = en_dispatcher (pr_heap pr ! rc_entry rc)"

definition record_source :: "'k process \<Rightarrow> route_record \<Rightarrow> usize" where
  "record_source pr rc = pt_entry (record_patch (pr_heap pr) rc)"

definition serves :: "'k process \<Rightarrow> usize \<Rightarrow> usize \<Rightarrow> bool" where
  "serves pr source dispatcher \<longleftrightarrow>
     (\<exists>rc\<in>set (pr_records pr). record_source pr rc = source \<and> record_dispatcher pr rc = dispatcher)"

definition sites_ok :: "'k process \<Rightarrow> bool" where
  "sites_ok pr \<longleftrightarrow>
     (\<forall>rc\<in>set (pr_records pr). record_dispatcher pr rc \<in> set (rc_sites rc)) \<and>
     (\<forall>rc\<in>set (pr_records pr). \<forall>rc'\<in>set (pr_records pr).
        set (rc_sites rc) \<inter> set (rc_sites rc') \<noteq> {} \<longrightarrow> record_source pr rc = record_source pr rc')"

definition locals_ok :: "'k process \<Rightarrow> bool" where
  "locals_ok pr \<longleftrightarrow>
     (\<forall>t. distinct (map lc_source (pr_local pr t)) \<and>
        (\<forall>route\<in>set (pr_local pr t). serves pr (lc_source route) (lc_dispatcher route)))"

lemma serves_unique:
  assumes "sites_ok pr" "serves pr s d" "serves pr s' d"
  shows "s = s'"
proof -
  from assms(2) obtain rc where rc: "rc \<in> set (pr_records pr)" "record_source pr rc = s"
    "record_dispatcher pr rc = d" by (auto simp: serves_def)
  from assms(3) obtain rc' where rc': "rc' \<in> set (pr_records pr)" "record_source pr rc' = s'"
    "record_dispatcher pr rc' = d" by (auto simp: serves_def)
  have "d \<in> set (rc_sites rc)" "d \<in> set (rc_sites rc')"
    using assms(1) rc rc' by (auto simp: sites_ok_def)
  then have "set (rc_sites rc) \<inter> set (rc_sites rc') \<noteq> {}" by blast
  with assms(1) rc(1,2) rc'(1,2) show ?thesis unfolding sites_ok_def by metis
qed

lemma local_target_route:
  assumes "sites_ok pr" "locals_ok pr" "lr \<in> set (pr_local pr t)"
  shows "local_target t (lc_dispatcher lr) pr = Some (lc_target lr)"
proof -
  have "lr' = lr" if "lr' \<in> set (pr_local pr t)" "lc_dispatcher lr' = lc_dispatcher lr" for lr'
  proof -
    have "lc_source lr' = lc_source lr"
      using assms that by (metis locals_ok_def serves_unique)
    moreover have "inj_on lc_source (set (pr_local pr t))"
      using assms(2) by (simp add: locals_ok_def distinct_map)
    ultimately show ?thesis using that(1) assms(3) by (simp add: inj_on_def)
  qed
  moreover obtain lr' where
    "List.find (\<lambda>lr'. lc_dispatcher lr' = lc_dispatcher lr) (pr_local pr t) = Some lr'"
    using assms(3) by (cases "List.find (\<lambda>lr'. lc_dispatcher lr' = lc_dispatcher lr) (pr_local pr t)")
      (auto simp: find_None_iff)
  moreover from this have "lr' \<in> set (pr_local pr t)" "lc_dispatcher lr' = lc_dispatcher lr"
    by (auto simp: find_Some_iff)
  ultimately show ?thesis by (auto simp: local_target_def)
qed

definition same_table :: "'k process \<Rightarrow> 'k process \<Rightarrow> bool" where
  "same_table pr pr' \<longleftrightarrow> pr_records pr' = pr_records pr \<and>
     (\<forall>rc\<in>set (pr_records pr). record_source pr' rc = record_source pr rc \<and>
        record_dispatcher pr' rc = record_dispatcher pr rc)"

lemma same_table_sites: "same_table pr pr' \<Longrightarrow> sites_ok pr' = sites_ok pr"
  unfolding same_table_def sites_ok_def by simp

lemma same_table_serves: "same_table pr pr' \<Longrightarrow> serves pr' s d = serves pr s d"
  unfolding same_table_def serves_def by auto

lemma same_table_system [simp]: "same_table pr (pr\<lparr>pr_system := k\<rparr>)"
  by (simp add: same_table_def record_source_def record_dispatcher_def)

lemma same_table_local [simp]: "same_table pr (pr\<lparr>pr_local := l\<rparr>)"
  by (simp add: same_table_def record_source_def record_dispatcher_def)

lemma same_table_publish:
  assumes "routing_ok pr"
  shows "same_table pr ((publish_entry en pr)\<lparr>pr_system := k\<rparr>)"
    "same_table pr ((publish_entry en pr)\<lparr>pr_system := k, pr_head := h\<rparr>)"
  using record_in_heap [OF assms]
  by (auto simp: same_table_def record_source_def record_dispatcher_def record_patch_def publish_entry_def nth_append)

lemma same_table_global:
  assumes "routing_ok pr"
  shows "same_table pr (set_global p target pr)"
proof -
  have "en_patch (pr_heap (set_global p target pr) ! i) = en_patch (pr_heap pr ! i) \<and>
      en_dispatcher (pr_heap (set_global p target pr) ! i) = en_dispatcher (pr_heap pr ! i)"
    if "i < length (pr_heap pr)" for i
    using that by (cases "i = p") (simp_all add: set_global_def)
  with record_in_heap [OF assms] show ?thesis
    by (simp add: same_table_def record_source_def record_dispatcher_def record_patch_def)
      (simp add: set_global_def)
qed

text \<open>Obtaining an entry makes the record of the source serve its dispatcher.\<close>

lemma update_first_set:
  assumes "List.find P xs = Some x" "rc \<in> set (update_first P f xs)"
  shows "rc = f x \<or> rc \<in> set xs"
  using assms by (induction xs) (auto split: if_splits)

lemma find_serves:
  assumes "List.find (\<lambda>rc. pt_entry (record_patch (pr_heap pr) rc) = source) (pr_records pr) = Some rc"
  shows "rc \<in> set (pr_records pr)" "record_source pr rc = source"
  using assms by (auto simp: find_Some_iff record_source_def)

lemma update_first_keeps:
  "(\<And>x. P x \<Longrightarrow> g (f x) = g x) \<Longrightarrow> g ` set (update_first P f xs) = g ` set xs"
  by (induction xs) auto

definition free_site :: "'k process \<Rightarrow> usize \<Rightarrow> usize \<Rightarrow> bool" where
  "free_site pr source dispatcher \<longleftrightarrow>
     (\<forall>rc\<in>set (pr_records pr). record_source pr rc \<noteq> source \<longrightarrow> dispatcher \<notin> set (rc_sites rc))"

lemma add_site_simps [simp]:
  "rc_entry (add_site d rc) = rc_entry rc" "set (rc_sites (add_site d rc)) = insert d (set (rc_sites rc))"
  by (auto simp: add_site_def)

lemma add_site_sites:
  assumes ok: "sites_ok pr" "free_site pr source dispatcher"
    and f: "List.find (\<lambda>rc. pt_entry (record_patch (pr_heap pr) rc) = source) (pr_records pr) = Some rc0"
  defines "pr' \<equiv> pr\<lparr>pr_records := update_first (\<lambda>rc. pt_entry (record_patch (pr_heap pr) rc) = source)
      (add_site dispatcher) (pr_records pr)\<rparr>"
  shows "sites_ok pr' \<and> (\<forall>s d. serves pr' s d = serves pr s d)"
proof -
  have view: "record_source pr' rc = record_source pr rc" "record_dispatcher pr' rc = record_dispatcher pr rc" for rc
    by (simp_all add: pr'_def record_source_def record_dispatcher_def)
  have old: "rc = add_site dispatcher rc0 \<or> rc \<in> set (pr_records pr)" if "rc \<in> set (pr_records pr')" for rc
    using update_first_set [OF f] that by (simp add: pr'_def)
  note rc0 = find_serves [OF f]
  have src: "record_source pr (add_site dispatcher rc0) = source"
    "record_dispatcher pr (add_site dispatcher rc0) = record_dispatcher pr rc0"
    using rc0 by (simp_all add: record_source_def record_dispatcher_def record_patch_def)
  have "serves pr' s d = serves pr s d" for s d
  proof -
    have "(\<lambda>rc. (record_source pr rc, record_dispatcher pr rc)) ` set (pr_records pr') =
        (\<lambda>rc. (record_source pr rc, record_dispatcher pr rc)) ` set (pr_records pr)"
      unfolding pr'_def by (simp, rule update_first_keeps)
        (simp add: record_source_def record_dispatcher_def record_patch_def)
    moreover have "serves pr' s d \<longleftrightarrow> (s, d) \<in> (\<lambda>rc. (record_source pr rc, record_dispatcher pr rc)) ` set (pr_records pr')"
      by (auto simp: serves_def view)
    moreover have "serves pr s d \<longleftrightarrow> (s, d) \<in> (\<lambda>rc. (record_source pr rc, record_dispatcher pr rc)) ` set (pr_records pr)"
      by (auto simp: serves_def)
    ultimately show ?thesis by simp
  qed
  moreover have "record_dispatcher pr rc \<in> set (rc_sites rc)" if "rc \<in> set (pr_records pr')" for rc
    using old [OF that] ok(1) rc0 src by (auto simp: sites_ok_def)
  moreover have "record_source pr a = record_source pr b"
    if "a \<in> set (pr_records pr')" "b \<in> set (pr_records pr')" "set (rc_sites a) \<inter> set (rc_sites b) \<noteq> {}" for a b
  proof -
    have apart: "record_source pr c = source"
      if "c \<in> set (pr_records pr)" "set (rc_sites (add_site dispatcher rc0)) \<inter> set (rc_sites c) \<noteq> {}" for c
    proof (cases "dispatcher \<in> set (rc_sites c)")
      case True
      with ok(2) that(1) show ?thesis by (auto simp: free_site_def)
    next
      case False
      with that(2) have "set (rc_sites rc0) \<inter> set (rc_sites c) \<noteq> {}" by simp
      with ok(1) rc0 that(1) show ?thesis unfolding sites_ok_def by metis
    qed
    from old [OF that(1)] old [OF that(2)] show ?thesis
    proof (elim disjE)
      assume "a \<in> set (pr_records pr)" "b \<in> set (pr_records pr)"
      with ok(1) that(3) show ?thesis unfolding sites_ok_def by metis
    qed (use apart src that(3) in \<open>auto simp: Int_commute\<close>)
  qed
  ultimately show ?thesis unfolding sites_ok_def [of pr'] view by blast
qed

lemma new_record_sites:
  assumes ok: "routing_ok pr" "sites_ok pr" "free_site pr source dispatcher"
    and ready: "entry_ready (pr_patches pr) source dispatcher en"
    and new: "\<forall>rc\<in>set (pr_records pr). record_source pr rc \<noteq> source"
    and pr'_def: "pr' = (publish_entry en pr)\<lparr>pr_system := k, pr_records := pr_records pr @
         [\<lparr>rc_entry = length (pr_heap pr), rc_sites = [dispatcher]\<rparr>]\<rparr>"
  shows "sites_ok pr' \<and> (\<forall>s d. serves pr' s d \<longleftrightarrow> serves pr s d \<or> (s = source \<and> d = dispatcher))"
proof -
  let ?rc = "\<lparr>rc_entry = length (pr_heap pr), rc_sites = [dispatcher]\<rparr>"
  have old: "record_source pr' rc = record_source pr rc \<and> record_dispatcher pr' rc = record_dispatcher pr rc"
    if "rc \<in> set (pr_records pr)" for rc
    using record_in_heap [OF ok(1) that]
    by (simp add: pr'_def record_source_def record_dispatcher_def record_patch_def publish_entry_def nth_append)
  have added: "record_source pr' ?rc = source" "record_dispatcher pr' ?rc = dispatcher"
    using ready
    by (simp_all add: pr'_def record_source_def record_dispatcher_def record_patch_def publish_entry_def entry_ready_def)
  have recs: "set (pr_records pr') = insert ?rc (set (pr_records pr))" by (simp add: pr'_def)
  have free: "dispatcher \<notin> set (rc_sites rc)" if "rc \<in> set (pr_records pr)" for rc
    using ok(3) new that by (simp add: free_site_def)
  have "record_source pr' a = record_source pr' b"
    if ab: "a \<in> set (pr_records pr')" "b \<in> set (pr_records pr')" "set (rc_sites a) \<inter> set (rc_sites b) \<noteq> {}" for a b
  proof (cases "a = ?rc \<or> b = ?rc")
    case True
    with ab free have "a = b" by (auto simp: recs)
    then show ?thesis by simp
  next
    case False
    with ab have "a \<in> set (pr_records pr)" "b \<in> set (pr_records pr)" by (simp_all add: recs)
    with ok(2) ab(3) old show ?thesis unfolding sites_ok_def by metis
  qed
  moreover have "record_dispatcher pr' a \<in> set (rc_sites a)" if "a \<in> set (pr_records pr')" for a
    using that ok(2) old added by (auto simp: recs sites_ok_def)
  ultimately have "sites_ok pr'" unfolding sites_ok_def by blast
  moreover have "serves pr' s d \<longleftrightarrow> serves pr s d \<or> (s = source \<and> d = dispatcher)" for s d
    using old added unfolding serves_def recs by auto
  ultimately show ?thesis by blast
qed

lemma obtain_entry_sites:
  assumes ok: "routing_ok pr" "sites_ok pr" "free_site pr source dispatcher"
    and o: "obtain_entry H source dispatcher pr = (r, pr')"
  shows "sites_ok pr' \<and> (\<forall>s d. serves pr s d \<longrightarrow> serves pr' s d) \<and>
    (\<forall>p. r = Ok p \<longrightarrow> serves pr' source (en_dispatcher (pr_heap pr' ! p)))"
proof (cases "List.find (\<lambda>rc. pt_entry (record_patch (pr_heap pr) rc) = source) (pr_records pr)")
  case (Some rc)
  from o Some have pr': "r = Ok (rc_entry rc)" "pr' = pr\<lparr>pr_records :=
      update_first (\<lambda>rc. pt_entry (record_patch (pr_heap pr) rc) = source) (add_site dispatcher) (pr_records pr)\<rparr>"
    by (auto simp: obtain_entry_def)
  note law = add_site_sites [OF ok(2,3) Some, folded pr'(2)]
  have "serves pr source (record_dispatcher pr rc)" using find_serves [OF Some] by (auto simp: serves_def)
  with law pr' show ?thesis by (simp add: record_dispatcher_def)
next
  case None
  then have new: "\<forall>rc\<in>set (pr_records pr). record_source pr rc \<noteq> source"
    by (auto simp: find_None_iff record_source_def)
  from o None have "new_route H source dispatcher pr = (r, pr')" by (simp add: obtain_entry_def)
  then show ?thesis
  proof (cases rule: new_route_cases)
    case (Unpublished k)
    then show ?thesis using ok(2) same_table_sites [OF same_table_system] same_table_serves [OF same_table_system]
      by metis
  next
    case (Failed en k e)
    with ok(2) same_table_sites [OF same_table_publish(2) [OF ok(1)]]
      same_table_serves [OF same_table_publish(2) [OF ok(1)]] show ?thesis by simp
  next
    case (Stuck en k)
    with ok(2) same_table_sites [OF same_table_publish(1) [OF ok(1)]]
      same_table_serves [OF same_table_publish(1) [OF ok(1)]] show ?thesis by simp
  next
    case (Installed en k)
    note law = new_record_sites [OF ok Installed(2) new Installed(3)]
    have "en_dispatcher (pr_heap pr' ! length (pr_heap pr)) = dispatcher"
      using Installed(2,3) by (simp add: publish_entry_def entry_ready_def)
    with law Installed(1) show ?thesis by simp
  qed
qed

section \<open>Every step keeps the process in order\<close>

definition process_ok :: "'k process \<Rightarrow> bool" where
  "process_ok pr \<longleftrightarrow> routing_ok pr \<and> sites_ok pr \<and> locals_ok pr"

lemma locals_ok_mono:
  assumes "locals_ok pr" "pr_local pr' = pr_local pr" "\<And>s d. serves pr s d \<Longrightarrow> serves pr' s d"
  shows "locals_ok pr'"
  using assms by (simp add: locals_ok_def)

lemma process_ok_table:
  assumes "process_ok pr" "routing_ok pr'" "same_table pr pr'" "pr_local pr' = pr_local pr"
  shows "process_ok pr'"
  using assms same_table_sites [OF assms(3)] same_table_serves [OF assms(3)]
  by (auto simp: process_ok_def locals_ok_def)

lemma process_ok_system [simp]: "process_ok pr \<Longrightarrow> process_ok (pr\<lparr>pr_system := k\<rparr>)"
  by (rule process_ok_table) (auto simp: process_ok_def)

lemma install_replacement_ok:
  assumes ok: "process_ok pr" and i: "install_replacement H t source dispatcher target pr = (r, pr')"
  shows "process_ok pr' \<and> (\<forall>t'. t' \<noteq> t \<longrightarrow> pr_local pr' t' = pr_local pr t') \<and>
    (r \<noteq> Ok () \<longrightarrow> pr_local pr' t = pr_local pr t) \<and>
    (r = Ok () \<longrightarrow> (\<exists>d. serves pr' source d \<and> pr_local pr' t = pr_local pr t @
       [\<lparr>lc_source = source, lc_dispatcher = d, lc_target = target\<rparr>]))"
proof -
  have rok: "routing_ok pr" using ok by (simp add: process_ok_def)
  from install_replacement_cases [OF i rok] show ?thesis
  proof (elim disjE exE conjE)
    fix k
    assume "pr' = pr\<lparr>pr_system := k\<rparr>" "r \<noteq> Ok ()"
    with ok show ?thesis by simp
  next
    fix k r1 pr1
    let ?pr = "pr\<lparr>pr_system := k\<rparr>"
    assume o: "obtain_entry H source dispatcher ?pr = (r1, pr1)"
      and new: "\<forall>route\<in>set (pr_local pr t). lc_source route \<noteq> source"
      and free: "\<forall>rc\<in>set (pr_records pr). \<not> refuses (pr_heap pr) source dispatcher target rc"
    have f: "free_site ?pr source dispatcher"
      using free by (auto simp: free_site_def refuses_def record_source_def Let_def)
    have okk: "routing_ok ?pr" "sites_ok ?pr" "locals_ok ?pr"
      using process_ok_system [OF ok, of k] by (simp_all add: process_ok_def)
    note l1 = obtain_entry_ok [OF okk(1) o] and l2 = obtain_entry_sites [OF okk(1,2) f o]
    have lok: "locals_ok pr1"
    proof (rule locals_ok_mono [OF okk(3)])
      show "pr_local pr1 = pr_local ?pr" using l1 by blast
    qed (use l2 in blast)
    { assume "r \<noteq> Ok ()" "pr' = pr1"
      with l1 l2 lok show ?thesis by (auto simp: process_ok_def) }
    { fix p
      assume r: "r = Ok ()" "r1 = Ok p"
        and pr': "pr' = pr1\<lparr>pr_local := (pr_local pr1)(t := pr_local pr1 t @
           [\<lparr>lc_source = source, lc_dispatcher = en_dispatcher (pr_heap pr1 ! p), lc_target = target\<rparr>])\<rparr>"
      have sv: "serves pr' s d = serves pr1 s d" for s d
        unfolding pr' by (rule same_table_serves) simp
      have "sites_ok pr'" unfolding pr' using l2 same_table_sites [OF same_table_local] by blast
      moreover have "locals_ok pr'"
        using lok l1 l2 r new unfolding locals_ok_def sv by (auto simp: pr')
      moreover have "routing_ok pr'" using l1 by (simp add: pr')
      moreover have "serves pr' source (en_dispatcher (pr_heap pr1 ! p))" using l2 r sv by simp
      ultimately show ?thesis using r l1 by (auto simp: process_ok_def pr') }
  qed
qed

lemma remove_route_ok:
  assumes "process_ok pr"
  shows "process_ok (remove_route t source pr)"
proof -
  have "serves (remove_route t source pr) s d = serves pr s d" for s d
    unfolding remove_route_def by (rule same_table_serves) simp
  moreover have "sites_ok (remove_route t source pr)"
    unfolding remove_route_def using assms same_table_sites [OF same_table_local] by (auto simp: process_ok_def)
  ultimately show ?thesis
    using assms by (auto simp: process_ok_def locals_ok_def remove_route_def distinct_map inj_on_def)
qed

lemma set_global_ok:
  assumes "process_ok pr"
  shows "process_ok (set_global p target pr)"
proof (rule process_ok_table [OF assms])
  have ok: "routing_ok pr" using assms by (simp add: process_ok_def)
  have l: "list_ok (pr_heap pr) (pr_head pr)" using ok by (simp add: routing_ok_def)
  let ?pr = "set_global p target pr"
  have len: "length (pr_heap ?pr) = length (pr_heap pr)" "pr_head ?pr = pr_head pr"
    "pr_records ?pr = pr_records pr" "pr_local ?pr = pr_local pr" by (simp_all add: set_global_def)
  have nth: "en_next (pr_heap ?pr ! i) = en_next (pr_heap pr ! i) \<and> en_patch (pr_heap ?pr ! i) = en_patch (pr_heap pr ! i)"
    if "i < length (pr_heap pr)" for i
    using that by (cases "i = p") (simp_all add: set_global_def)
  have "list_ok (pr_heap ?pr) (pr_head ?pr)" using l nth unfolding list_ok_def len by simp
  moreover have "chain (pr_heap ?pr) (pr_head ?pr) = chain (pr_heap pr) (pr_head pr)"
    unfolding len(2) by (rule chain_cong) (use chain_in_heap [OF l] nth in blast)
  moreover have "pr_patches ?pr = pr_patches pr"
    using record_in_heap [OF ok] nth by (simp add: pr_patches_def record_patch_def len(3))
  ultimately show "routing_ok ?pr" using ok by (simp add: routing_ok_def len(3))
  show "same_table pr ?pr" using ok by (rule same_table_global)
  show "pr_local ?pr = pr_local pr" by (rule len(4))
qed

lemma global_route_cases:
  assumes "global_route H source target pr = (r, pr')"
  shows "(r \<noteq> Ok True \<and> (pr' = pr \<or> (\<exists>k. pr' = pr\<lparr>pr_system := k\<rparr>))) \<or>
    (\<exists>k rc. r = Ok True \<and> rc \<in> set (pr_records pr) \<and> record_source pr rc = source \<and>
       en_global (pr_heap pr ! rc_entry rc) = 0 \<and> pr' = set_global (rc_entry rc) target (pr\<lparr>pr_system := k\<rparr>))"
proof (cases "List.find (\<lambda>rc. pt_entry (record_patch (pr_heap pr) rc) = source) (pr_records pr)")
  case None
  with assms show ?thesis by (auto simp: global_route_def split: if_splits)
next
  case (Some rc)
  obtain r1 k1 where q: "memory_read (h_memory H) target 1 (pr_system pr) = (r1, k1)"
    by (cases "memory_read (h_memory H) target 1 (pr_system pr)")
  show ?thesis
    using assms Some q find_serves [OF Some]
    by (cases r1) (auto simp: global_route_def in_system_def split: if_splits)
qed

lemma global_route_ok:
  assumes "process_ok pr" "global_route H source target pr = (r, pr')"
  shows "process_ok pr' \<and> pr_local pr' = pr_local pr"
  using global_route_cases [OF assms(2)]
proof (elim disjE exE conjE)
  fix k rc
  assume "pr' = set_global (rc_entry rc) target (pr\<lparr>pr_system := k\<rparr>)"
  with set_global_ok [OF process_ok_system [OF assms(1), of k]] show ?thesis by (simp add: set_global_def)
qed (use assms(1) in auto)

lemma remove_global_ok:
  assumes "process_ok pr" "remove_global source pr = (r, pr')"
  shows "process_ok pr' \<and> pr_local pr' = pr_local pr"
  using assms set_global_ok [OF assms(1)]
  by (auto simp: remove_global_def set_global_def split: option.splits)

section \<open>Runs of a process\<close>

text \<open>
  Any thread may install, remove or look up routes at any time, and the rest of the program may
  change the system's state between two steps.
\<close>

inductive routing_step :: "'k host \<Rightarrow> 'k process \<Rightarrow> 'k process \<Rightarrow> bool" for H where
  Install: "install_replacement H t source dispatcher target pr = (r, pr') \<Longrightarrow> routing_step H pr pr'"
| Remove: "routing_step H pr (remove_route t source pr)"
| Global: "global_route H source target pr = (rb, pr') \<Longrightarrow> routing_step H pr pr'"
| Unset: "remove_global source pr = (r, pr') \<Longrightarrow> routing_step H pr pr'"
| System: "routing_step H pr (pr\<lparr>pr_system := k\<rparr>)"

inductive_cases routing_stepE: "routing_step H pr pr'"

definition fresh_process :: "'k \<Rightarrow> 'k process" where
  "fresh_process k = \<lparr>pr_system = k, pr_heap = [], pr_records = [], pr_head = None, pr_local = (\<lambda>_. [])\<rparr>"

definition running :: "'k host \<Rightarrow> 'k process \<Rightarrow> bool" where
  "running H pr \<longleftrightarrow> (\<exists>k. (routing_step H)\<^sup>*\<^sup>* (fresh_process k) pr)"

lemma fresh_process_ok: "process_ok (fresh_process k)"
  by (simp add: process_ok_def routing_ok_def list_ok_def sites_ok_def locals_ok_def fresh_process_def
      pr_patches_def)

lemma routing_step_ok: "routing_step H pr pr' \<Longrightarrow> process_ok pr \<Longrightarrow> process_ok pr'"
  by (erule routing_stepE)
    (auto dest: install_replacement_ok global_route_ok remove_global_ok intro: remove_route_ok)

lemma running_ok: "running H pr \<Longrightarrow> process_ok pr"
proof -
  assume "running H pr"
  then obtain k where "(routing_step H)\<^sup>*\<^sup>* (fresh_process k) pr" by (auto simp: running_def)
  then show ?thesis by (induction rule: rtranclp_induct) (auto intro: fresh_process_ok routing_step_ok)
qed

text \<open>A look-up answers from the local routes, else from the first published entry.\<close>

lemma route_eq:
  assumes "process_ok pr"
  shows "route H t dispatcher pr =
    (case local_target t dispatcher pr of
       Some target \<Rightarrow> if target \<noteq> dispatcher then (Ok (Some target), pr)
         else (case fallback_entry dispatcher pr of None \<Rightarrow> (Ok None, pr) | Some en \<Rightarrow> in_system (entry_target H en) pr)
     | None \<Rightarrow> (case fallback_entry dispatcher pr of None \<Rightarrow> (Ok None, pr) | Some en \<Rightarrow> in_system (entry_target H en) pr))"
  using assms fallback_eq [of pr H dispatcher]
  by (simp add: route_def process_ok_def routing_ok_def split: option.splits)

section \<open>An installation, run\<close>

text \<open>
  The simulated Linux process of theory \<open>Linux_Simulation\<close>, with one page to give away: the
  function at 4096 is given the dispatcher at 8192 and the replacement at 12288.
\<close>

definition sample_code :: memory where
  "sample_code = write_bytes (\<lambda>_. 0) 4096 [0x55, 0x48, 0x89, 0xe5, 0x5d, 0xc3]"

definition sample_process :: "sim process" where
  "sample_process = fresh_process (sample_state sample_code)"

lemma sample_running: "running H (fresh_process k)"
  by (auto simp: running_def)

lemma sample_memory_read:
  assumes "1 \<le> i" "i < 15" "offset + n \<le> 4096" "0 < n"
  shows "memory_read (linux_platform sim_kernel) (i * 4096 + offset) n (sample_state bytes) =
    (Ok (fetch bytes (i * 4096 + offset) n), sample_state bytes)"
proof -
  have "rg_end (mapping_region (sim_mapping (sample_state bytes) i)) = Suc i * 4096"
    by (simp add: mapping_region_def sim_mapping_def)
  moreover have "min (4096 - offset) n = n" using assms(3) by simp
  ultimately show ?thesis
    using sample_regions [OF assms, of bytes] assms
    by (simp add: memory_read_def usize_sub_def sim_calls) (simp add: sample_state_def)
qed

lemma sample_prefix_bytes:
  "fetch sample_code 4096 32 = [0x55, 0x48, 0x89, 0xe5, 0x5d, 0xc3, 0, 0, 0, 0, 0, 0, 0, 0, 0, 0,
     0, 0, 0, 0, 0, 0, 0, 0, 0, 0, 0, 0, 0, 0, 0, 0]"
  by (simp add: fetch_def sample_code_def write_bytes_def upt_rec)

definition sample_bytes :: "u8 list" where
  "sample_bytes = [0x55, 0x48, 0x89, 0xe5, 0x5d, 0xc3, 0, 0, 0, 0, 0, 0, 0, 0, 0, 0,
     0, 0, 0, 0, 0, 0, 0, 0, 0, 0, 0, 0, 0, 0, 0, 0]"

definition sample_route_plan :: plan where
  "sample_route_plan = \<lparr>plan_offset = 0, plan_original = [0x55, 0x48, 0x89, 0xe5, 0x5d],
     plan_replacement = [0xe9, 0xfb, 0x71, 0, 0]\<rparr>"

lemma sample_insns:
  "instruction_size sample_bytes = Ok (1, False)"
  "instruction_size (drop 1 sample_bytes) = Ok (3, False)"
  "instruction_size (drop 4 sample_bytes) = Ok (1, False)"
  by code_simp+

lemma sample_route_plan_computed: "plan 4096 33280 sample_bytes = Ok sample_route_plan"
proof -
  have "jump 4096 33280 = Ok [0xe9, 0xfb, 0x71, 0, 0]"
    by (simp add: jump_def checked_add_def usize_defs i32_try_from_def i32_to_le_def le_bytes_numeral)
  moreover have "plan_length sample_bytes (length [0xe9 :: u8, 0xfb, 0x71, 0, 0]) 0 = Ok 5"
    using sample_insns by (simp add: plan_length.simps slice_from_def sample_bytes_def)
  moreover have "\<not> starts_with sample_bytes ENDBR64" by (simp add: starts_with_def sample_bytes_def ENDBR64_def)
  moreover have "slice_from sample_bytes 0 = Ok sample_bytes" "slice_to sample_bytes 5 = Ok [0x55, 0x48, 0x89, 0xe5, 0x5d]"
    by (simp_all add: slice_from_def slice_to_def sample_bytes_def)
  ultimately show ?thesis
    by (simp add: plan_def Let_def checked_add_def usize_defs sample_route_plan_def)
qed

lemma sample_saved_decodes:
  "decode [0x55, 0x48, 0x89, 0xe5, 0x5d] = Ok \<lparr>ins_size = 1, ins_terminal = False,
     ins_relative_memory = None, ins_cannot_move = False, ins_branch = None, ins_call = None\<rparr>"
  "decode [0x48, 0x89, 0xe5, 0x5d] = Ok \<lparr>ins_size = 3, ins_terminal = False,
     ins_relative_memory = None, ins_cannot_move = False, ins_branch = None, ins_call = None\<rparr>"
  "decode [0x5d] = Ok \<lparr>ins_size = 1, ins_terminal = False,
     ins_relative_memory = None, ins_cannot_move = False, ins_branch = None, ins_call = None\<rparr>"
  by code_simp+

lemma sample_saved:
  "trampoline 4096 32768 [0x55, 0x48, 0x89, 0xe5, 0x5d] = Ok [0xf3, 0x0f, 0x1e, 0xfa,
     0x55, 0x48, 0x89, 0xe5, 0x5d, 0xe9, 0xf7, 0x8f, 0xff, 0xff]"
  by (simp add: trampoline_def trampoline_loop.simps
      trampoline_step_def slice_defs sample_saved_decodes Let_def copy_instruction_def relocate_memory_def
      push_return_def checked_add_def usize_defs i32_try_from_def i32_to_le_def le_bytes_numeral
      ENDBR64_def)

lemma sample_no_bridge: "needs_call_bridge [0x55, 0x48, 0x89, 0xe5, 0x5d] = Ok False"
  by (simp add: needs_call_bridge_def call_bridge_loop.simps slice_from_def sample_saved_decodes)

definition sample_page_bytes :: "u8 list" where
  "sample_page_bytes = resize 512 0xcc [0xf3, 0x0f, 0x1e, 0xfa, 0x55, 0x48, 0x89, 0xe5, 0x5d,
     0xe9, 0xf7, 0x8f, 0xff, 0xff] @ [0xe9, 0xfb, 0x9d, 0xff, 0xff]"

definition sample_entry_made :: entry where
  "sample_entry_made = \<lparr>en_patch = \<lparr>pt_entry = 4096, pt_address = 4096,
       pt_original = [0x55, 0x48, 0x89, 0xe5, 0x5d], pt_replacement = [0xe9, 0xfb, 0x71, 0, 0], pt_relay = None\<rparr>,
     en_dispatcher = 8192, en_original = \<lparr>ex_address = 32768, ex_sealed = True\<rparr>,
     en_call_bridge = False, en_global = 0, en_next = None\<rparr>"

definition sample_published :: memory where
  "sample_published = write_bytes sample_code 32768 sample_page_bytes"

lemma sample_tail: "jump 33280 8192 = Ok [0xe9, 0xfb, 0x9d, 0xff, 0xff]"
  by (simp add: jump_def checked_add_def usize_defs i32_try_from_def i32_to_le_def le_bytes_numeral)

lemma sample_publish:
  "publish (h_pages sim_host) sample_page_bytes \<lparr>ex_address = 32768, ex_sealed = False\<rparr> (sample_state sample_code) =
   ((Ok (), \<lparr>ex_address = 32768, ex_sealed = True\<rparr>), sample_state sample_published)"
proof -
  have "sample_page_bytes \<noteq> []" "length sample_page_bytes = 517"
    by (simp_all add: sample_page_bytes_def resize_def)
  then show ?thesis
    by (simp add: publish_def sim_copy_def CAPACITY_def sample_state_def sample_published_def)
qed

lemma sample_prepare:
  "prepare_entry sim_host [] 4096 8192 (sample_state sample_code) =
   (Ok sample_entry_made, sample_state sample_published)"
proof -
  have r: "memory_read (linux_platform sim_kernel) 4096 MAX_PREFIX (sample_state sample_code) =
      (Ok sample_bytes, sample_state sample_code)"
    using sample_memory_read [of 1 0 32 sample_code] sample_prefix_bytes
    by (simp add: MAX_PREFIX_def sample_bytes_def)
  have "fill_page sim_host [] 4096 8192 sample_bytes \<lparr>ex_address = 32768, ex_sealed = False\<rparr> (sample_state sample_code) =
      (Ok sample_entry_made, sample_state sample_published)"
    using sample_publish
    by (simp add: fill_page_def Let_def sample_route_plan_computed sample_route_plan_def checked_add_def
        usize_defs sample_saved sample_no_bridge sample_tail sample_page_bytes_def [symmetric] sample_entry_made_def)
  with r sim_near [of "h_pages sim_host"] show ?thesis by (simp add: prepare_entry_def dropping_def)
qed

definition sample_patched :: "sim process" where
  "sample_patched = \<lparr>pr_system = sample_state (write_bytes sample_published 4096 [0xe9, 0xfb, 0x71, 0, 0]),
     pr_heap = [sample_entry_made], pr_records = [\<lparr>rc_entry = 0, rc_sites = [8192]\<rparr>],
     pr_head = Some 0,
     pr_local = (\<lambda>_. [])(0 := [\<lparr>lc_source = 4096, lc_dispatcher = 8192, lc_target = 12288\<rparr>])\<rparr>"

lemma sample_write:
  "memory_write (linux_platform sim_kernel) 4096 [0x55, 0x48, 0x89, 0xe5, 0x5d] [0xe9, 0xfb, 0x71, 0, 0]
     (sample_state sample_published) =
   (Ok (), sample_state (write_bytes sample_published 4096 [0xe9, 0xfb, 0x71, 0, 0]))"
proof -
  have "length sample_page_bytes = 517" by (simp add: sample_page_bytes_def resize_def)
  then have "sample_published (4096 + j) = sample_code (4096 + j)" if "j < 5" for j
    using that by (simp add: sample_published_def write_bytes_def)
  then have "fetch sample_published 4096 5 = fetch sample_code 4096 5" by (simp add: fetch_def)
  also have "\<dots> = [0x55, 0x48, 0x89, 0xe5, 0x5d]"
    by (simp add: fetch_def sample_code_def write_bytes_def upt_rec)
  finally show ?thesis
    using sample_replace [of 1 0 "[0x55, 0x48, 0x89, 0xe5, 0x5d]" "[0xe9, 0xfb, 0x71, 0, 0]" sample_published]
    by (simp add: memory_write_def fetch_def upt_rec)
qed

lemma sample_install:
  "install_replacement sim_host 0 4096 8192 12288 sample_process = (Ok (), sample_patched)"
proof -
  have "memory_read (linux_platform sim_kernel) 12288 1 (sample_state sample_code) =
      (Ok (fetch sample_code 12288 1), sample_state sample_code)"
    "memory_read (linux_platform sim_kernel) 8192 1 (sample_state sample_code) =
      (Ok (fetch sample_code 8192 1), sample_state sample_code)"
    using sample_memory_read [of 3 0 1 sample_code] sample_memory_read [of 2 0 1 sample_code] by simp_all
  with sample_prepare sample_write show ?thesis
    by (simp add: install_replacement_def sample_process_def fresh_process_def in_system_def
        new_route_def publish_entry_def write_entry_def sample_entry_made_def sample_patched_def Let_def)
qed

lemma sample_patched_running: "running sim_host sample_patched"
  unfolding running_def sample_process_def
  by (rule exI [of _ "sample_state sample_code"])
    (rule r_into_rtranclp [of "routing_step sim_host"], rule routing_step.Install,
      rule sample_install [unfolded sample_process_def])

section \<open>Properties\<close>

text \<open>
  C1: In every reachable state of the process the lock-free list of entries ends and has no
  dangling pointer, every record of the table is found in it, no two records patch the same
  function or overlapping bytes, no dispatcher serves two functions, and the routes of each thread
  are for different functions and name the dispatcher of their record.
\<close>

theorem routing_invariant:
  assumes "running H pr"
  shows "routing_ok pr \<and> sites_ok pr \<and> locals_ok pr"
  using running_ok [OF assms] by (simp add: process_ok_def)

theorem routing_invariant_witness:
  "routing_ok sample_patched \<and> sites_ok sample_patched \<and> locals_ok sample_patched"
  using routing_invariant [OF sample_patched_running] .



text \<open>
  C14: Local mocks are local. Installing a replacement for one thread, whether it succeeds or not,
  leaves the routes of every other thread as they are. When it succeeds the calling thread's
  look-up at the dispatcher of the function answers with the replacement, and removing it again
  gives the calling thread exactly the routes it had before.
\<close>

theorem install_is_local:
  assumes "running H pr" "install_replacement H t source dispatcher target pr = (r, pr')"
  shows "(\<forall>t' d. t' \<noteq> t \<longrightarrow> local_target t' d pr' = local_target t' d pr) \<and>
    (r \<noteq> Ok () \<longrightarrow> pr_local pr' = pr_local pr) \<and>
    (r = Ok () \<longrightarrow>
       (\<exists>d. serves pr' source d \<and> local_target t d pr' = Some target) \<and>
       pr_local (remove_route t source pr') = pr_local pr)"
proof -
  note law = install_replacement_ok [OF running_ok [OF assms(1)] assms(2)]
  have "pr_local pr' = pr_local pr" if "r \<noteq> Ok ()"
    using law that by (auto simp: fun_eq_iff)
  moreover have "local_target t' d pr' = local_target t' d pr" if "t' \<noteq> t" for t' d
    using law that by (simp add: local_target_def)
  moreover have "(\<exists>d. serves pr' source d \<and> local_target t d pr' = Some target) \<and>
      pr_local (remove_route t source pr') = pr_local pr" if r: "r = Ok ()"
  proof
    from law r obtain d where d: "serves pr' source d" "pr_local pr' t = pr_local pr t @
       [\<lparr>lc_source = source, lc_dispatcher = d, lc_target = target\<rparr>]" by blast
    have ok: "process_ok pr'" using law by blast
    have "local_target t d pr' = Some target"
      using local_target_route [of pr' "\<lparr>lc_source = source, lc_dispatcher = d, lc_target = target\<rparr>" t] ok d
      by (simp add: process_ok_def)
    with d show "\<exists>d. serves pr' source d \<and> local_target t d pr' = Some target" by blast
    have "distinct (map lc_source (pr_local pr' t))" using ok by (simp add: process_ok_def locals_ok_def)
    then have "filter (\<lambda>lr. lc_source lr \<noteq> source) (pr_local pr' t) = pr_local pr t"
      unfolding d by (auto simp: filter_id_conv)
    with law show "pr_local (remove_route t source pr') = pr_local pr"
      by (auto simp: remove_route_def fun_eq_iff)
  qed
  ultimately show ?thesis by blast
qed

theorem install_is_local_witness:
  "install_replacement sim_host 0 4096 8192 12288 sample_process = (Ok (), sample_patched) \<and>
   (\<exists>d. serves sample_patched 4096 d \<and> local_target 0 d sample_patched = Some 12288) \<and>
   pr_local (remove_route 0 4096 sample_patched) = pr_local sample_process"
proof -
  have "running sim_host sample_process" unfolding sample_process_def by (rule sample_running)
  from install_is_local [OF this sample_install] sample_install show ?thesis by simp
qed



text \<open>
  C23: A failed installation leaves nothing behind that a call can reach: the list starts where it
  did before, so every look-up that falls back finds the entry it found before.
\<close>

theorem failed_install_unreachable:
  assumes "running H pr" "new_route H source dispatcher pr = (Err e, pr')"
  shows "pr_records pr' = pr_records pr \<and> pr_local pr' = pr_local pr \<and>
    (\<forall>d. fallback_entry d pr' = fallback_entry d pr)"
proof -
  have ok: "routing_ok pr" "list_ok (pr_heap pr) (pr_head pr)"
    using running_ok [OF assms(1)] by (simp_all add: process_ok_def routing_ok_def)
  have same: "fallback_entry d (pr\<lparr>pr_heap := pr_heap pr @ xs, pr_system := k\<rparr>) = fallback_entry d pr" for d xs k
  proof -
    have "List.find (\<lambda>p. en_dispatcher ((pr_heap pr @ xs) ! p) = d) (chain (pr_heap pr) (pr_head pr)) =
        List.find (\<lambda>p. en_dispatcher (pr_heap pr ! p) = d) (chain (pr_heap pr) (pr_head pr))"
      using chain_in_heap [OF ok(2)] by (intro find_cong) (auto simp: nth_append)
    moreover have "(pr_heap pr @ xs) ! p = pr_heap pr ! p"
      if "List.find (\<lambda>p. en_dispatcher (pr_heap pr ! p) = d) (chain (pr_heap pr) (pr_head pr)) = Some p" for p
      using that chain_in_heap [OF ok(2), of p] by (auto simp: find_Some_iff nth_append)
    ultimately show ?thesis
      using chain_append [OF ok(2)] by (auto simp: fallback_entry_def map_option_case split: option.splits)
  qed
  from assms(2) show ?thesis
  proof (cases rule: new_route_cases)
    case (Unpublished k)
    then show ?thesis by (simp add: fallback_entry_def)
  next
    case (Failed en k e')
    then have "pr' = pr\<lparr>pr_heap := pr_heap pr @ [en\<lparr>en_next := pr_head pr\<rparr>], pr_system := k\<rparr>"
      by (simp add: publish_entry_def)
    with same show ?thesis by simp
  qed simp_all
qed

theorem failed_install_unreachable_witness:
  "\<exists>pr'. new_route sim_host 0 8192 sample_patched = (Err InvalidAddress, pr') \<and>
     fallback_entry 8192 pr' = Some sample_entry_made"
proof -
  have c: "chain [sample_entry_made] (Some 0) = [0]" by (simp add: chain.simps(2) sample_entry_made_def)
  obtain pr' where run: "new_route sim_host 0 8192 sample_patched = (Err InvalidAddress, pr')"
    by (simp add: new_route_def in_system_def prepare_entry_def memory_read_def executable_regions_def checked_end_def)
  from failed_install_unreachable [OF sample_patched_running run] have
    "fallback_entry 8192 pr' = fallback_entry 8192 sample_patched" by blast
  also have "\<dots> = Some sample_entry_made"
    using c by (simp add: fallback_entry_def sample_patched_def) (simp add: sample_entry_made_def)
  finally show ?thesis using run by blast
qed

end
