(* ===== verification/Session_Lock.thy ===== *)
theory Session_Lock
  imports Errors
begin

text \<open>
  Who may open a session (src/lib.rs: \<^verbatim>\<open>SESSION\<close>, \<^verbatim>\<open>SESSION_ACTIVE\<close>, \<^verbatim>\<open>SessionLock\<close>,
  \<^verbatim>\<open>Session::open\<close>). A global session holds the write side of a process-wide \<^verbatim>\<open>RwLock\<close>, a local
  one the read side, and a thread-local flag keeps a thread from opening a second session, which
  would wait for itself.

  \<open>rwlock\<close> is the documented behaviour of \<^verbatim>\<open>std::sync::RwLock\<close> as far as the code uses it: one
  writer or any number of readers, and a flag for a writer that unwound. A call that has to wait
  is \<open>Diverges\<close> in the state in which it waits; it is retried when another thread has moved on.
  \<^verbatim>\<open>try_read\<close> may also give up when threads are queued for the lock, which is the argument
  \<open>queued\<close>.
\<close>

section \<open>The lock\<close>

record rwlock =
  rw_writer :: "thread option"
  rw_readers :: "thread list"
  rw_poisoned :: bool

datatype lock_attempt = Acquired | Poisoned | WouldBlock

definition acquired :: "rwlock \<Rightarrow> lock_attempt" where
  "acquired rw = (if rw_poisoned rw then Poisoned else Acquired)"

definition try_read :: "bool \<Rightarrow> thread \<Rightarrow> rwlock \<Rightarrow> lock_attempt \<times> rwlock" where
  "try_read queued t rw =
     (if rw_writer rw \<noteq> None \<or> queued then (WouldBlock, rw)
      else (acquired rw, rw\<lparr>rw_readers := t # rw_readers rw\<rparr>))"

definition try_write :: "thread \<Rightarrow> rwlock \<Rightarrow> lock_attempt \<times> rwlock" where
  "try_write t rw =
     (if rw_writer rw \<noteq> None \<or> rw_readers rw \<noteq> [] then (WouldBlock, rw)
      else (acquired rw, rw\<lparr>rw_writer := Some t\<rparr>))"

text \<open>A dropped write guard poisons the lock when its thread began to unwind while it held it.\<close>

definition drop_read :: "thread \<Rightarrow> rwlock \<Rightarrow> rwlock" where
  "drop_read t rw = rw\<lparr>rw_readers := remove1 t (rw_readers rw)\<rparr>"

definition drop_write :: "bool \<Rightarrow> rwlock \<Rightarrow> rwlock" where
  "drop_write unwinding rw = rw\<lparr>rw_writer := None, rw_poisoned := (rw_poisoned rw \<or> unwinding)\<rparr>"

section \<open>Opening and leaving a session\<close>

datatype session_lock = GlobalLock | LocalLock

record lock_state =
  lk_session :: rwlock
  lk_active :: "thread \<Rightarrow> bool"

text \<open>
  \<^verbatim>\<open>Session::open\<close> up to the record it builds. A poisoned lock is entered all the same. The
  blocking \<^verbatim>\<open>read\<close> and \<^verbatim>\<open>write\<close> never report \<^verbatim>\<open>WouldBlock\<close>: they wait.
\<close>

definition open_lock :: "bool \<Rightarrow> bool \<Rightarrow> bool \<Rightarrow> thread \<Rightarrow> (session_lock, lock_state) call" where
  "open_lock local wait queued t lk =
     (if lk_active lk t then (Err Busy, lk)
      else
        let (attempt, rw) =
              (if local then try_read (queued \<and> \<not> wait) t (lk_session lk)
               else try_write t (lk_session lk))
        in case attempt of
             WouldBlock \<Rightarrow> (if wait then Diverges else Err Busy, lk)
           | _ \<Rightarrow> (Ok (if local then LocalLock else GlobalLock),
                   lk\<lparr>lk_session := rw, lk_active := (lk_active lk)(t := True)\<rparr>))"

definition new_global :: "thread \<Rightarrow> (session_lock, lock_state) call" where
  "new_global t lk = (case open_lock False True False t lk of (r, lk') \<Rightarrow> (check r, lk'))"

definition new_local :: "thread \<Rightarrow> (session_lock, lock_state) call" where
  "new_local t lk = (case open_lock True True False t lk of (r, lk') \<Rightarrow> (check r, lk'))"

definition try_new_local :: "bool \<Rightarrow> thread \<Rightarrow> (session_lock, lock_state) call" where
  "try_new_local queued = open_lock True False queued"

definition try_new_global :: "thread \<Rightarrow> (session_lock, lock_state) call" where
  "try_new_global = open_lock False False False"

text \<open>
  Dropping a \<^verbatim>\<open>SessionLock\<close> clears the flag of the thread and then drops the guard.
\<close>

definition drop_lock :: "session_lock \<Rightarrow> bool \<Rightarrow> thread \<Rightarrow> lock_state \<Rightarrow> lock_state" where
  "drop_lock lock unwinding t lk =
     lk\<lparr>lk_active := (lk_active lk)(t := False),
        lk_session := (case lock of
           GlobalLock \<Rightarrow> drop_write unwinding (lk_session lk)
         | LocalLock \<Rightarrow> drop_read t (lk_session lk))\<rparr>"

section \<open>The threads of the process\<close>

text \<open>
  Every thread may try to open a session or drop the one it holds, in any order. \<open>held\<close> says
  which session each thread has on its stack; it is not a variable of the program, and nothing in
  \<open>Opened\<close> asks for it.
\<close>

type_synonym sessions = "lock_state \<times> (thread \<Rightarrow> session_lock option)"

definition no_sessions :: sessions where
  "no_sessions = (\<lparr>lk_session = \<lparr>rw_writer = None, rw_readers = [], rw_poisoned = False\<rparr>,
                    lk_active = (\<lambda>_. False)\<rparr>, \<lambda>_. None)"

inductive session_step :: "sessions \<Rightarrow> sessions \<Rightarrow> bool" where
  Opened: "open_lock local wait queued t lk = (Ok lock, lk') \<Longrightarrow>
     session_step (lk, held) (lk', held(t := Some lock))"
| Refused: "open_lock local wait queued t lk = (Err e, lk') \<Longrightarrow> session_step (lk, held) (lk', held)"
| Dropped: "held t = Some lock \<Longrightarrow>
     session_step (lk, held) (drop_lock lock unwinding t lk, held(t := None))"

inductive_cases session_stepE: "session_step s s'"

definition locks_ok :: "sessions \<Rightarrow> bool" where
  "locks_ok s \<longleftrightarrow>
     (case s of (lk, held) \<Rightarrow>
        (\<forall>t. lk_active lk t \<longleftrightarrow> held t \<noteq> None) \<and>
        (\<forall>t. rw_writer (lk_session lk) = Some t \<longleftrightarrow> held t = Some GlobalLock) \<and>
        distinct (rw_readers (lk_session lk)) \<and>
        set (rw_readers (lk_session lk)) = {t. held t = Some LocalLock} \<and>
        (rw_writer (lk_session lk) \<noteq> None \<longrightarrow> rw_readers (lk_session lk) = []))"

lemma locks_ok_initial: "locks_ok no_sessions"
  by (simp add: locks_ok_def no_sessions_def)

lemma open_lock_Ok:
  "open_lock local wait queued t lk = (Ok lock, lk') \<longleftrightarrow>
     \<not> lk_active lk t \<and> rw_writer (lk_session lk) = None \<and>
     (if local then lock = LocalLock \<and> (queued \<longrightarrow> wait) \<and>
        lk' = lk\<lparr>lk_session := (lk_session lk)\<lparr>rw_readers := t # rw_readers (lk_session lk)\<rparr>,
                 lk_active := (lk_active lk)(t := True)\<rparr>
      else lock = GlobalLock \<and> rw_readers (lk_session lk) = [] \<and>
        lk' = lk\<lparr>lk_session := (lk_session lk)\<lparr>rw_writer := Some t\<rparr>,
                 lk_active := (lk_active lk)(t := True)\<rparr>)"
  by (auto simp: open_lock_def try_read_def try_write_def acquired_def split: if_splits)

lemma open_lock_keeps:
  "open_lock local wait queued t lk = (r, lk') \<Longrightarrow> (\<And>lock. r \<noteq> Ok lock) \<Longrightarrow> lk' = lk"
  by (auto simp: open_lock_def try_read_def try_write_def acquired_def split: if_splits)

lemma locks_ok_open:
  assumes "locks_ok (lk, held)" "open_lock local wait queued t lk = (Ok lock, lk')"
  shows "locks_ok (lk', held(t := Some lock)) \<and> held t = None"
proof -
  note ok = assms(1) [unfolded locks_ok_def prod.case]
  from assms(2) have o: "\<not> lk_active lk t" "rw_writer (lk_session lk) = None"
    by (auto simp: open_lock_Ok)
  with ok have free: "held t = None" "t \<notin> set (rw_readers (lk_session lk))" by auto
  from assms(2) o free ok show ?thesis
    by (cases local) (auto simp: open_lock_Ok locks_ok_def)
qed

lemma locks_ok_drop:
  assumes "locks_ok (lk, held)" "held t = Some lock"
  shows "locks_ok (drop_lock lock unwinding t lk, held(t := None))"
proof (cases lock)
  case GlobalLock
  with assms have "rw_readers (lk_session lk) = []" "rw_writer (lk_session lk) = Some t"
    by (auto simp: locks_ok_def)
  with GlobalLock assms show ?thesis
    by (auto simp: locks_ok_def drop_lock_def drop_write_def)
next
  case LocalLock
  with assms have "rw_writer (lk_session lk) = None" by (auto simp: locks_ok_def)
  with LocalLock assms show ?thesis
    by (auto simp: locks_ok_def drop_lock_def drop_read_def)
qed

lemma session_step_ok: "session_step s s' \<Longrightarrow> locks_ok s \<Longrightarrow> locks_ok s'"
  by (erule session_stepE) (auto dest: open_lock_keeps locks_ok_open intro: locks_ok_drop)

lemma locks_ok_reachable: "session_step\<^sup>*\<^sup>* no_sessions s \<Longrightarrow> locks_ok s"
  by (induction rule: rtranclp_induct) (auto intro: locks_ok_initial session_step_ok)

section \<open>What waiting threads wait for\<close>

text \<open>The sessions that keep thread \<open>t\<close> from opening one: all others, or the global one.\<close>

definition in_the_way :: "bool \<Rightarrow> thread \<Rightarrow> (thread \<Rightarrow> session_lock option) \<Rightarrow> thread set" where
  "in_the_way local t held =
     {t'. t' \<noteq> t \<and> (if local then held t' = Some GlobalLock else held t' \<noteq> None)}"

lemma held_cases: "x \<noteq> None \<longleftrightarrow> x = Some GlobalLock \<or> x = Some LocalLock"
  by (cases x rule: option.exhaust; cases "the x" rule: session_lock.exhaust) auto

lemma free_lock:
  assumes "locks_ok (lk, held)" "held t = None"
  shows "in_the_way local t held = {} \<longleftrightarrow>
    rw_writer (lk_session lk) = None \<and> (\<not> local \<longrightarrow> rw_readers (lk_session lk) = [])"
proof -
  have "held t' = None \<or> held t' = Some GlobalLock \<or> held t' = Some LocalLock" for t'
    using held_cases by auto
  moreover have "rw_readers (lk_session lk) = [] \<longleftrightarrow> (\<forall>t'. held t' \<noteq> Some LocalLock)"
    using assms(1) by (auto simp: locks_ok_def simp flip: set_empty)
  moreover have "rw_writer (lk_session lk) = None \<longleftrightarrow> (\<forall>t'. held t' \<noteq> Some GlobalLock)"
    using assms(1) by (cases "rw_writer (lk_session lk)") (auto simp: locks_ok_def)
  ultimately show ?thesis using assms(2) 
    by (cases local) (simp add: in_the_way_def, metis option.distinct(1))+
qed

lemma open_lock_outcome:
  assumes "locks_ok (lk, held)"
  shows "fst (open_lock local wait queued t lk) =
    (if held t \<noteq> None then Err Busy
     else if in_the_way local t held = {} \<and> (local \<and> queued \<longrightarrow> wait)
     then Ok (if local then LocalLock else GlobalLock)
     else if wait then Diverges else Err Busy)"
proof (cases "held t = None")
  case True
  with assms have "\<not> lk_active lk t" by (simp add: locks_ok_def)
  with True free_lock [OF assms True, of local] show ?thesis
    by (auto simp: open_lock_def try_read_def try_write_def acquired_def)
next
  case False
  with assms have "lk_active lk t" by (simp add: locks_ok_def)
  with False show ?thesis by (simp add: open_lock_def)
qed

lemma drop_sessions:
  assumes "finite ts" "locks_ok (lk, held)" "\<forall>t'\<in>ts. held t' \<noteq> None"
  shows "\<exists>lk'. session_step\<^sup>*\<^sup>* (lk, held) (lk', \<lambda>t'. if t' \<in> ts then None else held t')"
  using assms
proof (induction ts rule: finite_induct)
  case empty
  then show ?case by auto
next
  case (insert x ts)
  then obtain lk1 where run: "session_step\<^sup>*\<^sup>* (lk, held) (lk1, \<lambda>t'. if t' \<in> ts then None else held t')"
    by auto
  from insert obtain lock where "held x = Some lock" by auto
  with insert(2) have "session_step (lk1, \<lambda>t'. if t' \<in> ts then None else held t')
     (drop_lock lock False x lk1, (\<lambda>t'. if t' \<in> ts then None else held t')(x := None))"
    by (intro Dropped) auto
  moreover have "(\<lambda>t'. if t' \<in> ts then None else held t')(x := None) =
      (\<lambda>t'. if t' \<in> insert x ts then None else held t')" by auto
  ultimately have "session_step (lk1, \<lambda>t'. if t' \<in> ts then None else held t')
     (drop_lock lock False x lk1, \<lambda>t'. if t' \<in> insert x ts then None else held t')" by simp
  with run show ?case by (metis rtranclp.rtrancl_into_rtrancl)
qed

lemma finite_held:
  assumes "locks_ok (lk, held)"
  shows "finite {t. held t \<noteq> None}"
proof -
  have "{t. held t \<noteq> None} = {t. held t = Some GlobalLock} \<union> {t. held t = Some LocalLock}"
    using held_cases by (simp add: set_eq_iff del: not_None_eq)
  moreover have "finite {t. held t = Some LocalLock}"
    using assms List.finite_set [of "rw_readers (lk_session lk)"] by (simp add: locks_ok_def)
  moreover have "{t. held t = Some GlobalLock} \<subseteq> set_option (rw_writer (lk_session lk))"
    using assms by (auto simp: locks_ok_def)
  ultimately show ?thesis by (simp add: finite_subset)
qed

section \<open>Exclusion and progress\<close>


definition sample_locked :: sessions where
  "sample_locked = (\<lparr>lk_session = \<lparr>rw_writer = Some 3, rw_readers = [], rw_poisoned = False\<rparr>,
                      lk_active = (\<lambda>_. False)(3 := True)\<rparr>, (\<lambda>_. None)(3 := Some GlobalLock))"

lemma sample_locked_reachable: "session_step\<^sup>*\<^sup>* no_sessions sample_locked"
proof -
  have "session_step no_sessions sample_locked"
    unfolding no_sessions_def sample_locked_def
    by (rule Opened [of False True False]) (simp add: open_lock_Ok)
  then show ?thesis ..
qed






end
