(* ===== verification/Mock_Sites.thy ===== *)
theory Mock_Sites
  imports Errors
begin

text \<open>
  How a call finds the mock that answers it. Every use of \<^verbatim>\<open>mock!\<close> generates three statics (a
  thread-local slot, a global slot and a flag) with the code that fills, reads and empties them
  (macros/src/lib.rs, \<^verbatim>\<open>generate\<close>); async mocks share one table keyed by the address of the poll
  function (src/asynchronous.rs). Both keep the same contract, the locale \<open>mock_table\<close>: a thread
  sees its own mock, else the global one, and nothing else.

  A mock state is an identifier (its \<^verbatim>\<open>Arc\<close>); \<open>local\<close> says whether the session is a local one
  (\<^verbatim>\<open>__thread().is_some()\<close>), and \<open>t\<close> is the calling thread.
\<close>

type_synonym state_id = nat

section \<open>The slots of a generated mock\<close>

record slot =
  sl_local :: "thread \<Rightarrow> state_id option"
  sl_global :: "state_id option"
  sl_active :: bool

definition empty_slot :: slot where
  "empty_slot = \<lparr>sl_local = (\<lambda>_. None), sl_global = None, sl_active = False\<rparr>"

text \<open>The closure \<^verbatim>\<open>__shimforge_set\<close>, on the slot it is given.\<close>

definition set_slot :: "state_id \<Rightarrow> (unit, state_id option) call" where
  "set_slot s v =
     (if v \<noteq> None then (Err (Expectation ''mock site is already active''), v) else (Ok (), Some s))"

definition fill_slot :: "bool \<Rightarrow> thread \<Rightarrow> state_id \<Rightarrow> (unit, slot) call" where
  "fill_slot local t s sl =
     (if local
      then case set_slot s (sl_local sl t) of (r, v) \<Rightarrow> (r, sl\<lparr>sl_local := (sl_local sl)(t := v)\<rparr>)
      else andThen (case set_slot s (sl_global sl) of (r, v) \<Rightarrow> (r, sl\<lparr>sl_global := v\<rparr>)) (\<lambda>_ sl.
             (Ok (), sl\<lparr>sl_active := True\<rparr>)))"

definition detach_slot :: "bool \<Rightarrow> thread \<Rightarrow> slot \<Rightarrow> slot" where
  "detach_slot local t sl =
     (if local then sl\<lparr>sl_local := (sl_local sl)(t := None)\<rparr>
      else sl\<lparr>sl_active := False, sl_global := None\<rparr>)"

definition current_slot :: "thread \<Rightarrow> slot \<Rightarrow> state_id option" where
  "current_slot t sl =
     (case sl_local sl t of
        Some s \<Rightarrow> Some s
      | None \<Rightarrow> if sl_active sl then sl_global sl else None)"

section \<open>The registry of async mocks\<close>

type_synonym entries = "(usize \<times> state_id) list"

record registry =
  rg_global :: entries
  rg_local :: "thread \<Rightarrow> entries"
  rg_active :: bool

definition empty_registry :: registry where
  "empty_registry = \<lparr>rg_global = [], rg_local = (\<lambda>_. []), rg_active = False\<rparr>"

definition insert_entry :: "usize \<Rightarrow> state_id \<Rightarrow> (unit, entries) call" where
  "insert_entry address s es =
     (if \<exists>e\<in>set es. fst e = address then (Err (Expectation ''this future is already mocked''), es)
      else (Ok (), es @ [(address, s)]))"

definition register :: "usize \<Rightarrow> bool \<Rightarrow> thread \<Rightarrow> state_id \<Rightarrow> (unit, registry) call" where
  "register address local t s rg =
     (if local
      then case insert_entry address s (rg_local rg t) of
             (r, es) \<Rightarrow> (r, rg\<lparr>rg_local := (rg_local rg)(t := es)\<rparr>)
      else andThen (case insert_entry address s (rg_global rg) of (r, es) \<Rightarrow> (r, rg\<lparr>rg_global := es\<rparr>))
             (\<lambda>_ rg. (Ok (), rg\<lparr>rg_active := True\<rparr>)))"

definition remove_entry :: "usize \<Rightarrow> bool \<Rightarrow> thread \<Rightarrow> registry \<Rightarrow> registry" where
  "remove_entry address local t rg =
     (let keep = filter (\<lambda>e. fst e \<noteq> address) in
      if local then rg\<lparr>rg_local := (rg_local rg)(t := keep (rg_local rg t))\<rparr>
      else rg\<lparr>rg_global := keep (rg_global rg), rg_active := (keep (rg_global rg) \<noteq> [])\<rparr>)"

definition find_entry :: "entries \<Rightarrow> usize \<Rightarrow> state_id option" where
  "find_entry es address = map_option snd (List.find (\<lambda>e. fst e = address) es)"

definition registered :: "thread \<Rightarrow> usize \<Rightarrow> registry \<Rightarrow> state_id option" where
  "registered t address rg =
     (case find_entry (rg_local rg t) address of
        Some s \<Rightarrow> Some s
      | None \<Rightarrow> if rg_active rg then find_entry (rg_global rg) address else None)"

text \<open>
  The states are stored behind \<^verbatim>\<open>dyn Any\<close>; \<open>output_of\<close> is the output type a state was made for,
  and a look-up for another type is the panic of \<^verbatim>\<open>downcast\<close>.
\<close>

definition lookup_state ::
  "(state_id \<Rightarrow> 'ty) \<Rightarrow> 'ty \<Rightarrow> thread \<Rightarrow> usize \<Rightarrow> registry \<Rightarrow> state_id option result" where
  "lookup_state output_of output t address rg =
     (case registered t address rg of
        None \<Rightarrow> Ok None
      | Some s \<Rightarrow> if output_of s = output then Ok (Some s) else Panics ''async mock output type changed'')"

section \<open>The contract of a table of mocks\<close>

locale mock_table =
  fixes attach :: "bool \<Rightarrow> thread \<Rightarrow> state_id \<Rightarrow> (unit, 'w) call"
    and remove :: "bool \<Rightarrow> thread \<Rightarrow> 'w \<Rightarrow> 'w"
    and current :: "thread \<Rightarrow> 'w \<Rightarrow> state_id option"
    and own :: "thread \<Rightarrow> 'w \<Rightarrow> state_id option"
    and shared :: "'w \<Rightarrow> state_id option"
    and ok :: "'w \<Rightarrow> bool"
  assumes current_law: "ok w \<Longrightarrow> current t w = (case own t w of Some s \<Rightarrow> Some s | None \<Rightarrow> shared w)"
    and attach_fails: "(if local then own t w else shared w) \<noteq> None \<Longrightarrow>
      \<exists>e. attach local t s w = (Err e, w)"
    and attach_free: "(if local then own t w else shared w) = None \<Longrightarrow> fst (attach local t s w) = Ok ()"
    and attach_own: "attach local t s w = (Ok (), w') \<Longrightarrow>
      own t' w' = (if local \<and> t' = t then Some s else own t' w)"
    and attach_shared: "attach local t s w = (Ok (), w') \<Longrightarrow> shared w' = (if local then shared w else Some s)"
    and attach_ok: "attach local t s w = (Ok (), w') \<Longrightarrow> ok w \<Longrightarrow> ok w'"
    and remove_own: "own t' (remove local t w) = (if local \<and> t' = t then None else own t' w)"
    and remove_shared: "shared (remove local t w) = (if local then shared w else None)"
    and remove_ok: "ok w \<Longrightarrow> ok (remove local t w)"
begin

lemma attach_outcome:
  "(\<exists>w'. attach local t s w = (Ok (), w')) \<or> (\<exists>e. attach local t s w = (Err e, w))"
proof (cases "(if local then own t w else shared w) = None")
  case True
  from attach_free [OF this, of s] show ?thesis by (cases "attach local t s w") simp
next
  case False
  from attach_fails [OF this] show ?thesis by blast
qed

text \<open>
  Attaching a mock where none is, and removing it again: the thread sees the mock in between (every
  thread without one of its own does when the session is global), no other thread sees a local
  mock, and afterwards every thread sees what it saw before.
\<close>

lemma attach_remove:
  assumes "ok w" "(if local then own t w else shared w) = None"
  shows "\<exists>w'. attach local t s w = (Ok (), w') \<and> ok w' \<and>
    (\<forall>t'. current t' w' =
       (if own t' w = None \<and> (local \<longrightarrow> t' = t) then Some s else current t' w)) \<and>
    (\<forall>t'. current t' (remove local t w') = current t' w)"
proof -
  from attach_free [OF assms(2), of s] obtain w' where a: "attach local t s w = (Ok (), w')"
    by (cases "attach local t s w") simp
  have okw: "ok w'" "ok (remove local t w')" using attach_ok [OF a assms(1)] remove_ok by auto
  have "current t' w' = (if own t' w = None \<and> (local \<longrightarrow> t' = t) then Some s else current t' w)" for t'
    using assms okw(1) attach_own [OF a] attach_shared [OF a] by (auto simp: current_law split: option.splits)
  moreover have "current t' (remove local t w') = current t' w" for t'
    using assms okw attach_own [OF a] attach_shared [OF a]
    by (auto simp: current_law remove_own remove_shared split: option.splits if_splits)
  ultimately show ?thesis using a okw(1) by blast
qed

end

definition slot_ok :: "slot \<Rightarrow> bool" where
  "slot_ok sl \<longleftrightarrow> (sl_active sl \<longleftrightarrow> sl_global sl \<noteq> None)"

interpretation site: mock_table fill_slot detach_slot current_slot "\<lambda>t sl. sl_local sl t" sl_global slot_ok
proof (unfold_locales, goal_cases)
  case (3 local t w s)
  then show ?case by (cases local) (auto simp: fill_slot_def set_slot_def)
qed (auto simp: fill_slot_def set_slot_def detach_slot_def current_slot_def slot_ok_def
    split: if_splits option.splits)

text \<open>The registry keeps the contract at every address.\<close>

definition registry_ok :: "registry \<Rightarrow> bool" where
  "registry_ok rg \<longleftrightarrow> (rg_active rg \<longleftrightarrow> rg_global rg \<noteq> [])"

lemma find_entry_None: "find_entry es a = None \<longleftrightarrow> (\<forall>e\<in>set es. fst e \<noteq> a)"
  by (auto simp: find_entry_def find_None_iff)

lemma find_entry_append:
  "find_entry (es @ [(b, s)]) a =
     (case find_entry es a of Some s' \<Rightarrow> Some s' | None \<Rightarrow> if b = a then Some s else None)"
  by (induction es) (auto simp: find_entry_def)

lemma find_entry_fresh: "\<forall>e\<in>set es. fst e \<noteq> a \<Longrightarrow> find_entry (es @ [(a, s)]) a = Some s"
  by (induction es) (auto simp: find_entry_def)

lemma find_entry_filter:
  "find_entry (filter (\<lambda>e. fst e \<noteq> b) es) a = (if b = a then None else find_entry es a)"
  by (induction es) (auto simp: find_entry_def)

interpretation poll: mock_table "register address" "remove_entry address"
  "\<lambda>t. registered t address" "\<lambda>t rg. find_entry (rg_local rg t) address"
  "\<lambda>rg. find_entry (rg_global rg) address" registry_ok for address
proof (unfold_locales, goal_cases)
  case (1 w t)
  then show ?case by (auto simp: registered_def registry_ok_def find_entry_def split: option.splits)
next
  case (2 local t w s)
  then show ?case by (cases local) (auto simp: register_def insert_entry_def find_entry_None)
next
  case (3 local t w s)
  then show ?case by (cases local) (auto simp: register_def insert_entry_def find_entry_None)
next
  case (4 local t s w w' t')
  then show ?case
    by (cases local) (auto simp: register_def insert_entry_def find_entry_fresh split: if_splits)
next
  case (5 local t s w w')
  then show ?case
    by (cases local) (auto simp: register_def insert_entry_def find_entry_fresh split: if_splits)
qed (auto simp: register_def insert_entry_def remove_entry_def registry_ok_def Let_def find_entry_filter
    split: if_splits)

section \<open>Visibility of mocks\<close>

text \<open>
  C38: A generated mock is visible exactly where its session reaches. Filling an empty slot succeeds;
  then the thread of a local session sees the mock and no other thread does, while under a global
  session every thread without a mock of its own sees it; and detaching gives every thread what it
  saw before.
\<close>

theorem mock_site_visibility:
  assumes "slot_ok sl" "(if local then sl_local sl t else sl_global sl) = None"
  shows "\<exists>sl'. fill_slot local t s sl = (Ok (), sl') \<and> slot_ok sl' \<and>
    (\<forall>t'. current_slot t' sl' =
       (if sl_local sl t' = None \<and> (local \<longrightarrow> t' = t) then Some s else current_slot t' sl)) \<and>
    (\<forall>t'. current_slot t' (detach_slot local t sl') = current_slot t' sl)"
  using site.attach_remove [OF assms] .

theorem mock_site_visibility_witness:
  "\<exists>sl'. fill_slot True 1 7 empty_slot = (Ok (), sl') \<and> current_slot 1 sl' = Some 7 \<and>
     current_slot 2 sl' = None \<and> current_slot 1 (detach_slot True 1 sl') = None"
proof -
  have "slot_ok empty_slot" "(if True then sl_local empty_slot 1 else sl_global empty_slot) = None"
    by (simp_all add: empty_slot_def slot_ok_def)
  from mock_site_visibility [OF this, of 7] obtain sl' where
    "fill_slot True 1 7 empty_slot = (Ok (), sl')"
    "\<forall>t'. current_slot t' sl' = (if sl_local empty_slot t' = None \<and> (True \<longrightarrow> t' = 1) then Some 7
       else current_slot t' empty_slot)"
    "\<forall>t'. current_slot t' (detach_slot True 1 sl') = current_slot t' empty_slot" by blast
  then show ?thesis by (simp add: empty_slot_def current_slot_def)
qed

text \<open>
  The registry of async mocks keeps the same promise for every poll function, and mocks of
  other poll functions are not affected: registering one leaves what every thread finds at every
  other address unchanged, and so does removing it.
\<close>

lemma async_registry_visibility:
  assumes "registry_ok rg"
    "find_entry (if local then rg_local rg t else rg_global rg) address = None"
  shows "\<exists>rg'. register address local t s rg = (Ok (), rg') \<and> registry_ok rg' \<and>
    (\<forall>t'. registered t' address rg' =
       (if find_entry (rg_local rg t') address = None \<and> (local \<longrightarrow> t' = t) then Some s
        else registered t' address rg)) \<and>
    (\<forall>t'. registered t' address (remove_entry address local t rg') = registered t' address rg) \<and>
    (\<forall>t' a. a \<noteq> address \<longrightarrow> registered t' a rg' = registered t' a rg \<and>
       registered t' a (remove_entry address local t rg) = registered t' a rg)"
proof -
  have free: "(if local then find_entry (rg_local rg t) address else find_entry (rg_global rg) address) = None"
    using assms(2) by (cases local) auto
  from poll.attach_remove [OF assms(1) free] obtain rg' where
    r: "register address local t s rg = (Ok (), rg')" "registry_ok rg'" and
    v: "\<forall>t'. registered t' address rg' = (if find_entry (rg_local rg t') address = None \<and>
         (local \<longrightarrow> t' = t) then Some s else registered t' address rg)"
       "\<forall>t'. registered t' address (remove_entry address local t rg') = registered t' address rg"
    by blast
  have "registered t' a rg' = registered t' a rg" if "a \<noteq> address" for t' a
    using that r(1) assms(1) poll.current_law [OF r(2), of t' a] poll.current_law [OF assms(1), of t' a]
    by (cases local) (auto simp: register_def insert_entry_def find_entry_append split: if_splits option.splits)
  moreover have "registered t' a (remove_entry address local t rg) = registered t' a rg"
    if "a \<noteq> address" for t' a
    using that poll.current_law [OF poll.remove_ok [OF assms(1), of address local t], of t' a]
      poll.current_law [OF assms(1), of t' a]
    by (cases local) (auto simp: remove_entry_def Let_def find_entry_filter split: option.splits)
  ultimately show ?thesis using r v by blast
qed

lemma async_registry_visibility_witness:
  "\<exists>rg'. register 4096 False 0 7 empty_registry = (Ok (), rg') \<and> registered 5 4096 rg' = Some 7 \<and>
     registered 5 4096 (remove_entry 4096 False 0 rg') = None"
proof -
  have "registry_ok empty_registry"
    "find_entry (if False then rg_local empty_registry 0 else rg_global empty_registry) 4096 = None"
    by (simp_all add: empty_registry_def registry_ok_def find_entry_def)
  from async_registry_visibility [OF this, of 7] obtain rg' where
    "register 4096 False 0 7 empty_registry = (Ok (), rg')"
    "\<forall>t'. registered t' 4096 rg' = (if find_entry (rg_local empty_registry t') 4096 = None \<and>
       (False \<longrightarrow> t' = 0) then Some 7 else registered t' 4096 empty_registry)"
    "\<forall>t'. registered t' 4096 (remove_entry 4096 False 0 rg') = registered t' 4096 empty_registry" by blast
  then show ?thesis by (simp add: empty_registry_def registered_def find_entry_def)
qed

end
