(* ===== verification/Sessions.thy ===== *)
theory Sessions
  imports Routing Session_Lock Mock_Sites Expectations
begin

text \<open>
  Sessions (src/lib.rs): the scope that owns patches, routes and mocks and takes all of them back
  when it ends. This is the component that ties the others together: it takes the session lock,
  patches code through \<open>Hosts\<close>, routes through \<open>Routing\<close>, and verifies,
  detaches and deactivates the mocks of \<open>Expectations\<close> and \<open>Mock_Sites\<close>.

  \<open>machine\<close> is the state of the process a session acts on; a function of \<^verbatim>\<open>Session\<close> takes the
  session and the machine and returns both, on every path. The build and the operating system are
  the argument \<open>H\<close>.
\<close>

section \<open>The state\<close>

type_synonym site = nat

text \<open>The two closures that \<^verbatim>\<open>OwnedMock::detach\<close> holds: of a generated mock and of an async mock.\<close>

datatype detach = Detach_site site bool | Detach_poll usize bool

record owned_mock =
  om_control :: state_id
  om_detach :: detach

record ('r, 'k) machine =
  mc_process :: "'k process"
  mc_heap :: heap
  mc_states :: "state_id \<Rightarrow> 'r mock_state"
  mc_slots :: "site \<Rightarrow> slot"
  mc_registry :: registry
  mc_locks :: lock_state

record session =
  ss_patches :: "patch list"
  ss_mocks :: "owned_mock list"
  ss_local_patches :: "usize list"
  ss_global_routes :: "usize list"
  ss_lock :: session_lock

definition in_process :: "('a, 'k process) call \<Rightarrow> ('a, session \<times> ('r, 'k) machine) call" where
  "in_process m sw =
     (case m (mc_process (snd sw)) of (r, pr) \<Rightarrow> (r, fst sw, (snd sw)\<lparr>mc_process := pr\<rparr>))"

definition is_local :: "session \<Rightarrow> bool" where
  "is_local s \<longleftrightarrow> ss_lock s = LocalLock"

definition new_session :: "session_lock \<Rightarrow> session" where
  "new_session lock = \<lparr>ss_patches = [], ss_mocks = [], ss_local_patches = [], ss_global_routes = [],
                       ss_lock = lock\<rparr>"

definition open_session :: "bool \<Rightarrow> bool \<Rightarrow> bool \<Rightarrow> thread \<Rightarrow> (session, ('r, 'k) machine) call" where
  "open_session local wait queued t w =
     (case open_lock local wait queued t (mc_locks w) of
        (r, lk) \<Rightarrow> (and_then r (\<lambda>lock. Ok (new_session lock)), w\<lparr>mc_locks := lk\<rparr>))"

section \<open>Installing\<close>

definition replace_local ::
  "'k host \<Rightarrow> thread \<Rightarrow> usize \<Rightarrow> usize \<Rightarrow> usize \<Rightarrow> (unit, session \<times> ('r, 'k) machine) call" where
  "replace_local H t source dispatcher target sw =
     andThen (in_process (install_replacement H t source dispatcher target) sw) (\<lambda>_ (s, w).
       (Ok (), s\<lparr>ss_local_patches := ss_local_patches s @ [source]\<rparr>, w))"

definition within :: "patch \<Rightarrow> usize \<Rightarrow> bool" where
  "within p a \<longleftrightarrow> pt_entry p \<le> a \<and> a < pt_end p"

text \<open>
  The part of \<^verbatim>\<open>install_raw\<close> behind the look-up of a route. \<open>write_patch\<close> plans, checks and writes with
  the relay at hand; \<open>taken\<close> is the check against the patches of the session and of the routes. A
  failure in it drops the relay.
\<close>

definition write_patch ::
  "'k host \<Rightarrow> (usize \<Rightarrow> usize \<Rightarrow> bool) \<Rightarrow> usize \<Rightarrow> u8 list \<Rightarrow> usize \<times> executable option \<Rightarrow> (patch, 'k) call" where
  "write_patch H taken source bytes = (\<lambda>(target, relay) k.
     andThen (code_plan (h_target H) source target bytes, k) (\<lambda>pl k.
     andThen (ok_or (checked_add source (plan_offset pl)) InvalidRange, k) (\<lambda>address k.
     andThen (ok_or (checked_add address (length (plan_original pl))) InvalidRange, k) (\<lambda>e k.
       if taken address e then (Err Overlap, k)
       else
         andThen (host_write H address (plan_original pl) (plan_replacement pl) k) (\<lambda>_ k.
           (Ok \<lparr>pt_entry = source, pt_address = address, pt_original = plan_original pl,
                pt_replacement = plan_replacement pl, pt_relay = relay\<rparr>, k))))))"

definition patch_taken :: "session \<times> ('r, 'k) machine \<Rightarrow> usize \<Rightarrow> usize \<Rightarrow> bool" where
  "patch_taken sw address e \<longleftrightarrow>
     (\<exists>p\<in>set (ss_patches (fst sw)). address < pt_end p \<and> pt_address p < e) \<or>
     overlaps address (e - address) (mc_process (snd sw))"

definition patch_source ::
  "'k host \<Rightarrow> usize \<Rightarrow> usize \<Rightarrow> (unit, session \<times> ('r, 'k) machine) call" where
  "patch_source H source target sw =
     andThen (in_process (in_system (memory_read (h_memory H) target 1)) sw) (\<lambda>_ sw.
     andThen (in_process (in_system (memory_read (h_memory H) source MAX_PREFIX)) sw) (\<lambda>bytes sw.
     andThen (in_process (in_system (raw_relay H source target)) sw) (\<lambda>(destination, relay) sw.
     andThen (in_process (in_system (\<lambda>k. dropping_relay H relay
         (write_patch H (patch_taken sw) source bytes (destination, relay) k))) sw) (\<lambda>p (s, w).
       (Ok (), s\<lparr>ss_patches := ss_patches s @ [p]\<rparr>, w)))))"

definition install_raw ::
  "'k host \<Rightarrow> usize \<Rightarrow> usize \<Rightarrow> (unit, session \<times> ('r, 'k) machine) call" where
  "install_raw H source target sw =
     (if is_local (fst sw) then (Err (Expectation ''use mock! or mock_async in a local session''), sw)
      else if source = target then (Err SameAddress, sw)
      else if \<exists>p\<in>set (ss_patches (fst sw)). within p source \<or> within p target then (Err Overlap, sw)
      else
        andThen (in_process (global_route H source target) sw) (\<lambda>routed (s, w).
          if routed then (Ok (), s\<lparr>ss_global_routes := ss_global_routes s @ [source]\<rparr>, w)
          else patch_source H source target (s, w)))"

definition replace_raw ::
  "'k host \<Rightarrow> usize \<Rightarrow> usize \<Rightarrow> (unit, session \<times> ('r, 'k) machine) call" where
  "replace_raw H source target sw = (case install_raw H source target sw of (r, sw') \<Rightarrow> (check r, sw'))"

text \<open>
  What \<^verbatim>\<open>replace!\<close> expands to: the generated dispatcher in a local session, a raw replacement in a
  global one.
\<close>

definition replace_function ::
  "'k host \<Rightarrow> thread \<Rightarrow> usize \<Rightarrow> usize \<Rightarrow> usize \<Rightarrow> (unit, session \<times> ('r, 'k) machine) call" where
  "replace_function H t source dispatcher target sw =
     (if is_local (fst sw)
      then case replace_local H t source dispatcher target sw of (r, sw') \<Rightarrow> (check r, sw')
      else replace_raw H source target sw)"

text \<open>Dropping an \<^verbatim>\<open>OwnedMock\<close>: its closure empties the site, then the state is deactivated.\<close>

definition run_detach :: "thread \<Rightarrow> detach \<Rightarrow> ('r, 'k) machine \<Rightarrow> ('r, 'k) machine" where
  "run_detach t d w =
     (case d of
        Detach_site i local \<Rightarrow> w\<lparr>mc_slots := (mc_slots w)(i := detach_slot local t (mc_slots w i))\<rparr>
      | Detach_poll address local \<Rightarrow> w\<lparr>mc_registry := remove_entry address local t (mc_registry w)\<rparr>)"

definition drop_mock :: "thread \<Rightarrow> owned_mock \<Rightarrow> ('r, 'k) machine \<Rightarrow> ('r, 'k) machine" where
  "drop_mock t m w =
     (let w1 = run_detach t (om_detach m) w in
      w1\<lparr>mc_states := (mc_states w1)(om_control m := deactivate (mc_states w1 (om_control m)))\<rparr>)"

text \<open>
  \<^verbatim>\<open>__install\<close>: when the installation fails, or unwinds, the local variable \<^verbatim>\<open>mock\<close> is dropped.
\<close>

definition install_mock ::
  "'k host \<Rightarrow> thread \<Rightarrow> usize \<Rightarrow> usize \<Rightarrow> state_id \<Rightarrow> detach \<Rightarrow> (unit, session \<times> ('r, 'k) machine) call" where
  "install_mock H t source target control d sw =
     (let m = \<lparr>om_control = control, om_detach = d\<rparr>;
          (r, s, w) =
            (if is_local (fst sw)
             then andThen (in_process (install H t source target) sw) (\<lambda>_ (s, w).
                    (Ok (), s\<lparr>ss_local_patches := ss_local_patches s @ [source]\<rparr>, w))
             else install_raw H source target sw)
      in case r of
           Ok _ \<Rightarrow> (Ok (), s\<lparr>ss_mocks := ss_mocks s @ [m]\<rparr>, w)
         | Err e \<Rightarrow> (Err e, s, drop_mock t m w)
         | Panics p \<Rightarrow> (Panics p, s, drop_mock t m w)
         | Aborts \<Rightarrow> (Aborts, s, w)
         | Diverges \<Rightarrow> (Diverges, s, w))"

section \<open>Taking everything back\<close>

primrec verify_mocks :: "owned_mock list \<Rightarrow> ('r, 'k) machine \<Rightarrow> unit result" where
  "verify_mocks [] w = Ok ()"
| "verify_mocks (m # ms) w =
     and_then (verify_state (mc_states w (om_control m)) (mc_heap w)) (\<lambda>_. verify_mocks ms w)"

definition check_expectations :: "session \<Rightarrow> ('r, 'k) machine \<Rightarrow> unit result" where
  "check_expectations s w = verify_mocks (ss_mocks s) w"

definition verify_session :: "session \<Rightarrow> ('r, 'k) machine \<Rightarrow> unit result" where
  "verify_session s w = check (check_expectations s w)"

definition detach_mocks :: "thread \<Rightarrow> session \<times> ('r, 'k) machine \<Rightarrow> session \<times> ('r, 'k) machine" where
  "detach_mocks t sw = ((fst sw)\<lparr>ss_mocks := []\<rparr>, fold (drop_mock t) (ss_mocks (fst sw)) (snd sw))"

text \<open>The three loops of \<^verbatim>\<open>restore_patches\<close>. Each takes the last element, so the lists shrink.\<close>

function remove_local_routes :: "thread \<Rightarrow> session \<times> ('r, 'k) machine \<Rightarrow> session \<times> ('r, 'k) machine" where
  "remove_local_routes t (s, w) =
     (if ss_local_patches s = [] then (s, w)
      else remove_local_routes t
        (s\<lparr>ss_local_patches := butlast (ss_local_patches s)\<rparr>,
         w\<lparr>mc_process := remove_route t (last (ss_local_patches s)) (mc_process w)\<rparr>))"
  by pat_completeness auto
termination
  by (relation "measure (\<lambda>(t, s, w). length (ss_local_patches s))") auto

function remove_global_routes :: "(unit, session \<times> ('r, 'k) machine) call" where
  "remove_global_routes (s, w) =
     (if ss_global_routes s = [] then (Ok (), s, w)
      else andThen (in_process (remove_global (last (ss_global_routes s)))
             (s\<lparr>ss_global_routes := butlast (ss_global_routes s)\<rparr>, w)) (\<lambda>_. remove_global_routes))"
  by pat_completeness auto
termination
  by (relation "measure (\<lambda>(s, w). length (ss_global_routes s))")
    (auto simp: in_process_def split: prod.splits)

function restore_code :: "'k host \<Rightarrow> (unit, session \<times> ('r, 'k) machine) call" where
  "restore_code H (s, w) =
     (if ss_patches s = [] then (Ok (), s, w)
      else
        let p = last (ss_patches s) in
        andThen (in_process (in_system (host_write H (pt_address p) (pt_replacement p) (pt_original p))) (s, w)) (\<lambda>_ sw.
        andThen (in_process (in_system (drop_relay H (pt_relay p)))
            ((fst sw)\<lparr>ss_patches := butlast (ss_patches (fst sw))\<rparr>, snd sw)) (\<lambda>_. restore_code H)))"
  by pat_completeness auto
termination
  by (relation "measure (\<lambda>(H, s, w). length (ss_patches s))")
    (auto simp: in_process_def split: prod.splits)

declare remove_local_routes.simps [simp del]
declare remove_global_routes.simps [simp del]
declare restore_code.simps [simp del]

definition restore_patches :: "'k host \<Rightarrow> thread \<Rightarrow> (unit, session \<times> ('r, 'k) machine) call" where
  "restore_patches H t sw =
     andThen (remove_global_routes (remove_local_routes t sw)) (\<lambda>_. restore_code H)"

definition restore :: "'k host \<Rightarrow> thread \<Rightarrow> (unit, session \<times> ('r, 'k) machine) call" where
  "restore H t sw =
     (case restore_patches H t sw of
        (r, sw1) \<Rightarrow> andThen (check r, sw1) (\<lambda>_ sw1.
          (check (check_expectations (fst sw1) (snd sw1)), detach_mocks t sw1)))"

text \<open>\<^verbatim>\<open>finish\<close> ends the process when code could not be restored.\<close>

fun finish :: "unit result \<Rightarrow> unit result" where
  "finish (Err e) = Aborts"
| "finish r = r"

text \<open>
  The end of a session: \<^verbatim>\<open>drop\<close> and then the drop of its fields, which also happens when \<^verbatim>\<open>drop\<close>
  unwinds. \<open>panicking\<close> is \<^verbatim>\<open>std::thread::panicking()\<close>, and the fields are also unwound over when
  a failed expectation is reported from here. A second panic while the thread unwinds ends the
  process.
\<close>

definition release_session :: "bool \<Rightarrow> thread \<Rightarrow> session \<times> ('r, 'k) machine \<Rightarrow> ('r, 'k) machine" where
  "release_session unwinding t sw =
     (case detach_mocks t sw of
        (s, w) \<Rightarrow> w\<lparr>mc_locks := drop_lock (ss_lock s) unwinding t (mc_locks w)\<rparr>)"

definition drop_session :: "'k host \<Rightarrow> bool \<Rightarrow> thread \<Rightarrow> session \<Rightarrow> (unit, ('r, 'k) machine) call" where
  "drop_session H panicking t s w =
     (case restore_patches H t (s, w) of
        (r, sw1) \<Rightarrow>
          (case finish r of
             Ok _ \<Rightarrow>
               (let result = check_expectations (fst sw1) (snd sw1);
                    r2 = (if panicking then Ok () else check result)
                in (r2, release_session (panicking \<or> r2 \<noteq> Ok ()) t sw1))
           | Panics m \<Rightarrow> (if panicking then (Aborts, snd sw1) else (Panics m, release_session True t sw1))
           | r2 \<Rightarrow> (r2, snd sw1)))"

end
