(* ===== verification/Session_Restore.thy ===== *)
theory Session_Restore
  imports Sessions
begin

text \<open>
  A session gives back what it took. The operations of one session run in any order and with any
  outcome; what they did to the code, to the routes of the thread and to the global routes is
  recorded in the lists of the session, and \<^verbatim>\<open>restore_patches\<close> undoes exactly that.
\<close>

section \<open>Global routes in force\<close>

definition global_on :: "'k process \<Rightarrow> usize set" where
  "global_on pr = record_source pr ` {rc \<in> set (pr_records pr). en_global (pr_heap pr ! rc_entry rc) \<noteq> 0}"

lemma same_entry_same_source: "rc_entry rc = rc_entry rc' \<Longrightarrow> record_source pr rc = record_source pr rc'"
  by (simp add: record_source_def record_patch_def)

lemma record_source_inj:
  assumes "routing_ok pr" "rc \<in> set (pr_records pr)" "rc' \<in> set (pr_records pr)"
    "record_source pr rc = record_source pr rc'"
  shows "rc = rc'"
proof -
  have "inj_on (record_source pr) (set (pr_records pr))"
    using assms(1) by (simp add: routing_ok_def pr_patches_def distinct_map comp_def record_source_def inj_on_def)
  with assms(2-) show ?thesis by (simp add: inj_on_def)
qed

lemma global_on_system [simp]: "global_on (pr\<lparr>pr_system := k\<rparr>) = global_on pr"
  by (simp add: global_on_def record_source_def)

lemma global_on_local [simp]: "global_on (pr\<lparr>pr_local := l\<rparr>) = global_on pr"
  by (simp add: global_on_def record_source_def)

lemma global_on_remove_route [simp]: "global_on (remove_route t source pr) = global_on pr"
  by (simp add: remove_route_def)

lemma global_on_set:
  assumes ok: "routing_ok pr" and rc: "rc \<in> set (pr_records pr)" "record_source pr rc = source"
  shows "global_on (set_global (rc_entry rc) target pr) =
    (if target = 0 then global_on pr - {source} else insert source (global_on pr))"
proof -
  let ?pr = "set_global (rc_entry rc) target pr"
  have t: "pr_records ?pr = pr_records pr"
    "\<And>a. a \<in> set (pr_records pr) \<Longrightarrow> record_source ?pr a = record_source pr a"
    using same_table_global [OF ok] by (auto simp: same_table_def)
  have g: "en_global (pr_heap ?pr ! rc_entry a) = (if a = rc then target else en_global (pr_heap pr ! rc_entry a))"
    if a: "a \<in> set (pr_records pr)" for a
  proof (cases "rc_entry a = rc_entry rc")
    case True
    have "a = rc" using record_source_inj [OF ok a rc(1) same_entry_same_source [OF True]] .
    with record_in_heap [OF ok rc(1)] show ?thesis by (simp add: set_global_def)
  next
    case False
    then have "a \<noteq> rc" "rc_entry rc \<noteq> rc_entry a" by auto
    then show ?thesis by (simp add: set_global_def)
  qed
  have eq: "{a \<in> set (pr_records pr). en_global (pr_heap ?pr ! rc_entry a) \<noteq> 0} =
    (if target = 0 then {a \<in> set (pr_records pr). en_global (pr_heap pr ! rc_entry a) \<noteq> 0} - {rc}
     else insert rc {a \<in> set (pr_records pr). en_global (pr_heap pr ! rc_entry a) \<noteq> 0})"
  proof (rule set_eqI)
    fix a
    show "a \<in> {a \<in> set (pr_records pr). en_global (pr_heap ?pr ! rc_entry a) \<noteq> 0} \<longleftrightarrow>
      a \<in> (if target = 0 then {a \<in> set (pr_records pr). en_global (pr_heap pr ! rc_entry a) \<noteq> 0} - {rc}
     else insert rc {a \<in> set (pr_records pr). en_global (pr_heap pr ! rc_entry a) \<noteq> 0})"
      using g [of a] rc(1) by (cases "a = rc"; cases "target = 0") auto
  qed
  have src: "record_source pr a = source \<longleftrightarrow> a = rc" if "a \<in> set (pr_records pr)" for a
    using record_source_inj [OF ok that rc(1)] rc(2) by auto
  have "global_on ?pr = record_source pr ` {a \<in> set (pr_records pr). en_global (pr_heap ?pr ! rc_entry a) \<noteq> 0}"
    unfolding global_on_def t(1) using t(2) by (intro image_cong) auto
  also have "\<dots> = (if target = 0 then global_on pr - {source} else insert source (global_on pr))"
    unfolding eq global_on_def using src rc by (auto simp: image_iff)
  finally show ?thesis .
qed

lemma memory_read_null [simp]: "memory_read P 0 n k = (Err InvalidAddress, k)"
  by (simp add: memory_read_def executable_regions_def checked_end_def)

lemma global_route_on:
  assumes "process_ok pr" "global_route H source target pr = (r, pr')"
  shows "if r = Ok True then source \<notin> global_on pr \<and> global_on pr' = insert source (global_on pr)
    else global_on pr' = global_on pr"
proof -
  have ok: "routing_ok pr" using assms(1) by (simp add: process_ok_def)
  have "target \<noteq> 0" if r: "r = Ok True"
  proof
    assume "target = 0"
    with assms(2) r show False by (auto simp: global_route_def in_system_def split: if_splits option.splits)
  qed
  with global_route_cases [OF assms(2)] show ?thesis
  proof (elim disjE exE conjE)
    fix k rc
    assume s: "r = Ok True" "rc \<in> set (pr_records pr)" "record_source pr rc = source"
      "en_global (pr_heap pr ! rc_entry rc) = 0" "pr' = set_global (rc_entry rc) target (pr\<lparr>pr_system := k\<rparr>)"
      and t: "r = Ok True \<Longrightarrow> target \<noteq> 0"
    have "source \<notin> global_on pr"
    proof
      assume "source \<in> global_on pr"
      then obtain a where a: "a \<in> set (pr_records pr)" "record_source pr a = source"
        "en_global (pr_heap pr ! rc_entry a) \<noteq> 0" by (auto simp: global_on_def)
      with record_source_inj [OF ok a(1) s(2)] s(3,4) show False by simp
    qed
    moreover have "record_source (pr\<lparr>pr_system := k\<rparr>) rc = source" using s(3) by (simp add: record_source_def)
    ultimately show ?thesis
      using global_on_set [of "pr\<lparr>pr_system := k\<rparr>" rc source target] ok s t by simp
  qed auto
qed

lemma remove_global_on:
  assumes "process_ok pr" "source \<in> global_on pr"
  shows "\<exists>pr'. remove_global source pr = (Ok (), pr') \<and> process_ok pr' \<and> pr_local pr' = pr_local pr \<and>
    pr_system pr' = pr_system pr \<and> global_on pr' = global_on pr - {source}"
proof -
  have ok: "routing_ok pr" using assms(1) by (simp add: process_ok_def)
  from assms(2) obtain rc0 where "rc0 \<in> set (pr_records pr)" "record_source pr rc0 = source"
    by (auto simp: global_on_def)
  then obtain rc where f: "List.find (\<lambda>rc. pt_entry (record_patch (pr_heap pr) rc) = source) (pr_records pr) = Some rc"
    by (cases "List.find (\<lambda>rc. pt_entry (record_patch (pr_heap pr) rc) = source) (pr_records pr)")
      (auto simp: find_None_iff record_source_def)
  with global_on_set [OF ok find_serves [OF f], of 0] set_global_ok [OF assms(1)] show ?thesis
    by (simp add: remove_global_def set_global_def)
qed

lemma global_on_grows:
  assumes "routing_ok pr" "pr_records pr' = pr_records pr @ rcs"
    "\<And>i. i < length (pr_heap pr) \<Longrightarrow> pr_heap pr' ! i = pr_heap pr ! i"
    "\<And>rc. rc \<in> set rcs \<Longrightarrow> en_global (pr_heap pr' ! rc_entry rc) = 0"
  shows "global_on pr' = global_on pr"
proof -
  have "{rc \<in> set (pr_records pr'). en_global (pr_heap pr' ! rc_entry rc) \<noteq> 0} =
      {rc \<in> set (pr_records pr). en_global (pr_heap pr ! rc_entry rc) \<noteq> 0}"
    using assms record_in_heap [OF assms(1)] by auto
  moreover have "record_source pr' rc = record_source pr rc" if "rc \<in> set (pr_records pr)" for rc
    using assms(3) record_in_heap [OF assms(1) that] by (simp add: record_source_def record_patch_def)
  ultimately show ?thesis unfolding global_on_def by (auto simp: image_iff)
qed

lemma new_route_on:
  assumes "routing_ok pr" "new_route H source dispatcher pr = (r, pr')"
  shows "global_on pr' = global_on pr"
  using assms(2)
proof (cases rule: new_route_cases)
  case (Failed en k e)
  show ?thesis by (rule global_on_grows [OF assms(1), of _ "[]"]) (simp_all add: Failed publish_entry_def nth_append)
next
  case (Stuck en k)
  show ?thesis by (rule global_on_grows [OF assms(1), of _ "[]"]) (simp_all add: Stuck publish_entry_def nth_append)
next
  case (Installed en k)
  show ?thesis
    by (rule global_on_grows [OF assms(1), of _ "[\<lparr>rc_entry = length (pr_heap pr), rc_sites = [dispatcher]\<rparr>]"])
      (use Installed(2) in \<open>simp_all add: Installed(3) publish_entry_def nth_append entry_ready_def\<close>)
qed simp

lemma add_site_on:
  "global_on (pr\<lparr>pr_records := update_first P (add_site d) (pr_records pr)\<rparr>) = global_on pr"
proof -
  let ?g = "\<lambda>rc. (en_global (pr_heap pr ! rc_entry rc), record_source pr rc)"
  have "?g ` set (update_first P (add_site d) (pr_records pr)) = ?g ` set (pr_records pr)"
    by (rule update_first_keeps) (simp add: record_source_def record_patch_def)
  moreover have "global_on (pr\<lparr>pr_records := rcs\<rparr>) = snd ` (?g ` set rcs - {0} \<times> UNIV)" for rcs
    by (force simp: global_on_def record_source_def)
  moreover have "global_on pr = snd ` (?g ` set (pr_records pr) - {0} \<times> UNIV)"
    by (force simp: global_on_def)
  ultimately show ?thesis by simp
qed

lemma install_replacement_on:
  assumes "process_ok pr" "install_replacement H t source dispatcher target pr = (r, pr')"
  shows "global_on pr' = global_on pr"
proof -
  have ok: "routing_ok pr" using assms(1) by (simp add: process_ok_def)
  have o: "global_on pr1 = global_on pr" if "obtain_entry H source dispatcher (pr\<lparr>pr_system := k\<rparr>) = (r1, pr1)" for k r1 pr1
    using that new_route_on [of "pr\<lparr>pr_system := k\<rparr>"] ok add_site_on [where pr = "pr\<lparr>pr_system := k\<rparr>"]
    by (auto simp: obtain_entry_def Let_def split: option.splits)
  from install_replacement_cases [OF assms(2) ok] show ?thesis using o by (elim disjE exE conjE) simp_all
qed

section \<open>What the lists of a session record\<close>

text \<open>
  \<open>undo\<close> is the code without the session's patches: the last patch is taken back first. The
  invariant of a session says that taking back what its lists record gives the state the session
  started from: the code \<open>m0\<close>, the routes \<open>l0\<close> of the thread and the global routes \<open>g0\<close>.
\<close>

definition undo :: "patch list \<Rightarrow> memory \<Rightarrow> memory" where
  "undo ps m = foldr (\<lambda>p m. write_bytes m (pt_address p) (pt_original p)) ps m"

lemma undo_Nil [simp]: "undo [] m = m"
  by (simp add: undo_def)

lemma same_on_undo: "same_on code m m' \<Longrightarrow> same_on code (undo ps m) (undo ps m')"
  by (induction ps arbitrary: m m' rule: rev_induct) (auto simp: undo_def intro: same_on_write)

lemma undo_snoc [simp]: "undo (ps @ [p]) m = undo ps (write_bytes m (pt_address p) (pt_original p))"
  by (simp add: undo_def)

definition session_inv ::
  "'k host \<Rightarrow> ('k \<Rightarrow> memory) \<Rightarrow> usize set \<Rightarrow> ('k \<Rightarrow> bool) \<Rightarrow> memory \<Rightarrow> local_route list \<Rightarrow> usize set \<Rightarrow> thread \<Rightarrow>
   session \<times> ('r, 'k) machine \<Rightarrow> bool" where
  "session_inv H mem code held m0 l0 g0 t sw \<longleftrightarrow>
     (case sw of (s, w) \<Rightarrow> let pr = mc_process w in
        process_ok pr \<and>
        filter (\<lambda>lr. lc_source lr \<notin> set (ss_local_patches s)) (pr_local pr t) = l0 \<and>
        distinct (ss_global_routes s) \<and> g0 \<inter> set (ss_global_routes s) = {} \<and>
        global_on pr = g0 \<union> set (ss_global_routes s) \<and>
        (if is_local s then ss_patches s = [] \<and> ss_global_routes s = []
         else ss_local_patches s = [] \<and> held (pr_system pr) \<and>
           (\<forall>p\<in>set (ss_patches s). relay_ok H code (pt_relay p)) \<and>
           same_on code (undo (ss_patches s) (mem (pr_system pr))) m0))"

lemmas session_inv_simps = session_inv_def Let_def is_local_def prod.case

text \<open>Nothing but the routing tables, the code and the lists of the session changes.\<close>

definition keeps_mocks :: "session \<times> ('r, 'k) machine \<Rightarrow> session \<times> ('r, 'k) machine \<Rightarrow> bool" where
  "keeps_mocks sw sw' \<longleftrightarrow> ss_lock (fst sw') = ss_lock (fst sw) \<and> ss_mocks (fst sw') = ss_mocks (fst sw) \<and>
     (\<exists>pr. snd sw' = (snd sw)\<lparr>mc_process := pr\<rparr>)"

lemma keeps_mocks_refl [simp]: "keeps_mocks sw sw"
  unfolding keeps_mocks_def by (metis (no_types) machine.surjective machine.update_convs(1))

lemma keeps_mocks_process [simp]: "keeps_mocks (s, w) (s', w\<lparr>mc_process := pr\<rparr>) \<longleftrightarrow>
   ss_lock s' = ss_lock s \<and> ss_mocks s' = ss_mocks s"
  by (auto simp: keeps_mocks_def)

lemma keeps_mocks_trans: "keeps_mocks a b \<Longrightarrow> keeps_mocks b c \<Longrightarrow> keeps_mocks a c"
  by (auto simp: keeps_mocks_def)

lemma in_process_leaves:
  "leaves (in_process m (s, w)) Q \<longleftrightarrow> leaves (m (mc_process w)) (\<lambda>r pr. Q r (s, w\<lparr>mc_process := pr\<rparr>))"
  by (simp add: in_process_def leaves_def case_prod_unfold)

lemma in_system_leaves:
  "leaves (in_system m pr) Q \<longleftrightarrow> leaves (m (pr_system pr)) (\<lambda>r k. Q r (pr\<lparr>pr_system := k\<rparr>))"
  by (simp add: in_system_def leaves_def case_prod_unfold)

lemma pure_then:
  assumes "returns m" "\<And>v. m = Ok v \<Longrightarrow> leaves (f v k) Q" "\<And>e. m = Err e \<Longrightarrow> Q (Err e) k"
  shows "leaves (andThen (m, k) f) Q"
  using assms by (cases m) simp_all

lemma system_then:
  assumes "leaves (m (pr_system (mc_process w))) (\<lambda>r k. settles r \<and> R r k)"
    "\<And>v k. R (Ok v) k \<Longrightarrow> leaves (f v (s, w\<lparr>mc_process := (mc_process w)\<lparr>pr_system := k\<rparr>\<rparr>)) Q"
    "\<And>e k. R (Err e) k \<Longrightarrow> Q (Err e) (s, w\<lparr>mc_process := (mc_process w)\<lparr>pr_system := k\<rparr>\<rparr>)"
    "\<And>k. R Aborts k \<Longrightarrow> Q Aborts (s, w\<lparr>mc_process := (mc_process w)\<lparr>pr_system := k\<rparr>\<rparr>)"
  shows "leaves (andThen (in_process (in_system m) (s, w)) f) Q"
  using assms by (cases "m (pr_system (mc_process w))"; cases "fst (m (pr_system (mc_process w)))")
    (auto simp: in_process_def in_system_def)

context code_host
begin

lemma read_settles: "leaves (memory_read (h_memory H) a n k) (\<lambda>r k'. settles r \<and> (r \<noteq> Aborts \<and> keeps_code code mem held k k'))"
proof -
  obtain r k' where q: "memory_read (h_memory H) a n k = (r, k')" by (cases "memory_read (h_memory H) a n k")
  with read_keeps [OF q] show ?thesis by (auto simp: settles_def)
qed

lemma session_inv_system:
  assumes "session_inv H mem code held m0 l0 g0 t (s, w)" "keeps_code code mem held (pr_system (mc_process w)) k"
  shows "session_inv H mem code held m0 l0 g0 t (s, w\<lparr>mc_process := (mc_process w)\<lparr>pr_system := k\<rparr>\<rparr>)"
  using assms by (auto simp: session_inv_simps keeps_code_def intro: same_on_trans [OF same_on_undo])

text \<open>A patch that is written can be taken back; one that is not keeps the code and has no relay left.\<close>

abbreviation undoes :: "'k \<Rightarrow> executable option \<Rightarrow> patch result \<Rightarrow> 'k \<Rightarrow> bool" where
  "undoes k relay r k' \<equiv>
     (\<forall>p. r = Ok p \<longrightarrow> pt_relay p = relay \<and> held k' \<and>
        same_on code (write_bytes (mem k') (pt_address p) (pt_original p)) (mem k)) \<and>
     ((\<exists>e. r = Err e) \<longrightarrow> keeps_code code mem held k k')"

lemma write_patch_law:
  assumes "held k"
  shows "leaves (write_patch H taken source bytes (destination, relay) k) (\<lambda>r k'. settles r \<and> undoes k relay r k')"
proof -
  have writing: "leaves (andThen (host_write H a original replacement k) (\<lambda>_ k.
      (Ok \<lparr>pt_entry = source, pt_address = a, pt_original = original, pt_replacement = replacement, pt_relay = relay\<rparr>, k)))
      (\<lambda>r k'. settles r \<and> undoes k relay r k')" for a original replacement
  proof -
    obtain r k1 where q: "host_write H a original replacement k = (r, k1)" by (cases "host_write H a original replacement k")
    note law = leavesD [OF host_write_law [OF assms] q]
    have "same_on code (write_bytes (mem k1) a original) (mem k)" if "r = Ok ()"
    proof -
      have "same_on code (write_bytes (mem k1) a original) (write_bytes (write_bytes (mem k) a replacement) a original)"
        using law that by (intro same_on_write) simp
      with law that show ?thesis by (simp add: write_bytes_back)
    qed
    with law q show ?thesis by (cases r) auto
  qed
  show ?thesis unfolding write_patch_def prod.case
    by (intro pure_then code_plan_returns returns_ok_or) (simp_all add: writing)
qed

lemma write_patch_dropping:
  assumes "held k" "relay_ok H code relay"
  shows "leaves (dropping_relay H relay (write_patch H taken source bytes (destination, relay) k))
    (\<lambda>r k'. settles r \<and> undoes k relay r k')"
proof -
  obtain r k1 where q: "write_patch H taken source bytes (destination, relay) k = (r, k1)"
    by (cases "write_patch H taken source bytes (destination, relay) k")
  note law = leavesD [OF write_patch_law [OF assms(1)] q]
  show ?thesis unfolding q
  proof (rule leaves_mono [OF dropping_relay_law [OF assms(2)]])
    fix r' k'
    assume d: "settles r' \<and> (r' = r \<or> r' = Aborts) \<and> keeps_code code mem held k1 k'"
    have "same_on code (write_bytes (mem k') (pt_address p) (pt_original p)) (mem k)" "held k'" if "r = Ok p" for p
      using law that d same_on_write [of code "mem k'" "mem k1"] by (auto simp: keeps_code_def intro: same_on_trans)
    with law d show "settles r' \<and> undoes k relay r' k'" by (auto intro: keeps_code_trans)
  qed (use law in simp)
qed

lemma patch_source_inv:
  assumes "session_inv H mem code held m0 l0 g0 t (s, w)" "\<not> is_local s"
  shows "leaves (patch_source H source target (s, w)) (\<lambda>r sw'.
    settles r \<and> keeps_mocks (s, w) sw' \<and> (r \<noteq> Aborts \<longrightarrow> session_inv H mem code held m0 l0 g0 t sw') \<and>
    (r \<noteq> Ok () \<longrightarrow> fst sw' = s) \<and> pr_local (mc_process (snd sw')) = pr_local (mc_process w) \<and>
    ((\<exists>e. r = Err e) \<longrightarrow> keeps_code code mem held (pr_system (mc_process w)) (pr_system (mc_process (snd sw')))))"
    (is "leaves _ ?Q")
proof -
  define pr where "pr = mc_process w"
  define kept where "kept = keeps_code code mem held (pr_system pr)"
  have held: "held (pr_system pr)" using assms by (simp add: session_inv_simps pr_def)
  have start: "session_inv H mem code held m0 l0 g0 t (s, w\<lparr>mc_process := pr\<lparr>pr_system := k\<rparr>\<rparr>)" if "kept k" for k
    using session_inv_system [OF assms(1)] that by (simp add: pr_def kept_def)
  have stop: "?Q (Err e) (s, w\<lparr>mc_process := pr\<lparr>pr_system := k\<rparr>\<rparr>)" if "kept k" for e k
    using start [OF that] that by (simp add: pr_def kept_def)
  have abort: "?Q Aborts (s, w\<lparr>mc_process := pr\<lparr>pr_system := k\<rparr>\<rparr>)" for k by (simp add: pr_def)
  have recorded: "?Q (Ok ()) (s\<lparr>ss_patches := ss_patches s @ [p]\<rparr>, w\<lparr>mc_process := pr\<lparr>pr_system := k'\<rparr>\<rparr>)"
    if "kept k" "undoes k relay (Ok p) k'" "relay_ok H code relay" for k k' p relay
  proof -
    have "same_on code (undo (ss_patches s) (write_bytes (mem k') (pt_address p) (pt_original p))) (undo (ss_patches s) (mem (pr_system pr)))"
      using that held by (intro same_on_undo) (auto simp: kept_def keeps_code_def intro: same_on_trans)
    with assms that show ?thesis by (auto simp: session_inv_simps pr_def intro: same_on_trans)
  qed
  let ?at = "\<lambda>k. (s, w\<lparr>mc_process := pr\<lparr>pr_system := k\<rparr>\<rparr>)"
  have trans: "kept k \<Longrightarrow> keeps_code code mem held k k' \<Longrightarrow> kept k'" for k k'
    unfolding kept_def by (rule keeps_code_trans)
  have heldD: "kept k \<Longrightarrow> held k" for k using held by (simp add: kept_def keeps_code_def)
  have writing: "leaves (andThen (in_process (in_system (\<lambda>k. dropping_relay H relay
        (write_patch H taken source bytes (d, relay) k))) (?at k)) (\<lambda>p (s, w). (Ok (), s\<lparr>ss_patches := ss_patches s @ [p]\<rparr>, w))) ?Q"
    if k: "kept k" "relay_ok H code relay" for k relay d taken bytes
    by (rule system_then [where R = "undoes k relay"])
      (use write_patch_dropping [OF heldD [OF k(1)] k(2)] recorded [OF k(1) _ k(2)] stop trans [OF k(1)] abort in simp_all)
  have relay: "leaves (andThen (in_process (in_system (raw_relay H source target)) (?at k)) (\<lambda>(d, relay) sw.
      andThen (in_process (in_system (\<lambda>k. dropping_relay H relay (write_patch H (patch_taken sw) source bytes (d, relay) k))) sw)
        (\<lambda>p (s, w). (Ok (), s\<lparr>ss_patches := ss_patches s @ [p]\<rparr>, w)))) ?Q" if k: "kept k" for k bytes
    by (rule system_then [OF raw_relay_law])
      (use heldD [OF k] writing [OF trans [OF k]] stop trans [OF k] abort in \<open>auto simp del: in_process_leaves\<close>)
  show ?thesis unfolding patch_source_def
    by (rule system_then [OF read_settles], rule system_then [OF read_settles])
      (use relay stop trans in \<open>auto simp: pr_def [symmetric] kept_def [symmetric]\<close>)
qed

lemma global_route_code:
  assumes "global_route H source target pr = (r, pr')"
  shows "returns r \<and> keeps_code code mem held (pr_system pr) (pr_system pr')"
proof -
  obtain r1 k1 where q: "memory_read (h_memory H) target 1 (pr_system pr) = (r1, k1)"
    by (cases "memory_read (h_memory H) target 1 (pr_system pr)")
  with read_keeps [OF q] assms show ?thesis
    by (cases r1) (auto simp: global_route_def in_system_def set_global_def split: if_splits option.splits)
qed

lemma install_raw_inv:
  assumes inv: "session_inv H mem code held m0 l0 g0 t (s, w)"
  shows "leaves (install_raw H source target (s, w)) (\<lambda>r sw'.
    settles r \<and> keeps_mocks (s, w) sw' \<and> (r \<noteq> Aborts \<longrightarrow> session_inv H mem code held m0 l0 g0 t sw') \<and>
    (r \<noteq> Ok () \<longrightarrow> fst sw' = s) \<and> pr_local (mc_process (snd sw')) = pr_local (mc_process w) \<and>
    ((\<exists>e. r = Err e) \<longrightarrow> keeps_code code mem held (pr_system (mc_process w)) (pr_system (mc_process (snd sw')))))"
    (is "leaves _ ?Q")
proof (cases "is_local s \<or> source = target \<or> (\<exists>p\<in>set (ss_patches s). within p source \<or> within p target)")
  case True
  with inv show ?thesis by (auto simp: install_raw_def)
next
  case False
  obtain r pr where g: "global_route H source target (mc_process w) = (r, pr)"
    by (cases "global_route H source target (mc_process w)")
  note code = global_route_code [OF g]
  have ok: "process_ok (mc_process w)" using inv by (simp add: session_inv_simps)
  note law = global_route_on [OF ok g] global_route_ok [OF ok g]
  let ?w = "w\<lparr>mc_process := pr\<rparr>"
  have step: "install_raw H source target (s, w) = andThen (r, s, ?w) (\<lambda>routed (s, w).
      if routed then (Ok (), s\<lparr>ss_global_routes := ss_global_routes s @ [source]\<rparr>, w)
      else patch_source H source target (s, w))"
    using False g by (simp add: install_raw_def in_process_def)
  have same: "session_inv H mem code held m0 l0 g0 t (s, ?w)" if "r \<noteq> Ok True"
    using inv law code that by (auto simp: session_inv_simps keeps_code_def intro: same_on_trans [OF same_on_undo])
  show ?thesis
  proof (cases r)
    case (Ok routed)
    show ?thesis
    proof (cases routed)
      case True
      with Ok inv law code False have "session_inv H mem code held m0 l0 g0 t
          (s\<lparr>ss_global_routes := ss_global_routes s @ [source]\<rparr>, ?w)"
        by (auto simp: session_inv_simps keeps_code_def intro: same_on_trans [OF same_on_undo])
      with True Ok law show ?thesis unfolding step by simp
    next
      case unrouted: False
      have "session_inv H mem code held m0 l0 g0 t (s, ?w)" "\<not> is_local s" using same Ok unrouted False by simp_all
      note law = patch_source_inv [OF this, of source target]
      have start: "keeps_mocks (s, ?w) sw' \<Longrightarrow> keeps_mocks (s, w) sw'" for sw'
        by (rule keeps_mocks_trans [of "(s, w)" "(s, ?w)"]) simp_all
      have "leaves (patch_source H source target (s, ?w)) ?Q"
        by (rule leaves_mono [OF law]) (use code start global_route_ok [OF ok g] in \<open>auto intro: keeps_code_trans\<close>)
      with Ok unrouted show ?thesis unfolding step by simp
    qed
  qed (use same code global_route_ok [OF ok g] in \<open>simp_all add: step\<close>)
qed

end

section \<open>The routes of the thread\<close>

lemma install_replacement_inv:
  assumes inv: "session_inv H mem code held m0 l0 g0 t (s, w)" and loc: "is_local s"
    and i: "install_replacement H t source dispatcher target (mc_process w) = (r, pr)"
  shows "session_inv H mem code held m0 l0 g0 t
    (if r = Ok () then s\<lparr>ss_local_patches := ss_local_patches s @ [source]\<rparr> else s, w\<lparr>mc_process := pr\<rparr>)"
proof -
  have ok: "process_ok (mc_process w)" using inv by (simp add: session_inv_simps)
  note law = install_replacement_ok [OF ok i] install_replacement_on [OF ok i]
  show ?thesis
  proof (cases "r = Ok ()")
    case False
    with inv loc law show ?thesis by (simp add: session_inv_simps)
  next
    case True
    with law obtain d where d: "pr_local pr t = pr_local (mc_process w) t @
        [\<lparr>lc_source = source, lc_dispatcher = d, lc_target = target\<rparr>]" by blast
    have "distinct (map lc_source (pr_local pr t))" using law by (simp add: process_ok_def locals_ok_def)
    then have "\<forall>lr\<in>set (pr_local (mc_process w) t). lc_source lr \<noteq> source" by (auto simp: d)
    then have "filter (\<lambda>lr. lc_source lr \<notin> insert source S) (pr_local pr t) =
        filter (\<lambda>lr. lc_source lr \<notin> S) (pr_local (mc_process w) t)" for S
      by (auto simp: d intro: filter_cong)
    with True inv loc law show ?thesis by (simp add: session_inv_simps)
  qed
qed

text \<open>The first two loops of \<^verbatim>\<open>restore_patches\<close>.\<close>

lemma remove_local_routes_inv:
  assumes "session_inv H mem code held m0 l0 g0 t sw"
  shows "session_inv H mem code held m0 l0 g0 t (remove_local_routes t sw) \<and> keeps_mocks sw (remove_local_routes t sw) \<and>
    ss_local_patches (fst (remove_local_routes t sw)) = [] \<and>
    ss_global_routes (fst (remove_local_routes t sw)) = ss_global_routes (fst sw) \<and>
    ss_patches (fst (remove_local_routes t sw)) = ss_patches (fst sw)"
  using assms
proof (induction t sw rule: remove_local_routes.induct)
  case (1 t s w)
  show ?case
  proof (cases "ss_local_patches s = []")
    case True
    with 1(2) show ?thesis by (simp add: remove_local_routes.simps)
  next
    case False
    let ?s = "s\<lparr>ss_local_patches := butlast (ss_local_patches s)\<rparr>"
    let ?w = "w\<lparr>mc_process := remove_route t (last (ss_local_patches s)) (mc_process w)\<rparr>"
    have parts: "set (ss_local_patches s) = insert (last (ss_local_patches s)) (set (butlast (ss_local_patches s)))"
      using append_butlast_last_id [OF False] by (metis set_append list.set(1,2) Un_insert_right Un_empty_right)
    have "filter (\<lambda>lr. lc_source lr \<notin> set (butlast (ss_local_patches s)))
        (filter (\<lambda>lr. lc_source lr \<noteq> last (ss_local_patches s)) (pr_local (mc_process w) t)) =
      filter (\<lambda>lr. lc_source lr \<notin> set (ss_local_patches s)) (pr_local (mc_process w) t)"
      unfolding parts by (auto intro: filter_cong)
    with 1(2) False remove_route_ok have "session_inv H mem code held m0 l0 g0 t (?s, ?w)"
      by (auto simp: session_inv_simps remove_route_def)
    note ih = 1(1) [OF False this]
    have "keeps_mocks (s, w) (remove_local_routes t (?s, ?w))"
      by (rule keeps_mocks_trans [of _ "(?s, ?w)"]) (use ih in simp_all)
    with ih False show ?thesis by (simp add: remove_local_routes.simps [of t s w])
  qed
qed

lemma remove_global_routes_inv:
  assumes "session_inv H mem code held m0 l0 g0 t sw"
  shows "\<exists>sw'. remove_global_routes sw = (Ok (), sw') \<and> session_inv H mem code held m0 l0 g0 t sw' \<and> keeps_mocks sw sw' \<and>
    ss_global_routes (fst sw') = [] \<and> ss_local_patches (fst sw') = ss_local_patches (fst sw) \<and>
    ss_patches (fst sw') = ss_patches (fst sw)"
  using assms
proof (induction sw rule: remove_global_routes.induct)
  case (1 s w)
  show ?case
  proof (cases "ss_global_routes s = []")
    case True
    with 1(2) show ?thesis by (simp add: remove_global_routes.simps)
  next
    case False
    let ?a = "last (ss_global_routes s)" and ?as = "butlast (ss_global_routes s)"
    have parts: "ss_global_routes s = ?as @ [?a]" using False by simp
    have on: "?a \<in> global_on (mc_process w)" "process_ok (mc_process w)"
      using 1(2) False by (simp_all add: session_inv_simps)
    from remove_global_on [OF on(2,1)] obtain pr where pr: "remove_global ?a (mc_process w) = (Ok (), pr)"
      "process_ok pr" "pr_local pr = pr_local (mc_process w)" "pr_system pr = pr_system (mc_process w)"
      "global_on pr = global_on (mc_process w) - {?a}" by blast
    let ?sw = "(s\<lparr>ss_global_routes := ?as\<rparr>, w\<lparr>mc_process := pr\<rparr>)"
    have "distinct (?as @ [?a])" "g0 \<inter> set (?as @ [?a]) = {}" "global_on (mc_process w) = g0 \<union> set (?as @ [?a])"
      using 1(2) parts by (simp_all add: session_inv_simps)
    then have "distinct ?as" "g0 \<inter> set ?as = {}" "global_on pr = g0 \<union> set ?as" by (auto simp: pr(5))
    with 1(2) pr False have inv: "session_inv H mem code held m0 l0 g0 t ?sw" by (auto simp: session_inv_simps)
    have step: "in_process (remove_global ?a) (s\<lparr>ss_global_routes := ?as\<rparr>, w) = (Ok (), ?sw)"
      by (simp add: in_process_def pr(1))
    from 1(1) [OF False step inv] obtain sw' where sw': "remove_global_routes ?sw = (Ok (), sw')"
      "session_inv H mem code held m0 l0 g0 t sw'" "keeps_mocks ?sw sw'" "ss_global_routes (fst sw') = []"
      "ss_local_patches (fst sw') = ss_local_patches s" "ss_patches (fst sw') = ss_patches s" by auto
    have "keeps_mocks (s, w) sw'" by (rule keeps_mocks_trans [OF _ sw'(3)]) simp
    with False step sw' show ?thesis by (simp add: remove_global_routes.simps [of s w])
  qed
qed

section \<open>The code\<close>

context code_host
begin

text \<open>Taking back the last patch, and dropping its relay, is one step of \<open>undo\<close>.\<close>

lemma session_inv_popped:
  assumes "session_inv H mem code held m0 l0 g0 t (s, w)" "ss_patches s \<noteq> []"
    and k1: "held k1" "same_on code (mem k1) (write_bytes (mem (pr_system (mc_process w)))
      (pt_address (last (ss_patches s))) (pt_original (last (ss_patches s))))"
    and k2: "keeps_code code mem held k1 k2"
  shows "session_inv H mem code held m0 l0 g0 t
    (s\<lparr>ss_patches := butlast (ss_patches s)\<rparr>, w\<lparr>mc_process := (mc_process w)\<lparr>pr_system := k2\<rparr>\<rparr>)"
proof -
  let ?p = "last (ss_patches s)" and ?m = "mem (pr_system (mc_process w))"
  have "same_on code (mem k2) (write_bytes ?m (pt_address ?p) (pt_original ?p))"
    using k1 k2 by (auto simp: keeps_code_def intro: same_on_trans)
  from same_on_undo [OF this, of "butlast (ss_patches s)"] assms(2)
  have "same_on code (undo (butlast (ss_patches s)) (mem k2)) (undo (ss_patches s) ?m)"
    using undo_snoc [of "butlast (ss_patches s)" ?p ?m] by simp
  with assms show ?thesis
    by (auto simp: session_inv_simps keeps_code_def dest: in_set_butlastD intro: same_on_trans)
qed

lemma restore_code_inv:
  assumes "session_inv H mem code held m0 l0 g0 t sw"
  shows "leaves (restore_code H sw) (\<lambda>r sw'. settles r \<and> keeps_mocks sw sw' \<and>
    (r \<noteq> Aborts \<longrightarrow> session_inv H mem code held m0 l0 g0 t sw') \<and> (r = Ok () \<longrightarrow> ss_patches (fst sw') = []) \<and>
    ss_global_routes (fst sw') = ss_global_routes (fst sw) \<and>
    ss_local_patches (fst sw') = ss_local_patches (fst sw))"
  using assms
proof (induction sw rule: wf_induct_rule [OF wf_measure [of "\<lambda>sw. length (ss_patches (fst sw))"]])
  case (1 sw)
  obtain s w where sw: "sw = (s, w)" by (cases sw)
  show ?case (is "leaves _ ?Q")
  proof (cases "ss_patches s = []")
    case True
    with 1(2) show ?thesis by (simp add: sw restore_code.simps)
  next
    case False
    let ?p = "last (ss_patches s)" and ?k = "pr_system (mc_process w)"
    let ?s = "s\<lparr>ss_patches := butlast (ss_patches s)\<rparr>"
    let ?w = "\<lambda>k. w\<lparr>mc_process := (mc_process w)\<lparr>pr_system := k\<rparr>\<rparr>"
    have glob: "held ?k" "relay_ok H code (pt_relay ?p)"
      using 1(2) False by (auto simp: session_inv_simps sw split: if_splits)
    have go: "leaves (restore_code H (?s, ?w k2)) ?Q"
      if "session_inv H mem code held m0 l0 g0 t (?s, ?w k2)" for k2
    proof -
      have "((?s, ?w k2), sw) \<in> measure (\<lambda>sw. length (ss_patches (fst sw)))" using False by (simp add: sw)
      from 1(1) [OF this that] show ?thesis
        by (rule leaves_mono) (auto simp: sw intro: keeps_mocks_trans [of _ "(?s, ?w k2)"])
    qed
    have unfold: "restore_code H (s, w) =
        andThen (in_process (in_system (host_write H (pt_address ?p) (pt_replacement ?p) (pt_original ?p))) (s, w)) (\<lambda>_ sw.
        andThen (in_process (in_system (drop_relay H (pt_relay ?p)))
            ((fst sw)\<lparr>ss_patches := butlast (ss_patches (fst sw))\<rparr>, snd sw)) (\<lambda>_. restore_code H))"
      using False by (subst restore_code.simps) (simp add: Let_def)
    let ?R = "\<lambda>r k1. (r = Ok () \<longrightarrow> held k1 \<and>
          same_on code (mem k1) (write_bytes (mem ?k) (pt_address ?p) (pt_original ?p))) \<and>
        (\<forall>e. r = Err e \<longrightarrow> keeps_code code mem held ?k k1)"
    have "leaves (restore_code H (s, w)) ?Q" unfolding unfold
    proof (rule system_then [where R = ?R])
      show "leaves (host_write H (pt_address ?p) (pt_replacement ?p) (pt_original ?p) ?k) (\<lambda>r k. settles r \<and> ?R r k)"
        by (rule leaves_mono [OF host_write_law [OF glob(1)]]) blast
      fix v k1
      assume "?R (Ok v) k1"
      then have k1: "held k1" "same_on code (mem k1) (write_bytes (mem ?k) (pt_address ?p) (pt_original ?p))" by simp_all
      have drop: "leaves (drop_relay H (pt_relay ?p) k1)
          (\<lambda>r k2. settles r \<and> (r \<noteq> Aborts \<longrightarrow> r = Ok () \<and> keeps_code code mem held k1 k2))"
        by (rule leaves_mono [OF drop_relay_law [OF glob(2)]]) auto
      show "leaves (andThen (in_process (in_system (drop_relay H (pt_relay ?p)))
         ((fst (s, ?w k1))\<lparr>ss_patches := butlast (ss_patches (fst (s, ?w k1)))\<rparr>, snd (s, ?w k1))) (\<lambda>_. restore_code H)) ?Q"
        unfolding fst_conv snd_conv
        by (rule system_then [where R = "\<lambda>r k2. r \<noteq> Aborts \<longrightarrow> r = Ok () \<and> keeps_code code mem held k1 k2"])
          (use drop go [OF session_inv_popped [OF 1(2) [unfolded sw] False k1]] in \<open>auto simp: sw\<close>)
    qed (use 1(2) session_inv_system [of m0 l0 g0 t s w] in \<open>simp_all add: sw\<close>)
    then show ?thesis by (simp only: sw)
  qed
qed

lemma restore_patches_inv:
  assumes "session_inv H mem code held m0 l0 g0 t sw"
  shows "leaves (restore_patches H t sw) (\<lambda>r sw'. settles r \<and> keeps_mocks sw sw' \<and>
    (r \<noteq> Aborts \<longrightarrow> session_inv H mem code held m0 l0 g0 t sw') \<and> ss_local_patches (fst sw') = [] \<and>
    ss_global_routes (fst sw') = [] \<and> (r = Ok () \<longrightarrow> ss_patches (fst sw') = []))"
proof -
  note l1 = remove_local_routes_inv [OF assms]
  from remove_global_routes_inv [OF conjunct1 [OF l1]] obtain sw2 where
    l2: "remove_global_routes (remove_local_routes t sw) = (Ok (), sw2)" "session_inv H mem code held m0 l0 g0 t sw2"
      "keeps_mocks (remove_local_routes t sw) sw2" "ss_global_routes (fst sw2) = []"
      "ss_local_patches (fst sw2) = []" using l1 by auto
  have "keeps_mocks sw2 sw' \<Longrightarrow> keeps_mocks sw sw'" for sw'
    using l1 l2(3) by (blast intro: keeps_mocks_trans)
  with l2(4,5) show ?thesis unfolding restore_patches_def l2(1)
    by (auto intro: leaves_mono [OF restore_code_inv [OF l2(2)]])
qed

end

section \<open>Detaching the mocks\<close>

definition detached :: "thread \<Rightarrow> detach \<Rightarrow> ('r, 'k) machine \<Rightarrow> bool" where
  "detached t d w \<longleftrightarrow>
     (case d of
        Detach_site i local \<Rightarrow>
          (if local then sl_local (mc_slots w i) t = None
           else sl_global (mc_slots w i) = None \<and> \<not> sl_active (mc_slots w i))
      | Detach_poll address local \<Rightarrow>
          find_entry (if local then rg_local (mc_registry w) t else rg_global (mc_registry w)) address = None)"

lemma drop_mock_simps [simp]:
  "mc_process (drop_mock t m w) = mc_process w" "mc_heap (drop_mock t m w) = mc_heap w"
  "mc_locks (drop_mock t m w) = mc_locks w"
  "st_active (mc_states (drop_mock t m w) i) \<longleftrightarrow> st_active (mc_states w i) \<and> i \<noteq> om_control m"
  by (auto simp: drop_mock_def run_detach_def Let_def deactivate_def split: detach.splits)

lemma drop_mock_detached:
  "detached t d w \<or> d = om_detach m \<Longrightarrow> detached t d (drop_mock t m w)"
  by (cases d; cases "om_detach m")
    (auto simp: drop_mock_def run_detach_def Let_def detached_def detach_slot_def remove_entry_def find_entry_filter)

lemma detach_mocks_keeps:
  "mc_process (fold (drop_mock t) ms w) = mc_process w \<and> mc_heap (fold (drop_mock t) ms w) = mc_heap w \<and>
   mc_locks (fold (drop_mock t) ms w) = mc_locks w"
  by (induction ms arbitrary: w) simp_all

lemma detach_mocks_inactive:
  "st_active (mc_states (fold (drop_mock t) ms w) i) \<longleftrightarrow> st_active (mc_states w i) \<and> i \<notin> om_control ` set ms"
  by (induction ms arbitrary: w) auto

lemma detach_mocks_detached:
  "detached t d w \<or> d \<in> om_detach ` set ms \<Longrightarrow> detached t d (fold (drop_mock t) ms w)"
proof (induction ms arbitrary: w)
  case (Cons m ms)
  then have "detached t d (drop_mock t m w) \<or> d \<in> om_detach ` set ms"
    using drop_mock_detached [of t d w m] by auto
  from Cons.IH [OF this] show ?case by simp
qed simp

lemma session_inv_machine:
  "mc_process w' = mc_process w \<Longrightarrow> session_inv H mem code held m0 l0 g0 t (s, w') = session_inv H mem code held m0 l0 g0 t (s, w)"
  by (simp add: session_inv_def)

lemma session_inv_mocks:
  "session_inv H mem code held m0 l0 g0 t (s\<lparr>ss_mocks := ms\<rparr>, w) = session_inv H mem code held m0 l0 g0 t (s, w)"
  by (simp add: session_inv_simps)

lemma detach_mocks_inv:
  assumes "session_inv H mem code held m0 l0 g0 t sw"
  shows "session_inv H mem code held m0 l0 g0 t (detach_mocks t sw)"
  using assms session_inv_machine [of "fold (drop_mock t) (ss_mocks (fst sw)) (snd sw)" "snd sw"]
  by (simp add: detach_mocks_def session_inv_mocks detach_mocks_keeps)

section \<open>Runs of a session\<close>

text \<open>
  The thread of the session installs, replaces, restores and calls mocks in any order, and other
  threads call mocks; every call may fail. A run ends when the process does.
\<close>

inductive session_op ::
  "'k host \<Rightarrow> thread \<Rightarrow> session \<times> ('r, 'k) machine \<Rightarrow> session \<times> ('r, 'k) machine \<Rightarrow> bool"
  for H t where
  Raw: "replace_raw H source target sw = (r, sw') \<Longrightarrow> r \<noteq> Aborts \<Longrightarrow> session_op H t sw sw'"
| Replaced: "replace_function H t source dispatcher target sw = (r, sw') \<Longrightarrow> r \<noteq> Aborts \<Longrightarrow>
    session_op H t sw sw'"
| Mocked: "install_mock H t source target control d sw = (r, sw') \<Longrightarrow> r \<noteq> Aborts \<Longrightarrow>
    session_op H t sw sw'"
| Restored: "restore H t sw = (r, sw') \<Longrightarrow> r \<noteq> Aborts \<Longrightarrow> session_op H t sw sw'"
| Calls: "session_op H t (s, w) (s, w\<lparr>mc_heap := h, mc_states := sts\<rparr>)"

inductive_cases session_opE: "session_op H t sw sw'"

lemma check_Aborts [simp]: "check r = Aborts \<longleftrightarrow> r = Aborts"
  by (cases r) simp_all

lemma new_session_inv:
  "process_ok (mc_process w) \<Longrightarrow> held (pr_system (mc_process w)) \<Longrightarrow> session_inv H mem code held (mem (pr_system (mc_process w))) (pr_local (mc_process w) t)
     (global_on (mc_process w)) t (new_session lock, w)"
  by (simp add: session_inv_simps new_session_def)

lemma replace_local_inv:
  assumes "session_inv H mem code held m0 l0 g0 t (s, w)" "is_local s"
    "replace_local H t source dispatcher target (s, w) = (r, sw')"
  shows "session_inv H mem code held m0 l0 g0 t sw' \<and> keeps_mocks (s, w) sw' \<and>
    (r \<noteq> Ok () \<longrightarrow> fst sw' = s \<and> pr_local (mc_process (snd sw')) t = pr_local (mc_process w) t)"
proof -
  obtain r1 pr where i: "install_replacement H t source dispatcher target (mc_process w) = (r1, pr)"
    by (cases "install_replacement H t source dispatcher target (mc_process w)")
  have "process_ok (mc_process w)" using assms(1) by (simp add: session_inv_simps)
  from install_replacement_inv [OF assms(1,2) i] install_replacement_ok [OF this i] assms(3) i show ?thesis
    by (cases r1) (auto simp: replace_local_def in_process_def)
qed

lemma install_mock_local:
  "is_local (fst sw) \<Longrightarrow> install_mock H t source target control d sw =
   (let m = \<lparr>om_control = control, om_detach = d\<rparr>; (r, s, w) = replace_local H t source target target sw
    in case r of Ok _ \<Rightarrow> (Ok (), s\<lparr>ss_mocks := ss_mocks s @ [m]\<rparr>, w)
       | Err e \<Rightarrow> (Err e, s, drop_mock t m w) | Panics p \<Rightarrow> (Panics p, s, drop_mock t m w)
       | Aborts \<Rightarrow> (Aborts, s, w) | Diverges \<Rightarrow> (Diverges, s, w))"
  by (simp add: install_mock_def replace_local_def in_process_def install_def)

context code_host
begin

lemma replace_raw_inv:
  assumes "session_inv H mem code held m0 l0 g0 t sw" "replace_raw H source target sw = (r, sw')" "r \<noteq> Aborts"
  shows "session_inv H mem code held m0 l0 g0 t sw'"
proof -
  obtain s w where sw: "sw = (s, w)" by (cases sw)
  obtain r1 sw1 where q: "install_raw H source target sw = (r1, sw1)" by (cases "install_raw H source target sw")
  from leavesD [OF install_raw_inv [OF assms(1) [unfolded sw]] q [unfolded sw]] assms(2,3) show ?thesis
    by (simp add: replace_raw_def q) (metis check_Aborts)
qed

lemma install_mock_inv:
  assumes "session_inv H mem code held m0 l0 g0 t sw" "install_mock H t source target control d sw = (r, sw')" "r \<noteq> Aborts"
  shows "session_inv H mem code held m0 l0 g0 t sw' \<and> ss_lock (fst sw') = ss_lock (fst sw) \<and>
    (r = Ok () \<longrightarrow> ss_mocks (fst sw') = ss_mocks (fst sw) @ [\<lparr>om_control = control, om_detach = d\<rparr>]) \<and>
    (\<forall>e. r = Err e \<longrightarrow> fst sw' = fst sw \<and> \<not> st_active (mc_states (snd sw') control) \<and> detached t d (snd sw') \<and>
       pr_local (mc_process (snd sw')) t = pr_local (mc_process (snd sw)) t \<and>
       (\<not> is_local (fst sw) \<longrightarrow>
          keeps_code code mem held (pr_system (mc_process (snd sw))) (pr_system (mc_process (snd sw')))))"
proof -
  obtain s w where sw: "sw = (s, w)" by (cases sw)
  let ?m = "\<lparr>om_control = control, om_detach = d\<rparr>"
  obtain r1 s1 w1 where i: "(if is_local s then replace_local H t source target target sw
      else install_raw H source target sw) = (r1, s1, w1)"
    by (metis prod_cases3)
  have run: "(r, sw') = (case r1 of Ok _ \<Rightarrow> (Ok (), s1\<lparr>ss_mocks := ss_mocks s1 @ [?m]\<rparr>, w1)
       | Err e \<Rightarrow> (Err e, s1, drop_mock t ?m w1) | Panics p \<Rightarrow> (Panics p, s1, drop_mock t ?m w1)
       | Aborts \<Rightarrow> (Aborts, s1, w1) | Diverges \<Rightarrow> (Diverges, s1, w1))"
  proof (cases "is_local s")
    case True
    with assms(2) i show ?thesis by (simp add: sw install_mock_local Let_def)
  next
    case False
    with assms(2) i show ?thesis by (simp add: sw install_mock_def Let_def)
  qed
  have law: "(r1 \<noteq> Aborts \<longrightarrow> session_inv H mem code held m0 l0 g0 t (s1, w1)) \<and> ss_lock s1 = ss_lock s \<and>
      ss_mocks s1 = ss_mocks s \<and>
      (r1 \<noteq> Ok () \<longrightarrow> s1 = s \<and> pr_local (mc_process w1) t = pr_local (mc_process w) t) \<and>
      (\<not> is_local s \<longrightarrow> (\<exists>e. r1 = Err e) \<longrightarrow> keeps_code code mem held (pr_system (mc_process w)) (pr_system (mc_process w1)))"
  proof (cases "is_local s")
    case True
    from replace_local_inv [OF assms(1) [unfolded sw] True] i True show ?thesis
      by (auto simp: sw keeps_mocks_def)
  next
    case False
    from leavesD [OF install_raw_inv [OF assms(1) [unfolded sw]]] i False show ?thesis
      by (auto simp: sw keeps_mocks_def)
  qed
  from run law assms(3) drop_mock_detached [of t d w1 ?m] show ?thesis
    by (cases r1) (auto simp: sw session_inv_mocks session_inv_machine [of "drop_mock t ?m w1" w1])
qed

lemma restore_inv:
  assumes "session_inv H mem code held m0 l0 g0 t sw" "restore H t sw = (r, sw')" "r \<noteq> Aborts"
  shows "session_inv H mem code held m0 l0 g0 t sw'"
proof -
  obtain r1 sw1 where q: "restore_patches H t sw = (r1, sw1)" by (cases "restore_patches H t sw")
  from leavesD [OF restore_patches_inv [OF assms(1)] q] assms(2,3) q detach_mocks_inv [of H mem code held m0 l0 g0 t sw1]
  show ?thesis by (cases r1) (auto simp: restore_def)
qed

lemma session_op_inv:
  assumes "session_op H t sw sw'" "session_inv H mem code held m0 l0 g0 t sw"
  shows "session_inv H mem code held m0 l0 g0 t sw'"
  using assms
proof (cases rule: session_op.cases)
  case (Raw source target r)
  with assms(2) show ?thesis by (blast intro: replace_raw_inv)
next
  case (Replaced source dispatcher target r)
  obtain s w where sw: "sw = (s, w)" by (cases sw)
  show ?thesis
  proof (cases "is_local s")
    case True
    obtain r1 sw1 where q: "replace_local H t source dispatcher target (s, w) = (r1, sw1)"
      by (cases "replace_local H t source dispatcher target (s, w)")
    from replace_local_inv [OF assms(2) [unfolded sw] True q] Replaced(1) True q show ?thesis
      by (simp add: replace_function_def sw)
  next
    case False
    with Replaced replace_raw_inv [OF assms(2)] show ?thesis by (simp add: replace_function_def sw)
  qed
next
  case (Mocked source target control d r)
  with assms(2) install_mock_inv show ?thesis by blast
next
  case (Restored r)
  with assms(2) restore_inv show ?thesis by blast
next
  case Calls
  with assms(2) show ?thesis by (simp add: session_inv_def)
qed

lemma session_run_inv:
  "(session_op H t)\<^sup>*\<^sup>* sw sw' \<Longrightarrow> session_inv H mem code held m0 l0 g0 t sw \<Longrightarrow> session_inv H mem code held m0 l0 g0 t sw'"
  by (induction rule: rtranclp_induct) (auto intro: session_op_inv)

end

lemma verify_mocks_keeps:
  "mc_states w' = mc_states w \<Longrightarrow> mc_heap w' = mc_heap w \<Longrightarrow> verify_mocks ms w' = verify_mocks ms w"
  by (induction ms) simp_all

lemma keeps_mocks_verdict: "keeps_mocks sw sw' \<Longrightarrow>
   check_expectations (fst sw') (snd sw') = check_expectations (fst sw) (snd sw)"
  by (auto simp: keeps_mocks_def check_expectations_def intro: verify_mocks_keeps)

lemma check_expectations_returns: "returns (check_expectations s w)"
proof -
  have "returns (verify_mocks ms w)" for ms
    by (induction ms) (auto simp: result_simps)
  then show ?thesis by (simp add: check_expectations_def)
qed

lemma release_session_laws:
  assumes "w' = release_session unwinding t (s, w)"
  shows "mc_process w' = mc_process w" "mc_locks w' = drop_lock (ss_lock s) unwinding t (mc_locks w)"
    "\<And>m. m \<in> set (ss_mocks s) \<Longrightarrow> \<not> st_active (mc_states w' (om_control m)) \<and> detached t (om_detach m) w'"
proof -
  have locks: "detached t d (w\<lparr>mc_locks := l\<rparr>) = detached t d w" for d l and w :: "('r, 'k) machine"
    by (simp add: detached_def split: detach.splits)
  show "mc_process w' = mc_process w" "mc_locks w' = drop_lock (ss_lock s) unwinding t (mc_locks w)"
    using detach_mocks_keeps [of t "ss_mocks s" w] by (simp_all add: assms release_session_def detach_mocks_def)
  show "\<not> st_active (mc_states w' (om_control m)) \<and> detached t (om_detach m) w'" if "m \<in> set (ss_mocks s)" for m
    using that detach_mocks_detached [of t "om_detach m" w "ss_mocks s"]
    by (simp add: assms release_session_def detach_mocks_def detach_mocks_inactive locks)
qed

section \<open>Properties of a session\<close>

text \<open>
  C2: A session gives back what it took, on x86-64, on ARM64 with its relay pages, and on Apple
  silicon. Whatever a thread did in a session (raw replacements, local replacements, mocks, restores,
  calls, with any outcome), once \<^verbatim>\<open>restore_patches\<close> succeeds the thread has exactly the routes it had when
  the session was opened, the global routes in force are those of that moment, and after a global
  session every byte of the program's code is as it was. Taking back never unwinds: it succeeds,
  reports an error that leaves the rest for another attempt, or ends the process.
\<close>

theorem session_gives_back:
  assumes "code_contract H mem code held" "running H (mc_process w)" "held (pr_system (mc_process w))"
    "(session_op H t)\<^sup>*\<^sup>* (new_session lock, w) (s', w')" "restore_patches H t (s', w') = (r, s'', w'')"
  shows "(r = Ok () \<or> (\<exists>e. r = Err e) \<or> r = Aborts) \<and>
    (r = Ok () \<longrightarrow> ss_patches s'' = [] \<and> ss_local_patches s'' = [] \<and> ss_global_routes s'' = [] \<and>
       pr_local (mc_process w'') t = pr_local (mc_process w) t \<and>
       global_on (mc_process w'') = global_on (mc_process w) \<and>
       (ss_lock s'' = GlobalLock \<longrightarrow>
          same_on code (mem (pr_system (mc_process w''))) (mem (pr_system (mc_process w)))))"
proof -
  have host: "code_host H mem code held" using assms(1) by (rule code_host.intro)
  let ?inv = "session_inv H mem code held (mem (pr_system (mc_process w))) (pr_local (mc_process w) t)
      (global_on (mc_process w)) t"
  have "?inv (s', w')"
    using code_host.session_run_inv [OF host assms(4)] new_session_inv [where held = held, OF running_ok [OF assms(2)] assms(3)] by blast
  from leavesD [OF code_host.restore_patches_inv [OF host this] assms(5)]
  have law: "settles r" "r \<noteq> Aborts \<longrightarrow> ?inv (s'', w'')" "ss_local_patches s'' = []" "ss_global_routes s'' = []"
    "r = Ok () \<longrightarrow> ss_patches s'' = []" by simp_all
  from law(1) have "r = Ok () \<or> (\<exists>e. r = Err e) \<or> r = Aborts" by (cases r) (simp_all add: settles_def)
  with law show ?thesis by (auto simp: session_inv_simps)
qed

definition sample_machine :: "('r, sim) machine" where
  "sample_machine = \<lparr>mc_process = sample_process, mc_heap = \<lparr>seqs = (\<lambda>_. new_progress), metas = (\<lambda>_. new_meta [] (from_usize 0)), fresh_meta = 0\<rparr>,
     mc_states = (\<lambda>_. new_state []), mc_slots = (\<lambda>_. empty_slot), mc_registry = empty_registry,
     mc_locks = fst no_sessions\<rparr>"

definition sample_patch :: patch where
  "sample_patch = \<lparr>pt_entry = 4096, pt_address = 4096, pt_original = [0x55, 0x48, 0x89, 0xe5, 0x5d],
     pt_replacement = [0xe9, 0xfb, 0x0f, 0, 0], pt_relay = None\<rparr>"

definition with_code :: "memory \<Rightarrow> ('r, sim) machine" where
  "with_code m = sample_machine\<lparr>mc_process := fresh_process (sample_state m)\<rparr>"

lemma sample_raw_plan: "plan 4096 8192 sample_bytes = Ok \<lparr>plan_offset = 0,
   plan_original = [0x55, 0x48, 0x89, 0xe5, 0x5d], plan_replacement = [0xe9, 0xfb, 0x0f, 0, 0]\<rparr>"
proof -
  have "jump 4096 8192 = Ok [0xe9, 0xfb, 0x0f, 0, 0]"
    by (simp add: jump_def checked_add_def usize_defs i32_try_from_def i32_to_le_def le_bytes_numeral)
  moreover have "plan_length sample_bytes (length [0xe9 :: u8, 0xfb, 0x0f, 0, 0]) 0 = Ok 5"
    using sample_insns by (simp add: plan_length.simps slice_from_def sample_bytes_def)
  moreover have "\<not> starts_with sample_bytes ENDBR64" by (simp add: starts_with_def sample_bytes_def ENDBR64_def)
  moreover have "slice_from sample_bytes 0 = Ok sample_bytes" "slice_to sample_bytes 5 = Ok [0x55, 0x48, 0x89, 0xe5, 0x5d]"
    by (simp_all add: slice_from_def slice_to_def sample_bytes_def)
  ultimately show ?thesis by (simp add: plan_def Let_def checked_add_def usize_defs)
qed

lemma sample_raw:
  "replace_raw sim_host 4096 8192 (new_session GlobalLock, with_code sample_code) =
   (Ok (), (new_session GlobalLock)\<lparr>ss_patches := [sample_patch]\<rparr>,
    with_code (write_bytes sample_code 4096 (pt_replacement sample_patch)))"
proof -
  have r: "memory_read (linux_platform sim_kernel) 8192 1 (sample_state sample_code) =
      (Ok (fetch sample_code 8192 1), sample_state sample_code)"
    "memory_read (linux_platform sim_kernel) 4096 MAX_PREFIX (sample_state sample_code) =
      (Ok sample_bytes, sample_state sample_code)"
    using sample_memory_read [of 2 0 1 sample_code] sample_memory_read [of 1 0 32 sample_code] sample_prefix_bytes
    by (simp_all add: MAX_PREFIX_def sample_bytes_def)
  have "fetch sample_code 4096 5 = [0x55, 0x48, 0x89, 0xe5, 0x5d]"
    by (simp add: fetch_def sample_code_def write_bytes_def upt_rec)
  then have "memory_write (linux_platform sim_kernel) 4096 [0x55, 0x48, 0x89, 0xe5, 0x5d] [0xe9, 0xfb, 0x0f, 0, 0]
     (sample_state sample_code) = (Ok (), sample_state (write_bytes sample_code 4096 [0xe9, 0xfb, 0x0f, 0, 0]))"
    using sample_replace [of 1 0 "[0x55, 0x48, 0x89, 0xe5, 0x5d]" "[0xe9, 0xfb, 0x0f, 0, 0]" sample_code]
    by (simp add: memory_write_def fetch_def upt_rec)
  with r show ?thesis
    by (simp add: replace_raw_def install_raw_def patch_source_def new_session_def with_code_def sample_machine_def
        fresh_process_def is_local_def in_process_def in_system_def global_route_def sample_raw_plan sample_patch_def
        checked_add_def usize_defs overlaps_def raw_relay_def dropping_relay_def write_patch_def patch_taken_def)
qed

lemma sample_raw_restored:
  "restore_patches sim_host 0 ((new_session GlobalLock)\<lparr>ss_patches := [sample_patch]\<rparr>,
      with_code (write_bytes sample_code 4096 (pt_replacement sample_patch))) =
   (Ok (), new_session GlobalLock, with_code (write_bytes (write_bytes sample_code 4096
      (pt_replacement sample_patch)) 4096 (pt_original sample_patch)))"
proof -
  let ?m = "write_bytes sample_code 4096 (pt_replacement sample_patch)"
  have len: "length (pt_replacement sample_patch) = 5" "length (pt_original sample_patch) = 5"
    by (simp_all add: sample_patch_def)
  then have "pt_replacement sample_patch \<noteq> []" by auto
  moreover have "fetch ?m 4096 5 = pt_replacement sample_patch"
    using fetch_write_bytes [of sample_code 4096 "pt_replacement sample_patch"] len by simp
  ultimately have "memory_write (linux_platform sim_kernel) 4096 (pt_replacement sample_patch) (pt_original sample_patch)
     (sample_state ?m) = (Ok (), sample_state (write_bytes ?m 4096 (pt_original sample_patch)))"
    using sample_replace [of 1 0 "pt_replacement sample_patch" "pt_original sample_patch" ?m]
    using len by (simp add: memory_write_def)
  moreover have "pt_address sample_patch = 4096" by (simp add: sample_patch_def)
  ultimately show ?thesis
    by (simp add: restore_patches_def remove_local_routes.simps remove_global_routes.simps restore_code.simps
        new_session_def with_code_def fresh_process_def drop_relay_def sample_patch_def in_process_def in_system_def)
qed

lemma sample_raw_run:
  "(session_op sim_host 0)\<^sup>*\<^sup>* (new_session GlobalLock, with_code sample_code)
    ((new_session GlobalLock)\<lparr>ss_patches := [sample_patch]\<rparr>,
     with_code (write_bytes sample_code 4096 (pt_replacement sample_patch)))"
  by (rule r_into_rtranclp, rule session_op.Raw [OF sample_raw]) simp

lemma sample_start: "running sim_host (mc_process (with_code sample_code))"
  using sample_running by (simp add: with_code_def)

text \<open>The same on ARM64: a landing pad and a return at 4096, replaced through a relay at 32768.\<close>

definition arm_code :: memory where
  "arm_code = write_bytes (\<lambda>_. 0) 4096 (u32_to_le 0xd503245f @ u32_to_le 0xd65f03c0)"

definition arm_relayed :: memory where
  "arm_relayed = write_bytes arm_code 32768 (u32_to_le 0x17ffe800)"

definition arm_patch :: patch where
  "arm_patch = \<lparr>pt_entry = 4096, pt_address = 4100, pt_original = u32_to_le 0xd65f03c0,
     pt_replacement = u32_to_le 0x14001bff, pt_relay = Some \<lparr>ex_address = 32768, ex_sealed = True\<rparr>\<rparr>"

lemma arm_raw_jumps:
  "arm_jump 32768 8192 = Ok (u32_to_le 0x17ffe800)" "arm_jump 4100 32768 = Ok (u32_to_le 0x14001bff)"
proof -
  have "relative 32768 8192 26 = Ok 0x3ffe800" "relative 4100 32768 26 = Ok 0x1bff"
    by (simp_all add: relative_def mask_numeral)
  then show "arm_jump 32768 8192 = Ok (u32_to_le 0x17ffe800)" "arm_jump 4100 32768 = Ok (u32_to_le 0x14001bff)"
    by (simp_all add: arm_jump_def aligned_def emit_word_def)
qed

lemma arm_raw_bytes: "fetch arm_code 4096 32 = u32_to_le 0xd503245f @ u32_to_le 0xd65f03c0 @ replicate 24 0"
  by (simp add: fetch_def arm_code_def write_bytes_def upt_rec u32_to_le_def le_bytes_numeral)
    (simp add: numeral_eq_Suc)

lemma arm_raw_plan:
  "arm_plan 4096 32768 (u32_to_le 0xd503245f @ u32_to_le 0xd65f03c0 @ replicate 24 0) =
     Ok \<lparr>plan_offset = 4, plan_original = u32_to_le 0xd65f03c0, plan_replacement = u32_to_le 0x14001bff\<rparr>"
proof -
  have "chunks4 (u32_to_le w) = [u32_to_le w]" for w
    by (simp add: u32_to_le_def le_bytes_numeral)
  with arm_raw_jumps show ?thesis
    by (simp add: arm_plan_def aligned_def arm_word_def le_simps checked_add_def usize_defs valid_word_def)
qed

lemma arm_raw_relay:
  "raw_relay sim_arm_host 4096 8192 (sample_state arm_code) =
   (Ok (32768, Some \<lparr>ex_address = 32768, ex_sealed = True\<rparr>), sample_state arm_relayed)"
  using sim_near [of "h_pages sim_arm_host"]
  by (simp add: raw_relay_def arm_raw_jumps publish_def CAPACITY_def sim_copy_def sample_state_def arm_relayed_def
      dropping_def u32_to_le_def le_bytes_numeral)

lemma arm_raw:
  "replace_raw sim_arm_host 4096 8192 (new_session GlobalLock, with_code arm_code) =
   (Ok (), (new_session GlobalLock)\<lparr>ss_patches := [arm_patch]\<rparr>,
    with_code (write_bytes arm_relayed 4100 (pt_replacement arm_patch)))"
proof -
  have "memory_read (linux_platform sim_kernel) 8192 1 (sample_state arm_code) =
      (Ok (fetch arm_code 8192 1), sample_state arm_code)"
    "memory_read (linux_platform sim_kernel) 4096 MAX_PREFIX (sample_state arm_code) =
      (Ok (u32_to_le 0xd503245f @ u32_to_le 0xd65f03c0 @ replicate 24 0), sample_state arm_code)"
    using sample_memory_read [of 2 0 1 arm_code] sample_memory_read [of 1 0 32 arm_code] arm_raw_bytes
    by (simp_all add: MAX_PREFIX_def)
  moreover have now: "fetch arm_relayed 4100 4 = u32_to_le 0xd65f03c0"
    by (simp add: fetch_def arm_relayed_def arm_code_def write_bytes_def upt_rec u32_to_le_def le_bytes_numeral)
  have "memory_write (linux_platform sim_kernel) 4100 (u32_to_le 0xd65f03c0) (u32_to_le 0x14001bff)
     (sample_state arm_relayed) = (Ok (), sample_state (write_bytes arm_relayed 4100 (u32_to_le 0x14001bff)))"
    using sample_replace [of 1 4 "u32_to_le 0xd65f03c0" "u32_to_le 0x14001bff" arm_relayed] now
    by (simp add: memory_write_def flip: length_greater_0_conv)
  ultimately show ?thesis
    by (simp add: replace_raw_def install_raw_def patch_source_def new_session_def with_code_def sample_machine_def
        fresh_process_def is_local_def in_process_def in_system_def global_route_def arm_raw_relay arm_raw_plan
        arm_patch_def checked_add_def usize_defs overlaps_def dropping_relay_def dropping_def write_patch_def patch_taken_def)
qed

lemma arm_raw_restored:
  "restore_patches sim_arm_host 0 ((new_session GlobalLock)\<lparr>ss_patches := [arm_patch]\<rparr>,
      with_code (write_bytes arm_relayed 4100 (pt_replacement arm_patch))) =
   (Ok (), new_session GlobalLock, with_code (write_bytes (write_bytes arm_relayed 4100
      (pt_replacement arm_patch)) 4100 (pt_original arm_patch)))"
proof -
  let ?m = "write_bytes arm_relayed 4100 (pt_replacement arm_patch)"
  have len: "length (pt_replacement arm_patch) = 4" "length (pt_original arm_patch) = 4"
    by (simp_all add: arm_patch_def)
  then have "pt_replacement arm_patch \<noteq> []" by auto
  moreover have "fetch ?m 4100 4 = pt_replacement arm_patch"
    using fetch_write_bytes [of arm_relayed 4100 "pt_replacement arm_patch"] len by simp
  ultimately have "memory_write (linux_platform sim_kernel) 4100 (pt_replacement arm_patch) (pt_original arm_patch)
     (sample_state ?m) = (Ok (), sample_state (write_bytes ?m 4100 (pt_original arm_patch)))"
    using sample_replace [of 1 4 "pt_replacement arm_patch" "pt_original arm_patch" ?m] len
    by (simp add: memory_write_def)
  moreover have "pt_address arm_patch = 4100" by (simp add: arm_patch_def)
  ultimately show ?thesis
    by (simp add: restore_patches_def remove_local_routes.simps remove_global_routes.simps restore_code.simps
        new_session_def with_code_def fresh_process_def drop_relay_def drop_page_def in_process_def in_system_def
        split: option.splits)
qed

theorem session_gives_back_witness:
  "\<exists>s w. restore_patches sim_arm_host 0 ((new_session GlobalLock)\<lparr>ss_patches := [arm_patch]\<rparr>,
      with_code (write_bytes arm_relayed 4100 (pt_replacement arm_patch)) :: (unit, sim) machine) = (Ok (), s, w) \<and>
     same_on {..<32768} (sm_bytes (pr_system (mc_process w))) arm_code"
proof -
  let ?w = "with_code arm_code :: (unit, sim) machine"
  have run: "(session_op sim_arm_host 0)\<^sup>*\<^sup>* (new_session GlobalLock, ?w)
    ((new_session GlobalLock)\<lparr>ss_patches := [arm_patch]\<rparr>, with_code (write_bytes arm_relayed 4100 (pt_replacement arm_patch)))"
    by (rule r_into_rtranclp, rule session_op.Raw [OF arm_raw]) simp
  have start: "running sim_arm_host (mc_process ?w)" using sample_running by (simp add: with_code_def)
  have "ss_lock (new_session GlobalLock) = GlobalLock" by (simp add: new_session_def)
  with session_gives_back [OF sim_contracts(2) start TrueI run arm_raw_restored]
  have "same_on {..<32768} (sm_bytes (pr_system (mc_process (with_code (write_bytes (write_bytes arm_relayed 4100
      (pt_replacement arm_patch)) 4100 (pt_original arm_patch)) :: (unit, sim) machine))))
      (sm_bytes (pr_system (mc_process ?w)))" by blast
  moreover have "sm_bytes (pr_system (mc_process ?w)) = arm_code"
    by (simp add: with_code_def fresh_process_def sample_state_def)
  ultimately show ?thesis using arm_raw_restored by fastforce
qed

text \<open>
  C13: The end of a session. Dropping it never returns an error and never waits. The process ends
  exactly when the code could not be restored. Otherwise the routes and the code are those from
  before the session, every mock of the session is detached from its site and deactivated, the
  session lock is released, and the thread unwinds exactly when an expectation failed and it was
  not unwinding already, with the message of the first failure.
\<close>

theorem session_drop_cleans_up:
  assumes "code_contract H mem code held" "running H (mc_process w)" "held (pr_system (mc_process w))"
    "(session_op H t)\<^sup>*\<^sup>* (new_session lock, w) (s', w')" "drop_session H panicking t s' w' = (r, w'')"
  shows "(r = Aborts \<longleftrightarrow> fst (restore_patches H t (s', w')) \<noteq> Ok ()) \<and>
    (r \<noteq> Aborts \<longrightarrow>
       r = (if panicking then Ok () else check (check_expectations s' w')) \<and>
       pr_local (mc_process w'') t = pr_local (mc_process w) t \<and>
       global_on (mc_process w'') = global_on (mc_process w) \<and>
       (ss_lock s' = GlobalLock \<longrightarrow> same_on code (mem (pr_system (mc_process w''))) (mem (pr_system (mc_process w)))) \<and>
       (\<forall>m\<in>set (ss_mocks s'). \<not> st_active (mc_states w'' (om_control m)) \<and> detached t (om_detach m) w'') \<and>
       mc_locks w'' = drop_lock (ss_lock s') (panicking \<or> r \<noteq> Ok ()) t (mc_locks w'))"
proof -
  have host: "code_host H mem code held" using assms(1) by (rule code_host.intro)
  let ?inv = "session_inv H mem code held (mem (pr_system (mc_process w))) (pr_local (mc_process w) t)
      (global_on (mc_process w)) t"
  obtain r1 s1 w1 where q: "restore_patches H t (s', w') = (r1, s1, w1)" by (metis prod_cases3)
  have "?inv (s', w')"
    using code_host.session_run_inv [OF host assms(4)] new_session_inv [where held = held, OF running_ok [OF assms(2)] assms(3)] by blast
  from leavesD [OF code_host.restore_patches_inv [OF host this] q]
  have law: "settles r1" "keeps_mocks (s', w') (s1, w1)" "r1 \<noteq> Aborts \<longrightarrow> ?inv (s1, w1)"
    "ss_local_patches s1 = []" "ss_global_routes s1 = []" "r1 = Ok () \<longrightarrow> ss_patches s1 = []" by simp_all
  from law(2) have same: "ss_lock s1 = ss_lock s'" "ss_mocks s1 = ss_mocks s'" "mc_locks w1 = mc_locks w'"
    by (auto simp: keeps_mocks_def)
  have verdict: "check_expectations s1 w1 = check_expectations s' w'" using keeps_mocks_verdict [OF law(2)] by simp
  define r2 where "r2 = (if panicking then Ok () else check (check_expectations s' w'))"
  have r2: "r2 \<noteq> Aborts"
    using check_expectations_returns [of s' w'] by (cases "check_expectations s' w'") (auto simp: r2_def)
  show ?thesis
  proof (cases "r1 = Ok ()")
    case True
    with assms(5) q verdict have d: "r = r2" "w'' = release_session (panicking \<or> r2 \<noteq> Ok ()) t (s1, w1)"
      by (auto simp: drop_session_def r2_def Let_def)
    note out = release_session_laws [OF d(2)]
    from True law have "pr_local (mc_process w1) t = pr_local (mc_process w) t"
      "global_on (mc_process w1) = global_on (mc_process w)"
      "ss_lock s' = GlobalLock \<longrightarrow> same_on code (mem (pr_system (mc_process w1))) (mem (pr_system (mc_process w)))"
      using same(1) by (auto simp: session_inv_simps)
    with True q d r2 out same show ?thesis by (simp add: r2_def)
  next
    case False
    with law(1) assms(5) q have "r = Aborts" by (cases r1) (auto simp: drop_session_def settles_def)
    with False q show ?thesis by simp
  qed
qed

theorem session_drop_cleans_up_witness:
  "\<exists>w. drop_session sim_host False 0 ((new_session GlobalLock)\<lparr>ss_patches := [sample_patch]\<rparr>)
      (with_code (write_bytes sample_code 4096 (pt_replacement sample_patch)) :: (unit, sim) machine) = (Ok (), w) \<and>
     sm_bytes (pr_system (mc_process w)) = sample_code"
proof -
  let ?s = "(new_session GlobalLock)\<lparr>ss_patches := [sample_patch]\<rparr>"
  let ?w = "with_code (write_bytes sample_code 4096 (pt_replacement sample_patch)) :: (unit, sim) machine"
  obtain r w where d: "drop_session sim_host False 0 ?s ?w = (r, w)" by (cases "drop_session sim_host False 0 ?s ?w")
  have "check_expectations ?s ?w = Ok ()" by (simp add: check_expectations_def new_session_def)
  moreover have "ss_lock ?s = GlobalLock" by (simp add: new_session_def)
  moreover have "fst (restore_patches sim_host 0 (?s, ?w)) = Ok ()" by (simp add: sample_raw_restored)
  ultimately have "r = Ok () \<and> sm_bytes (pr_system (mc_process w)) =
      sm_bytes (pr_system (mc_process (with_code sample_code :: (unit, sim) machine)))"
    using session_drop_cleans_up [OF sim_contracts(1) sample_start TrueI sample_raw_run d] by (auto simp: same_on_UNIV)
  with d show ?thesis by (simp add: with_code_def fresh_process_def sample_state_def)
qed



end
