(* ===== verification/Mock_Calls.thy ===== *)
theory Mock_Calls
  imports Session_Restore
begin

text \<open>
  What happens when a mocked function is called, and how a test says what should happen: the code
  that \<^verbatim>\<open>mock!\<close> generates for every mock (macros/src/lib.rs, \<^verbatim>\<open>generate\<close>: the handler
  \<^verbatim>\<open>__shimforge_call\<close> and the builder of expectations) and its counterpart for futures
  (src/asynchronous.rs: \<^verbatim>\<open>poll_mock\<close>, \<^verbatim>\<open>AsyncExpectation\<close>, \<^verbatim>\<open>mock_async\<close>).

  \<open>'a\<close> is the type of the argument tuple and \<open>'v\<close> the result type of the mocked function. The
  variable part of a rule is its matcher; its action lives in \<open>pm_actions\<close> under the identifier
  of its \<^verbatim>\<open>Meta\<close>, because it is shared and mutable. A closure given by the test is a function from
  its captured state and the arguments; it may unwind (\<open>Panics\<close>).
\<close>

section \<open>The state\<close>

datatype ('a, 'v, 's) action =
    Repeat "'s \<Rightarrow> 'a \<Rightarrow> 'v result \<times> 's" 's
  | Once "('a \<Rightarrow> 'v result) option"

record ('a, 'v, 's, 'k) program =
  pm_machine :: "('a \<Rightarrow> bool, 'k) machine"
  pm_actions :: "meta_id \<Rightarrow> ('a, 'v, 's) action"
  pm_entered :: "thread \<Rightarrow> state_id list"

definition pm_state :: "state_id \<Rightarrow> ('a, 'v, 's, 'k) program \<Rightarrow> ('a \<Rightarrow> bool) mock_state" where
  "pm_state i pm = mc_states (pm_machine pm) i"

definition set_state ::
  "state_id \<Rightarrow> ('a \<Rightarrow> bool) mock_state \<Rightarrow> heap \<Rightarrow> ('a, 'v, 's, 'k) program \<Rightarrow> ('a, 'v, 's, 'k) program" where
  "set_state i st h pm =
     pm\<lparr>pm_machine := (pm_machine pm)\<lparr>mc_states := (mc_states (pm_machine pm))(i := st), mc_heap := h\<rparr>\<rparr>"

section \<open>Saying what to expect\<close>

record 'a builder =
  bd_state :: state_id
  bd_config :: config
  bd_matcher :: "'a \<Rightarrow> bool"

definition expect_call :: "state_id \<Rightarrow> 'a builder" where
  "expect_call i = \<lparr>bd_state = i, bd_config = default_config, bd_matcher = (\<lambda>_. True)\<rparr>"

definition with_matcher :: "('a \<Rightarrow> bool) \<Rightarrow> 'a builder \<Rightarrow> 'a builder" where
  "with_matcher f b = b\<lparr>bd_matcher := f\<rparr>"

definition bd_times :: "count_spec \<Rightarrow> 'a builder \<Rightarrow> 'a builder" where
  "bd_times count b = b\<lparr>bd_config := times count (bd_config b)\<rparr>"

definition bd_once :: "'a builder \<Rightarrow> 'a builder" where
  "bd_once b = b\<lparr>bd_config := once (bd_config b)\<rparr>"

definition bd_in_sequence :: "seq_id \<Rightarrow> 'a builder \<Rightarrow> 'a builder" where
  "bd_in_sequence q b = b\<lparr>bd_config := in_sequence q (bd_config b)\<rparr>"

text \<open>\<^verbatim>\<open>check(self.state.add(config, ...))\<close>: the rule is made from the matcher and the action.\<close>

definition add_rule ::
  "config \<Rightarrow> 'a builder \<Rightarrow> ('a, 'v, 's) action \<Rightarrow> (meta_id, ('a, 'v, 's, 'k) program) call" where
  "add_rule cfg b act pm =
     (case add_with cfg (\<lambda>i st h. (bd_matcher b, st, h)) (pm_state (bd_state b) pm) (mc_heap (pm_machine pm)) of
        (r, st, h) \<Rightarrow>
          (check r,
           (case r of
              Ok i \<Rightarrow> (set_state (bd_state b) st h pm)\<lparr>pm_actions := (pm_actions pm)(i := act)\<rparr>
            | _ \<Rightarrow> set_state (bd_state b) st h pm)))"

definition returning ::
  "('s \<Rightarrow> 'a \<Rightarrow> 'v result \<times> 's) \<Rightarrow> 's \<Rightarrow> 'a builder \<Rightarrow> (meta_id, ('a, 'v, 's, 'k) program) call" where
  "returning f captured b = add_rule (bd_config b) b (Repeat f captured)"

definition returning_once ::
  "('a \<Rightarrow> 'v result) \<Rightarrow> 'a builder \<Rightarrow> (meta_id, ('a, 'v, 's, 'k) program) call" where
  "returning_once f b pm =
     andThen (check (for_once (bd_config b)), pm) (\<lambda>cfg. add_rule cfg b (Once (Some f)))"

definition returns_value :: "'v \<Rightarrow> 's \<Rightarrow> 'a builder \<Rightarrow> (meta_id, ('a, 'v, 's, 'k) program) call" where
  "returns_value v = returning (\<lambda>s args. (Ok v, s))"

definition return_once :: "'v \<Rightarrow> 'a builder \<Rightarrow> (meta_id, ('a, 'v, 's, 'k) program) call" where
  "return_once v = returning_once (\<lambda>args. Ok v)"

text \<open>\<open>dflt\<close> is \<^verbatim>\<open>Default::default()\<close> of the result type.\<close>

definition returns_default :: "'v \<Rightarrow> 's \<Rightarrow> 'a builder \<Rightarrow> (meta_id, ('a, 'v, 's, 'k) program) call" where
  "returns_default dflt = returning (\<lambda>s args. (Ok dflt, s))"

definition panics :: "string \<Rightarrow> 's \<Rightarrow> 'a builder \<Rightarrow> (meta_id, ('a, 'v, 's, 'k) program) call" where
  "panics message = returning (\<lambda>s args. (Panics message, s))"

definition never :: "'s \<Rightarrow> 'a builder \<Rightarrow> (meta_id, ('a, 'v, 's, 'k) program) call" where
  "never s b = panics ''forbidden mock call'' s (bd_times (Exactly 0) b)"

definition mock_verify :: "state_id \<Rightarrow> ('a, 'v, 's, 'k) program \<Rightarrow> unit result" where
  "mock_verify i pm = check (verify_state (pm_state i pm) (mc_heap (pm_machine pm)))"

definition mock_checkpoint :: "state_id \<Rightarrow> (unit, ('a, 'v, 's, 'k) program) call" where
  "mock_checkpoint i pm =
     (case checkpoint (pm_state i pm) (mc_heap (pm_machine pm)) of
        (r, st) \<Rightarrow> (check r, set_state i st (mc_heap (pm_machine pm)) pm))"

section \<open>Answering a call\<close>

text \<open>A call ends with a value of the mock or is passed on to the code at an address.\<close>

datatype 'v outcome = Answered 'v | Forwarded usize

fun run_action :: "('a, 'v, 's) action \<Rightarrow> 'a \<Rightarrow> 'v result \<times> ('a, 'v, 's) action" where
  "run_action (Repeat f s) args = (case f s args of (r, s') \<Rightarrow> (r, Repeat f s'))"
| "run_action (Once (Some f)) args = (f args, Once None)"
| "run_action (Once None) args = (Panics ''one-use return was already used'', Once None)"

text \<open>
  \<^verbatim>\<open>state.enter()\<close>, \<^verbatim>\<open>state.select\<close> and the action. The guard of \<^verbatim>\<open>enter\<close> is dropped on every way
  out, by unwinding too.
\<close>

definition leave_mock :: "thread \<Rightarrow> state_id \<Rightarrow> ('a, 'v, 's, 'k) program \<Rightarrow> ('a, 'v, 's, 'k) program" where
  "leave_mock t i pm = pm\<lparr>pm_entered := (pm_entered pm)(t := drop_guard i (pm_entered pm t))\<rparr>"

definition choose_rule :: "state_id \<Rightarrow> 'a \<Rightarrow> (meta_id, ('a, 'v, 's, 'k) program) call" where
  "choose_rule i args pm =
     (case select (\<lambda>matcher. matcher args) (pm_state i pm) (mc_heap (pm_machine pm)) of
        (r, st, h) \<Rightarrow> (and_then r (\<lambda>(m, _). Ok m), set_state i st h pm))"

definition run_rule :: "meta_id \<Rightarrow> 'a \<Rightarrow> ('v outcome, ('a, 'v, 's, 'k) program) call" where
  "run_rule m args pm =
     (case run_action (pm_actions pm m) args of
        (r, act) \<Rightarrow> (and_then r (\<lambda>v. Ok (Answered v)), pm\<lparr>pm_actions := (pm_actions pm)(m := act)\<rparr>))"

definition answer_call :: "thread \<Rightarrow> state_id \<Rightarrow> 'a \<Rightarrow> ('v outcome, ('a, 'v, 's, 'k) program) call" where
  "answer_call t i args pm =
     (case enter i (pm_state i pm) (pm_entered pm t) of
        (r, st, calls) \<Rightarrow>
          (let pm1 = (set_state i st (mc_heap (pm_machine pm)) pm)\<lparr>pm_entered := (pm_entered pm)(t := calls)\<rparr> in
           case r of
             Ok _ \<Rightarrow>
               (case andThen (choose_rule i args pm1) (\<lambda>m. run_rule m args) of
                  (r2, pm2) \<Rightarrow> (r2, leave_mock t i pm2))
           | Err e \<Rightarrow> (Err e, pm1)
           | Panics p \<Rightarrow> (Panics p, pm1)
           | Aborts \<Rightarrow> (Aborts, pm1)
           | Diverges \<Rightarrow> (Diverges, pm1)))"

text \<open>Without a mock for the thread the call goes on to the current route of the handler.\<close>

definition forward_call ::
  "string \<Rightarrow> 'k host \<Rightarrow> thread \<Rightarrow> usize \<Rightarrow> ('v outcome, ('a, 'v, 's, 'k) program) call" where
  "forward_call message H t handler pm =
     (case route H t handler (mc_process (pm_machine pm)) of
        (r, pr) \<Rightarrow>
          (and_then r (\<lambda>target. case target of Some a \<Rightarrow> Ok (Forwarded a) | None \<Rightarrow> Panics message),
           pm\<lparr>pm_machine := (pm_machine pm)\<lparr>mc_process := pr\<rparr>\<rparr>))"

definition mock_call ::
  "'k host \<Rightarrow> thread \<Rightarrow> site \<Rightarrow> usize \<Rightarrow> 'a \<Rightarrow> ('v outcome, ('a, 'v, 's, 'k) program) call" where
  "mock_call H t site handler args pm =
     (case current_slot t (mc_slots (pm_machine pm) site) of
        Some i \<Rightarrow> answer_call t i args pm
      | None \<Rightarrow> forward_call ''mock is not active'' H t handler pm)"

text \<open>The dispatcher that \<^verbatim>\<open>replace!\<close> generates for local sessions only follows its route.\<close>

definition dispatch_call ::
  "'k host \<Rightarrow> thread \<Rightarrow> usize \<Rightarrow> ('v outcome, ('a, 'v, 's, 'k) program) call" where
  "dispatch_call = forward_call ''replacement is not active''"

section \<open>Installing a mock\<close>

text \<open>
  The closure of \<^verbatim>\<open>generate\<close> that fills the slot of the site and installs the handler. \<open>i\<close> is the
  new \<^verbatim>\<open>State\<close>, and the macro applies \<^verbatim>\<open>check\<close> to the result. When the slot is taken nothing else
  happens; when the installation fails the detach closure empties the slot again.
\<close>

definition new_mock_state ::
  "state_id \<Rightarrow> string \<Rightarrow> session \<times> ('r, 'k) machine \<Rightarrow> session \<times> ('r, 'k) machine" where
  "new_mock_state i name sw = (fst sw, (snd sw)\<lparr>mc_states := (mc_states (snd sw))(i := new_state name)\<rparr>)"

definition mock_site ::
  "'k host \<Rightarrow> thread \<Rightarrow> site \<Rightarrow> string \<Rightarrow> state_id \<Rightarrow> usize \<Rightarrow> usize \<Rightarrow> (state_id, session \<times> ('r, 'k) machine) call" where
  "mock_site H t site name i source handler sw0 =
     (let sw = new_mock_state i name sw0; local = is_local (fst sw);
          (r, sl) = fill_slot local t i (mc_slots (snd sw) site) in
      case andThen (r, fst sw, (snd sw)\<lparr>mc_slots := (mc_slots (snd sw))(site := sl)\<rparr>) (\<lambda>_ sw.
             install_mock H t source handler i (Detach_site site local) sw) of
        (r2, sw2) \<Rightarrow> (and_then (check r2) (\<lambda>_. Ok i), sw2))"

definition mock_async ::
  "'k host \<Rightarrow> thread \<Rightarrow> string \<Rightarrow> state_id \<Rightarrow> usize \<Rightarrow> usize \<Rightarrow> (state_id, session \<times> ('r, 'k) machine) call" where
  "mock_async H t name i source handler sw0 =
     (let sw = new_mock_state i name sw0; local = is_local (fst sw);
          (r, rg) = register source local t i (mc_registry (snd sw)) in
      case andThen (check r, fst sw, (snd sw)\<lparr>mc_registry := rg\<rparr>) (\<lambda>_ sw.
             install_mock H t source handler i (Detach_poll source local) sw) of
        (r2, sw2) \<Rightarrow> (and_then (check r2) (\<lambda>_. Ok i), sw2))"

section \<open>Polling a mocked future\<close>

text \<open>
  \<open>handler\<close> is the address of \<^verbatim>\<open>poll_mock::<F>\<close>, \<open>source\<close> that of \<^verbatim>\<open>F::poll\<close>. The rules of an
  async mock have no matcher, and their actions take no arguments.
\<close>

definition poll_mock ::
  "(state_id \<Rightarrow> 'ty) \<Rightarrow> 'ty \<Rightarrow> 'k host \<Rightarrow> thread \<Rightarrow> usize \<Rightarrow> usize \<Rightarrow>
   ('v outcome, (unit, 'v, 's, 'k) program) call" where
  "poll_mock output_of output H t source handler pm =
     (case lookup_state output_of output t source (mc_registry (pm_machine pm)) of
        Ok (Some i) \<Rightarrow> answer_call t i () pm
      | Ok None \<Rightarrow> forward_call ''async mock is no longer active'' H t handler pm
      | Err e \<Rightarrow> (Err e, pm)
      | Panics m \<Rightarrow> (Panics m, pm)
      | Aborts \<Rightarrow> (Aborts, pm)
      | Diverges \<Rightarrow> (Diverges, pm))"

text \<open>
  \<^verbatim>\<open>AsyncExpectation\<close> wraps a one-time closure in an \<^verbatim>\<open>Option\<close> that its \<^verbatim>\<open>FnMut\<close> action empties, so
  the captured state of the action is that option.
\<close>

type_synonym ('v, 'k) async_program = "(unit, 'v, (unit \<Rightarrow> 'v result) option, 'k) program"

fun take_once :: "(unit \<Rightarrow> 'v result) option \<Rightarrow> unit \<Rightarrow> 'v result \<times> (unit \<Rightarrow> 'v result) option" where
  "take_once (Some f) args = (f args, None)"
| "take_once None args = (Panics ''one-time response was already used'', None)"

text \<open>
  \<^verbatim>\<open>AsyncMock\<close> and \<^verbatim>\<open>AsyncExpectation\<close>. An async rule has no matcher: \<^verbatim>\<open>poll_mock\<close> selects with
  \<^verbatim>\<open>|_| true\<close>, which is the matcher that \<open>async_expect\<close> puts into the builder for good.
\<close>

definition async_expect :: "state_id \<Rightarrow> unit builder" where
  "async_expect i = \<lparr>bd_state = i, bd_config = default_config, bd_matcher = (\<lambda>_. True)\<rparr>"

definition async_verify :: "state_id \<Rightarrow> (unit, 'v, 's, 'k) program \<Rightarrow> unit result" where
  "async_verify i pm = check (verify_state (pm_state i pm) (mc_heap (pm_machine pm)))"

definition async_checkpoint :: "state_id \<Rightarrow> (unit, (unit, 'v, 's, 'k) program) call" where
  "async_checkpoint i pm =
     (case checkpoint (pm_state i pm) (mc_heap (pm_machine pm)) of
        (r, st) \<Rightarrow> (check r, set_state i st (mc_heap (pm_machine pm)) pm))"

definition async_times :: "count_spec \<Rightarrow> unit builder \<Rightarrow> unit builder" where
  "async_times count b = b\<lparr>bd_config := times count (bd_config b)\<rparr>"

definition async_once :: "unit builder \<Rightarrow> unit builder" where
  "async_once b = b\<lparr>bd_config := once (bd_config b)\<rparr>"

definition async_in_sequence :: "seq_id \<Rightarrow> unit builder \<Rightarrow> unit builder" where
  "async_in_sequence q b = b\<lparr>bd_config := in_sequence q (bd_config b)\<rparr>"

definition async_returning ::
  "('s \<Rightarrow> unit \<Rightarrow> 'v result \<times> 's) \<Rightarrow> 's \<Rightarrow> unit builder \<Rightarrow> (meta_id, (unit, 'v, 's, 'k) program) call" where
  "async_returning f captured b = add_rule (bd_config b) b (Repeat f captured)"

definition async_returning_once ::
  "(unit \<Rightarrow> 'v result) \<Rightarrow> unit builder \<Rightarrow> (meta_id, ('v, 'k) async_program) call" where
  "async_returning_once f b pm =
     andThen (check (for_once (bd_config b)), pm) (\<lambda>cfg.
       async_returning take_once (Some f) (b\<lparr>bd_config := cfg\<rparr>))"

definition async_returns :: "'v \<Rightarrow> 's \<Rightarrow> unit builder \<Rightarrow> (meta_id, (unit, 'v, 's, 'k) program) call" where
  "async_returns v = async_returning (\<lambda>s _. (Ok v, s))"

definition async_return_once :: "'v \<Rightarrow> unit builder \<Rightarrow> (meta_id, ('v, 'k) async_program) call" where
  "async_return_once v = async_returning_once (\<lambda>_. Ok v)"

definition async_returns_default :: "'v \<Rightarrow> 's \<Rightarrow> unit builder \<Rightarrow> (meta_id, (unit, 'v, 's, 'k) program) call" where
  "async_returns_default dflt = async_returning (\<lambda>s _. (Ok dflt, s))"

definition async_panics :: "string \<Rightarrow> 's \<Rightarrow> unit builder \<Rightarrow> (meta_id, (unit, 'v, 's, 'k) program) call" where
  "async_panics message = async_returning (\<lambda>s _. (Panics message, s))"

definition async_never :: "'s \<Rightarrow> unit builder \<Rightarrow> (meta_id, (unit, 'v, 's, 'k) program) call" where
  "async_never s b = async_panics ''poll is forbidden'' s (async_times (Exactly 0) b)"

text \<open>Checkpoints of both kinds of mock are the same step.\<close>

lemma async_shared: "async_checkpoint = mock_checkpoint"
  by (simp add: fun_eq_iff async_checkpoint_def mock_checkpoint_def)

section \<open>How an answered call ends\<close>

lemma enter_outcome:
  "enter i st calls =
     (if i \<in> set calls
      then let e = Expectation (st_name st @ '': a mock called itself recursively'')
           in (Panics (display e), note_failure e st, calls)
      else (Ok (), st, calls @ [i]))"
  by (simp add: enter_def try_enter_def fail_state_def Let_def)

lemma set_state_simps [simp]:
  "pm_actions (set_state i st h pm) = pm_actions pm" "pm_entered (set_state i st h pm) = pm_entered pm"
  "pm_state j (set_state i st h pm) = (if j = i then st else pm_state j pm)"
  "mc_heap (pm_machine (set_state i st h pm)) = h"
  "mc_slots (pm_machine (set_state i st h pm)) = mc_slots (pm_machine pm)"
  "mc_process (pm_machine (set_state i st h pm)) = mc_process (pm_machine pm)"
  by (simp_all add: set_state_def pm_state_def)

lemma set_state_same [simp]: "set_state i (pm_state i pm) (mc_heap (pm_machine pm)) pm = pm"
  by (simp add: set_state_def pm_state_def)

lemma set_state_entered [simp]:
  "set_state i st h (pm\<lparr>pm_entered := l\<rparr>) = (set_state i st h pm)\<lparr>pm_entered := l\<rparr>"
  "set_state i st h (pm\<lparr>pm_actions := a\<rparr>) = (set_state i st h pm)\<lparr>pm_actions := a\<rparr>"
  "pm_state i (pm\<lparr>pm_entered := l\<rparr>) = pm_state i pm" "pm_state i (pm\<lparr>pm_actions := a\<rparr>) = pm_state i pm"
  by (simp_all add: set_state_def pm_state_def)

text \<open>The call without its guard: choose a rule, run its action.\<close>

definition rule_outcome :: "state_id \<Rightarrow> 'a \<Rightarrow> ('v outcome, ('a, 'v, 's, 'k) program) call" where
  "rule_outcome i args pm = andThen (choose_rule i args pm) (\<lambda>m. run_rule m args)"

lemma choose_rule_entered: "choose_rule i args (pm\<lparr>pm_entered := l\<rparr>) =
   (case choose_rule i args pm of (r, pm') \<Rightarrow> (r, pm'\<lparr>pm_entered := l\<rparr>))"
  by (simp add: choose_rule_def split: prod.splits)

lemma run_rule_entered: "run_rule m args (pm\<lparr>pm_entered := l\<rparr>) =
   (case run_rule m args pm of (r, pm') \<Rightarrow> (r, pm'\<lparr>pm_entered := l\<rparr>))"
  by (simp add: run_rule_def split: prod.splits)

lemma rule_outcome_entered: "rule_outcome i args (pm\<lparr>pm_entered := l\<rparr>) =
   (case rule_outcome i args pm of (r, pm') \<Rightarrow> (r, pm'\<lparr>pm_entered := l\<rparr>))"
proof -
  obtain r1 pm1 where c: "choose_rule i args pm = (r1, pm1)" by (cases "choose_rule i args pm")
  obtain r2 pm2 where a: "run_rule (case r1 of Ok m \<Rightarrow> m) args pm1 = (r2, pm2)"
    by (cases "run_rule (case r1 of Ok m \<Rightarrow> m) args pm1")
  from c a show ?thesis
    by (cases r1) (simp_all add: rule_outcome_def choose_rule_entered run_rule_entered)
qed

lemma rule_outcome_keeps:
  "rule_outcome i args pm = (r, pm') \<Longrightarrow> pm_entered pm' = pm_entered pm"
  by (auto simp: rule_outcome_def choose_rule_def run_rule_def split: prod.splits elim!: andThen.elims)

lemma answer_call_eq:
  "answer_call t i args pm =
     (if i \<in> set (pm_entered pm t)
      then let e = Expectation (st_name (pm_state i pm) @ '': a mock called itself recursively'')
           in (Panics (display e), set_state i (note_failure e (pm_state i pm)) (mc_heap (pm_machine pm)) pm)
      else rule_outcome i args pm)"
proof (cases "i \<in> set (pm_entered pm t)")
  case True
  then show ?thesis by (simp add: answer_call_def enter_outcome Let_def)
next
  case False
  obtain r pm' where q: "rule_outcome i args pm = (r, pm')" by (cases "rule_outcome i args pm")
  have "drop_guard i (pm_entered pm t @ [i]) = pm_entered pm t"
    using False by (auto simp: drop_guard_def filter_id_conv)
  moreover have "pm'\<lparr>pm_entered := pm_entered pm\<rparr> = pm'" using rule_outcome_keeps [OF q] by (metis program.surjective program.update_convs(3))
  ultimately show ?thesis
    using False q rule_outcome_entered [of i args "(pm_entered pm)(t := pm_entered pm t @ [i])" pm]
    by (simp add: answer_call_def enter_outcome rule_outcome_def [symmetric] leave_mock_def)
qed

section \<open>One-time actions\<close>

text \<open>
  Generated mocks and async mocks keep a one-time action in different ways. What they have in
  common is this contract: \<open>shot\<close> says which actions are one-time, \<open>spent\<close> which of them have been
  run; an action stays one-time.
\<close>

locale one_time =
  fixes shot spent :: "('a, 'v, 's) action \<Rightarrow> bool"
  assumes spent_shot: "spent act \<Longrightarrow> shot act"
    and run_shot: "shot (snd (run_action act args)) = shot act"
begin

definition shot_ok :: "heap \<Rightarrow> (meta_id \<Rightarrow> ('a, 'v, 's) action) \<Rightarrow> meta_id \<Rightarrow> bool" where
  "shot_ok h acts m \<longleftrightarrow> m < fresh_meta h \<and>
     (shot (acts m) \<longrightarrow> (\<exists>c\<le>1. cc_max (m_count (metas h m)) = Some c) \<and> (spent (acts m) \<longrightarrow> 1 \<le> m_calls (metas h m)))"

definition shots_ok :: "('a, 'v, 's, 'k) program \<Rightarrow> bool" where
  "shots_ok pm \<longleftrightarrow>
     (\<forall>i. \<forall>p\<in>set (st_rules (pm_state i pm)). shot_ok (mc_heap (pm_machine pm)) (pm_actions pm) (fst p))"

lemma shot_ok_heap:
  assumes "shot_ok h acts m" "fresh_meta h \<le> fresh_meta h'" "m_count (metas h' m) = m_count (metas h m)"
    "m_calls (metas h m) \<le> m_calls (metas h' m)"
  shows "shot_ok h' acts m"
  using assms by (auto simp: shot_ok_def)

lemma shots_ok_heap:
  assumes "shots_ok pm" "fresh_meta (mc_heap (pm_machine pm)) \<le> fresh_meta h"
    "\<And>m. m < fresh_meta (mc_heap (pm_machine pm)) \<Longrightarrow>
       m_count (metas h m) = m_count (metas (mc_heap (pm_machine pm)) m) \<and>
       m_calls (metas (mc_heap (pm_machine pm)) m) \<le> m_calls (metas h m)"
    "set (st_rules st) \<subseteq> set (st_rules (pm_state i pm))"
  shows "shots_ok (set_state i st h pm)"
  unfolding shots_ok_def
proof (intro allI ballI)
  fix j p
  assume "p \<in> set (st_rules (pm_state j (set_state i st h pm)))"
  with assms(4) have "p \<in> set (st_rules (pm_state j pm))" by (auto split: if_splits)
  with assms(1) have "shot_ok (mc_heap (pm_machine pm)) (pm_actions pm) (fst p)" by (simp add: shots_ok_def)
  moreover from this have "fst p < fresh_meta (mc_heap (pm_machine pm))" by (simp add: shot_ok_def)
  from assms(3) [OF this] assms(2) calculation
  show "shot_ok (mc_heap (pm_machine (set_state i st h pm))) (pm_actions (set_state i st h pm)) (fst p)"
    by (auto intro!: shot_ok_heap [of "mc_heap (pm_machine pm)"])
qed

lemma chosen_unspent:
  assumes "shots_ok pm" "choose_rule i args pm = (Ok m, pm')"
  shows "\<not> spent (pm_actions pm m)" "pm' = set_state i (pm_state i pm) (after_taken m (mc_heap (pm_machine pm))) pm"
proof -
  let ?h = "mc_heap (pm_machine pm)"
  from assms(2) obtain q st h' where s: "select (\<lambda>f. f args) (pm_state i pm) ?h = (Ok (m, q), st, h')"
    "pm' = set_state i st h' pm"
    by (auto simp: choose_rule_def result_simps split: prod.splits)
  from s(1) have c: "candidate (\<lambda>f. f args) ?h (st_rules (pm_state i pm)) = Some (m, q)"
    "claimable ?h (metas ?h m)" "st = pm_state i pm" "h' = after_taken m ?h" by (simp_all add: select_Ok_iff)
  then have "(m, q) \<in> set (st_rules (pm_state i pm))" by (auto simp: candidate_def find_Some_iff) (metis nth_mem)
  with assms(1) have m: "shot_ok ?h (pm_actions pm) m" by (force simp: shots_ok_def)
  show "\<not> spent (pm_actions pm m)"
  proof
    assume "spent (pm_actions pm m)"
    with m spent_shot obtain mx where "cc_max (m_count (metas ?h m)) = Some mx" "mx \<le> 1"
      "1 \<le> m_calls (metas ?h m)" unfolding shot_ok_def by blast
    with c(2) show False by (auto simp: claim_conditions)
  qed
  show "pm' = set_state i (pm_state i pm) (after_taken m ?h) pm" using c s(2) by simp
qed

lemma run_shots:
  assumes "shots_ok pm" "1 \<le> m_calls (metas (mc_heap (pm_machine pm)) m)"
  shows "shots_ok (pm\<lparr>pm_actions := (pm_actions pm)(m := snd (run_action (pm_actions pm m) args))\<rparr>)"
  using assms run_shot [of "pm_actions pm m" args] by (auto simp: shots_ok_def shot_ok_def)

lemma rule_outcome_shots:
  assumes "shots_ok pm" "rule_outcome i args pm = (r, pm')"
  shows "shots_ok pm'"
proof -
  let ?h = "mc_heap (pm_machine pm)"
  obtain r1 pm1 where c: "choose_rule i args pm = (r1, pm1)" by (cases "choose_rule i args pm")
  show ?thesis
  proof (cases r1)
    case (Ok m)
    note pm1 = chosen_unspent(2) [OF assms(1) c [unfolded Ok]]
    have "shots_ok pm1"
      unfolding pm1 by (rule shots_ok_heap [OF assms(1)]) simp_all
    then have "shots_ok (pm1\<lparr>pm_actions := (pm_actions pm1)(m := snd (run_action (pm_actions pm1 m) args))\<rparr>)"
      by (rule run_shots) (simp add: pm1)
    with assms(2) c Ok show ?thesis by (auto simp: rule_outcome_def run_rule_def split: prod.splits)
  next
    case (Panics p)
    from c Panics obtain st h where s: "select (\<lambda>f. f args) (pm_state i pm) ?h = (Panics p, st, h)" "pm1 = set_state i st h pm"
      by (auto simp: choose_rule_def result_simps split: prod.splits)
    then obtain e where rej: "select (\<lambda>f. f args) (pm_state i pm) ?h = rejected_call e (pm_state i pm) h"
      using select_outcome [of "\<lambda>f. f args" "pm_state i pm" ?h] by (auto simp: rejected_call_def)
    have "fresh_meta h = fresh_meta ?h \<and>
        (\<forall>m. m_count (metas h m) = m_count (metas ?h m) \<and> m_calls (metas h m) = m_calls (metas ?h m))"
      using s(1) by (auto simp: select_eq_spec select_spec_def rejected_call_def Let_def split: if_splits option.splits)
    moreover have "st = note_failure e (pm_state i pm)" using s(1) rej by (simp add: rejected_call_def)
    ultimately have "shots_ok pm1" unfolding s(2) by (intro shots_ok_heap [OF assms(1)]) auto
    with assms(2) c Panics show ?thesis by (simp add: rule_outcome_def)
  qed (use c select_outcome [of "\<lambda>f. f args" "pm_state i pm" ?h] in
      \<open>auto simp: choose_rule_def rejected_call_def result_simps split: prod.splits\<close>)
qed

lemma answer_call_shots:
  assumes "shots_ok pm" "answer_call t i args pm = (r, pm')"
  shows "shots_ok pm'"
  using assms rule_outcome_shots [OF assms(1)]
  by (auto simp: answer_call_eq Let_def split: if_splits intro!: shots_ok_heap)

lemma add_rule_shots:
  assumes ok: "shots_ok pm" and a: "add_rule cfg b act pm = (r, pm')"
    and one: "shot act \<Longrightarrow> \<not> spent act \<and> (\<exists>cfg0. for_once cfg0 = Ok cfg)"
  shows "shots_ok pm'"
proof -
  let ?h = "mc_heap (pm_machine pm)" and ?st = "pm_state (bd_state b) pm"
  obtain ra st h where w: "add_with cfg (\<lambda>i st h. (bd_matcher b, st, h)) ?st ?h = (ra, st, h)"
    by (cases "add_with cfg (\<lambda>i st h. (bd_matcher b, st, h)) ?st ?h")
  let ?new = "fresh_meta ?h"
  have old: "\<forall>m<fresh_meta ?h. m_count (metas h m) = m_count (metas ?h m) \<and> m_calls (metas h m) = m_calls (metas ?h m)"
    and fresh: "fresh_meta ?h \<le> fresh_meta h"
    and rules: "st_rules st = st_rules ?st \<or> (ra = Ok ?new \<and> st_rules st = st_rules ?st @ [(?new, bd_matcher b)])"
    using w by (auto simp: add_with_def Let_def reserve_def split: result.splits if_splits option.splits)
  have made: "fresh_meta h = Suc ?new \<and> (\<exists>n. validate_config cfg = Ok n \<and> m_count (metas h ?new) = n)"
    if "ra = Ok i" for i
    using w that by (auto simp: add_with_def Let_def reserve_def new_meta_def split: result.splits if_splits option.splits)
  have *: "pm' = (case ra of Ok i \<Rightarrow> (set_state (bd_state b) st h pm)\<lparr>pm_actions := (pm_actions pm)(i := act)\<rparr>
      | _ \<Rightarrow> set_state (bd_state b) st h pm)"
    using a w by (simp add: add_rule_def)
  have kept: "shots_ok (set_state (bd_state b) (st\<lparr>st_rules := st_rules ?st\<rparr>) h pm)"
    by (rule shots_ok_heap [OF ok fresh]) (use old in auto)
  show ?thesis
  proof (cases "\<exists>i. ra = Ok i")
    case False
    with rules have "st\<lparr>st_rules := st_rules ?st\<rparr> = st" by auto
    moreover have "pm' = set_state (bd_state b) st h pm" using * False by (cases ra) simp_all
    ultimately show ?thesis using kept by simp
  next
    case True
    then have ra: "ra = Ok ?new"
      using w by (auto simp: add_with_def Let_def reserve_def split: result.splits if_splits option.splits)
    have new: "shot_ok h ((pm_actions pm)(?new := act)) ?new"
      using made [OF ra] one one_shot_count by (force simp: shot_ok_def)
    have "shot_ok h ((pm_actions pm)(?new := act)) (fst p)" if "p \<in> set (st_rules (pm_state j pm))" for p j
    proof -
      have q: "shot_ok ?h (pm_actions pm) (fst p)" using ok that by (simp add: shots_ok_def)
      then have "fst p < ?new" by (simp add: shot_ok_def)
      with q old fresh show ?thesis by (auto simp: shot_ok_def)
    qed
    with new show ?thesis using rules unfolding * ra by (auto simp: shots_ok_def split: if_splits)
  qed
qed

end

lemma run_action_Once [simp]:
  "(\<exists>f. snd (run_action act args) = Once f) \<longleftrightarrow> (\<exists>f. act = Once f)"
  by (cases "(act, args)" rule: run_action.cases) (auto split: prod.splits)

interpretation generated: one_time "\<lambda>act. \<exists>f. act = Once f" "\<lambda>act. act = Once None"
  by unfold_locales auto

interpretation async: one_time "\<lambda>act. \<exists>f. act = Repeat take_once f" "\<lambda>act. act = Repeat take_once None"
proof unfold_locales
  fix act :: "(unit, 'v, (unit \<Rightarrow> 'v result) option) action" and args
  show "(\<exists>f. snd (run_action act args) = Repeat take_once f) = (\<exists>f. act = Repeat take_once f)"
    by (cases "(act, args)" rule: run_action.cases) (auto split: prod.splits)
qed auto

section \<open>Runs of the program\<close>

text \<open>
  A test adds expectations, calls mocked functions from any thread, checks and clears mocks; between
  these steps the rest of the program changes the machine, but the rules of a mock only grow by
  new expectations.
\<close>

definition other_change :: "('r, 'k) machine \<Rightarrow> ('r, 'k) machine \<Rightarrow> bool" where
  "other_change w w' \<longleftrightarrow> mc_heap w' = mc_heap w \<and>
     (\<forall>i. set (st_rules (mc_states w' i)) \<subseteq> set (st_rules (mc_states w i)))"

inductive test_step :: "'k host \<Rightarrow> ('a, 'v, 's, 'k) program \<Rightarrow> ('a, 'v, 's, 'k) program \<Rightarrow> bool"
  for H where
  Returning: "returning f s b pm = (r, pm') \<Longrightarrow> test_step H pm pm'"
| Returning_once: "returning_once g b pm = (r, pm') \<Longrightarrow> test_step H pm pm'"
| Called: "mock_call H t site handler args pm = (ro, pm') \<Longrightarrow> test_step H pm pm'"
| Checked: "mock_checkpoint i pm = (ru, pm') \<Longrightarrow> test_step H pm pm'"
| Other: "other_change (pm_machine pm) w \<Longrightarrow> test_step H pm (pm\<lparr>pm_machine := w\<rparr>)"

inductive async_step :: "'k host \<Rightarrow> (state_id \<Rightarrow> 'ty) \<Rightarrow> ('v, 'k) async_program \<Rightarrow> ('v, 'k) async_program \<Rightarrow> bool"
  for H output_of where
  Async_returning: "f \<noteq> take_once \<Longrightarrow> async_returning f s b pm = (r, pm') \<Longrightarrow> async_step H output_of pm pm'"
| Async_once: "async_returning_once g b pm = (r, pm') \<Longrightarrow> async_step H output_of pm pm'"
| Polled: "poll_mock output_of output H t source handler pm = (ro, pm') \<Longrightarrow> async_step H output_of pm pm'"
| Async_checked: "async_checkpoint i pm = (ru, pm') \<Longrightarrow> async_step H output_of pm pm'"
| Async_other: "other_change (pm_machine pm) w \<Longrightarrow> async_step H output_of pm (pm\<lparr>pm_machine := w\<rparr>)"

definition no_mocks :: "('a, 'v, 's, 'k) program \<Rightarrow> bool" where
  "no_mocks pm \<longleftrightarrow> (\<forall>i. st_rules (pm_state i pm) = [])"

context one_time
begin

lemma no_mocks_shots: "no_mocks pm \<Longrightarrow> shots_ok pm"
  by (simp add: no_mocks_def shots_ok_def)

lemma other_change_shots: "shots_ok pm \<Longrightarrow> other_change (pm_machine pm) w \<Longrightarrow> shots_ok (pm\<lparr>pm_machine := w\<rparr>)"
  by (auto simp: shots_ok_def other_change_def pm_state_def)

lemma checkpoint_shots:
  assumes "shots_ok pm" "mock_checkpoint i pm = (r, pm')"
  shows "shots_ok pm'"
proof -
  obtain rc st where c: "checkpoint (pm_state i pm) (mc_heap (pm_machine pm)) = (rc, st)"
    by (cases "checkpoint (pm_state i pm) (mc_heap (pm_machine pm))")
  then have "set (st_rules st) \<subseteq> set (st_rules (pm_state i pm))"
    by (auto simp: checkpoint_def split: if_splits result.splits)
  with assms c show ?thesis by (auto simp: mock_checkpoint_def intro!: shots_ok_heap)
qed

lemma forward_call_shots:
  assumes "shots_ok pm" "forward_call message H t handler pm = (r, pm')"
  shows "shots_ok pm'"
proof -
  obtain rr pr where q: "route H t handler (mc_process (pm_machine pm)) = (rr, pr)"
    by (cases "route H t handler (mc_process (pm_machine pm))")
  have "other_change (pm_machine pm) ((pm_machine pm)\<lparr>mc_process := pr\<rparr>)" by (simp add: other_change_def)
  from other_change_shots [OF assms(1) this] assms(2) q show ?thesis by (auto simp: forward_call_def)
qed

end

lemma test_step_shots:
  assumes "test_step H pm pm'" "generated.shots_ok pm"
  shows "generated.shots_ok pm'"
  using assms
proof (cases rule: test_step.cases)
  case (Returning f s b r)
  with assms(2) show ?thesis by (auto simp: returning_def intro: generated.add_rule_shots)
next
  case (Returning_once g b r)
  obtain rc where "for_once (bd_config b) = rc" by simp
  with Returning_once assms(2) show ?thesis
    by (cases rc) (auto simp: returning_once_def intro: generated.add_rule_shots)
next
  case (Called t site handler args ro)
  with assms(2) show ?thesis
    by (auto simp: mock_call_def split: option.splits
        intro: generated.answer_call_shots generated.forward_call_shots)
qed (use assms(2) in \<open>auto intro: generated.checkpoint_shots generated.other_change_shots\<close>)

lemma async_step_shots:
  assumes "async_step H output_of pm pm'" "async.shots_ok pm"
  shows "async.shots_ok pm'"
  using assms
proof (cases rule: async_step.cases)
  case (Async_returning f s b r)
  with assms(2) show ?thesis by (auto simp: async_returning_def intro: async.add_rule_shots)
next
  case (Async_once g b r)
  obtain rc where "for_once (bd_config b) = rc" by simp
  with Async_once assms(2) show ?thesis
    by (cases rc) (auto simp: async_returning_once_def async_returning_def intro: async.add_rule_shots)
next
  case (Polled ty t source handler ro)
  with assms(2) show ?thesis
    by (auto simp: poll_mock_def lookup_state_def split: option.splits if_splits
        intro: async.answer_call_shots async.forward_call_shots)
qed (use assms(2) in \<open>auto simp: async_shared intro: async.checkpoint_shots async.other_change_shots\<close>)

lemma test_run_shots: "(test_step H)\<^sup>*\<^sup>* pm pm' \<Longrightarrow> no_mocks pm \<Longrightarrow> generated.shots_ok pm'"
  by (induction rule: rtranclp_induct) (auto intro: generated.no_mocks_shots test_step_shots)

lemma async_run_shots: "(async_step H output_of)\<^sup>*\<^sup>* pm pm' \<Longrightarrow> no_mocks pm \<Longrightarrow> async.shots_ok pm'"
  by (induction rule: rtranclp_induct) (auto intro: async.no_mocks_shots async_step_shots)

section \<open>Properties of calls\<close>

text \<open>
  C15: What a call of a mocked function does. When the thread has a mock at the site and is not
  inside it already, the first registered expectation that matches the arguments and is not
  exhausted answers, if it may be called now: the call ends as its action ends (a value or a
  panic), one call is counted, the action keeps its new state, and nothing else of the program
  changes; in particular the guard against recursion is as before, also when the action unwinds.
\<close>

theorem mock_call_answers:
  assumes "current_slot t (mc_slots (pm_machine pm) site) = Some i" "i \<notin> set (pm_entered pm t)"
    "st_active (pm_state i pm)" "h = mc_heap (pm_machine pm)"
    "List.find (\<lambda>(j, matcher). matcher args \<and> \<not> exhausted (metas h j)) (st_rules (pm_state i pm)) = Some (m, q)"
    "claimable h (metas h m)" "run_action (pm_actions pm m) args = (ra, act)"
  shows "mock_call H t site handler args pm =
    (and_then ra (\<lambda>v. Ok (Answered v)),
     (set_state i (pm_state i pm) (after_taken m h) pm)\<lparr>pm_actions := (pm_actions pm)(m := act)\<rparr>)"
proof -
  have "select (\<lambda>matcher. matcher args) (pm_state i pm) h = (Ok (m, q), pm_state i pm, after_taken m h)"
    using assms(3,5,6) by (simp add: select_Ok_iff candidate_def)
  with assms show ?thesis
    by (simp add: mock_call_def answer_call_eq rule_outcome_def choose_rule_def run_rule_def)
qed

definition sample_program :: "(nat, nat, unit, sim) program" where
  "sample_program = \<lparr>pm_machine = sample_machine\<lparr>
       mc_heap := \<lparr>seqs = (\<lambda>_. new_progress), metas = (\<lambda>_. new_meta ''f'' (from_usize 1)), fresh_meta = 1\<rparr>,
       mc_states := (\<lambda>_. new_state ''f'')(4 := (new_state ''f'')\<lparr>st_rules := [(0, \<lambda>x. 2 < x)]\<rparr>),
       mc_slots := (\<lambda>_. empty_slot)(9 := empty_slot\<lparr>sl_local := (\<lambda>_. None)(1 := Some 4)\<rparr>)\<rparr>,
     pm_actions = (\<lambda>_. Once (Some (\<lambda>x. Ok (x + 40)))), pm_entered = (\<lambda>_. [])\<rparr>"

theorem mock_call_answers_witness:
  "fst (mock_call sim_host 1 9 8192 5 sample_program) = Ok (Answered 45)"
proof -
  let ?h = "\<lparr>seqs = (\<lambda>_. new_progress), metas = (\<lambda>_. new_meta ''f'' (from_usize 1)), fresh_meta = 1\<rparr>"
  have "mock_call sim_host 1 9 8192 5 sample_program =
    (and_then (Ok 45) (\<lambda>v. Ok (Answered v)),
     (set_state 4 (pm_state 4 sample_program) (after_taken 0 ?h) sample_program)
       \<lparr>pm_actions := (pm_actions sample_program)(0 := Once None)\<rparr>)"
    by (rule mock_call_answers [where q = "\<lambda>x. 2 < x"])
      (simp_all add: sample_program_def pm_state_def current_slot_def empty_slot_def new_state_def
        claim_conditions new_meta_def from_usize_def usize_defs)
  then show ?thesis by simp
qed

text \<open>
  C17: A one-time response is used at most once. In every run of a test (expectations added, calls
  from any thread, checkpoints, mocks detached), the rule that a call selects never has a
  one-time action that was used before, for generated mocks and for async mocks, so the panics
  ''already used'' of the actions cannot be reached.
\<close>

theorem one_time_response_unused:
  "(no_mocks pm \<longrightarrow> (test_step H)\<^sup>*\<^sup>* pm pm1 \<longrightarrow> choose_rule i args pm1 = (Ok m, pm2) \<longrightarrow>
      pm_actions pm1 m \<noteq> Once None) \<and>
   (no_mocks apm \<longrightarrow> (async_step AH output_of)\<^sup>*\<^sup>* apm apm1 \<longrightarrow> choose_rule i () apm1 = (Ok m, apm2) \<longrightarrow>
      pm_actions apm1 m \<noteq> Repeat take_once None)"
proof (intro conjI impI)
  assume "no_mocks pm" "(test_step H)\<^sup>*\<^sup>* pm pm1"
  from test_run_shots [OF this(2,1)] show "pm_actions pm1 m \<noteq> Once None"
    if "choose_rule i args pm1 = (Ok m, pm2)" using that by (rule generated.chosen_unspent(1))
next
  assume "no_mocks apm" "(async_step AH output_of)\<^sup>*\<^sup>* apm apm1"
  from async_run_shots [OF this(2,1)] show "pm_actions apm1 m \<noteq> Repeat take_once None"
    if "choose_rule i () apm1 = (Ok m, apm2)" using that by (rule async.chosen_unspent(1))
qed

definition sample_unmocked :: "('a, 'v, 's, sim) program" where
  "sample_unmocked = \<lparr>pm_machine = sample_machine, pm_actions = (\<lambda>_. Once None), pm_entered = (\<lambda>_. [])\<rparr>"

lemma sample_returning_once:
  "returning_once f (expect_call 4) (sample_unmocked :: ('a, 'v, 's, sim) program) = (Ok 0, snd (returning_once f (expect_call 4) sample_unmocked))"
  by (simp add: returning_once_def expect_call_def for_once_def default_config_def validate_count_def
      from_usize_def add_rule_def add_with_def validate_config_def pm_state_def sample_unmocked_def
      sample_machine_def new_state_def Let_def)

theorem one_time_response_unused_witness:
  "\<exists>pm1 pm2. (test_step sim_host)\<^sup>*\<^sup>* (sample_unmocked :: (nat, nat, unit, sim) program) pm1 \<and>
     choose_rule 4 5 pm1 = (Ok 0, pm2) \<and> pm_actions pm1 0 \<noteq> Once None"
proof -
  let ?pm = "sample_unmocked :: (nat, nat, unit, sim) program"
  let ?pm1 = "snd (returning_once (\<lambda>x. Ok (x + 1)) (expect_call 4) ?pm)"
  have run: "(test_step sim_host)\<^sup>*\<^sup>* ?pm ?pm1"
    by (rule r_into_rtranclp, rule Returning_once [OF sample_returning_once])
  have start: "no_mocks ?pm"
    by (simp add: no_mocks_def pm_state_def sample_unmocked_def sample_machine_def new_state_def)
  obtain pm2 where c: "choose_rule 4 5 ?pm1 = (Ok 0, pm2)"
    by (simp add: returning_once_def expect_call_def for_once_def default_config_def validate_count_def
      from_usize_def add_rule_def add_with_def validate_config_def pm_state_def sample_unmocked_def
      sample_machine_def new_state_def Let_def choose_rule_def set_state_def select_eq_spec select_spec_def
      claim_conditions new_meta_def usize_defs)
  from one_time_response_unused [of ?pm sim_host ?pm1 4 5 0 pm2] run start c show ?thesis by blast
qed



end
