(* ===== verification/Arm64_Trampoline.thy ===== *)
theory Arm64_Trampoline
  imports Arm64_Machine
begin

text \<open>
  The ARM64 trampoline does what the displaced instructions did: a simulation, instruction by
  instruction, of their run at the entry of the function by the code that \<open>arm_trampoline\<close> builds,
  on the reference semantics of theory \<open>Arm64_Machine\<close>.
\<close>

section \<open>Blocks\<close>

text \<open>
  The code emits for every displaced instruction a block: some fixed bytes and, for a direct
  branch, a branch word that is filled in at the end. \<open>block_moves\<close> says that the block at
  \<open>a\<close> does what the instruction \<open>w\<close> does at \<open>pc\<close>, when its branch word leads to \<open>land g\<close> for the
  goal \<open>g\<close> of the instruction.
\<close>

definition block_bytes :: "u32 \<Rightarrow> u8 list \<Rightarrow> usize option \<Rightarrow> u8 list" where
  "block_bytes b head goal_of = head @ (case goal_of of None \<Rightarrow> [] | Some _ \<Rightarrow> u32_to_le b)"

definition block_moves ::
  "'x other \<Rightarrow> 'x vector \<Rightarrow> usize \<Rightarrow> u32 \<Rightarrow> usize \<Rightarrow> u8 list \<Rightarrow> usize option \<Rightarrow> bool" where
  "block_moves other vector pc w a head br \<longleftrightarrow>
     (\<forall>g. br = Some g \<longrightarrow> g \<le> usize_max) \<and>
     (\<forall>s g. snd (exec other vector pc w s) = Direct g \<longrightarrow> br = Some g) \<and>
     (\<forall>s s' f land b. exec other vector pc w s = (s', f) \<longrightarrow>
        stands_at (cpu_mem s) a (block_bytes b head br) \<longrightarrow>
        (\<forall>g s. br = Some g \<longrightarrow> exec other vector (a + length head) b s = (s, Direct (land g))) \<longrightarrow>
        arm_reaches other vector (a, s)
          (case f of Fall \<Rightarrow> a + length (block_bytes b head br) | Direct g \<Rightarrow> land g | Register g \<Rightarrow> g, s'))"

definition appended :: "arm_tramp \<Rightarrow> u8 list \<Rightarrow> usize option \<Rightarrow> arm_tramp \<Rightarrow> bool" where
  "appended tr head br tr' \<longleftrightarrow>
     at_output tr' = at_output tr @ block_bytes 0x14000000 head br \<and>
     at_positions tr' = at_positions tr \<and>
     at_branches tr' = at_branches tr @
       (case br of None \<Rightarrow> [] | Some g \<Rightarrow> [(length (at_output tr) + length head, g)])"

section \<open>One instruction\<close>

lemma add_signed_Ok: "add_signed a d = Ok t \<longleftrightarrow> 0 \<le> int a + d \<and> int a + d \<le> int usize_max \<and> t = nat (int a + d)"
  by (auto simp: add_signed_def result_simps usize_try_from_def)

lemma goal_add_signed:
  assumes "add_signed pc (signed_field v n * 4) = Ok t" "take_bit n v = take_bit n (drop_bit lo w)" "0 < n" "n < 32"
  shows "goal pc lo n w = t"
proof -
  have "signed_field v n = sfield lo n w"
    using signed_take_bit_uint_cong [OF assms(2,3)] assms(3,4) by (simp add: signed_field_eq sfield_def)
  with assms(1) show ?thesis by (auto simp: add_signed_Ok goal_def wrap64_id mult.commute)
qed

lemma length_emit_constant [simp]: "length (emit_constant bytes r v) = length bytes + 16"
  by (simp add: emit_constant_eq)

lemma emit_constant_append: "emit_constant bytes r v = bytes @ emit_constant [] r v"
  by (simp add: emit_constant_eq)

lemma goal_le [simp]: "goal pc lo n w \<le> usize_max"
proof -
  have "wrap64 x < 2 ^ 64" for x by (simp add: wrap64_def nat_less_iff)
  from this [of "int pc + 4 * sfield lo n w"] show ?thesis by (simp add: goal_def usize_defs)
qed

lemma block_branch:
  assumes "\<And>s. exec other vector pc w s = (s, Direct g)" "g \<le> usize_max"
  shows "block_moves other vector pc w a [] (Some g)"
  unfolding block_moves_def block_bytes_def using assms by (auto intro!: reaches_step)

lemma block_call:
  assumes "\<And>s. exec other vector pc w s = (set_reg 30 (word_of_nat c) s, Direct g)" "c \<le> usize_max"
    "g \<le> usize_max"
  shows "block_moves other vector pc w a (emit_constant [] 30 c) (Some g)"
  unfolding block_moves_def
proof (intro conjI allI impI)
  fix s s' f land b
  assume e: "exec other vector pc w s = (s', f)"
    and st: "stands_at (cpu_mem s) a (block_bytes b (emit_constant [] 30 c) (Some g))"
    and b: "\<forall>h s. Some g = Some h \<longrightarrow>
      exec other vector (a + length (emit_constant [] 30 c)) b s = (s, Direct (land h))"
  let ?t = "set_reg 30 (word_of_nat c) s"
  have st': "stands_at (cpu_mem s) a (emit_constant [] 30 c)" "stands_at (cpu_mem ?t) (a + 16) (u32_to_le b)"
    using st by (simp_all add: block_bytes_def stands_at_append)
  have "arm_reaches other vector (a, s) (a + 16, ?t)"
    using reaches_constant [OF st'(1) _ assms(2), of other vector] by simp
  moreover have "arm_reaches other vector (a + 16, ?t) (land g, ?t)"
    by (rule reaches_step [OF st'(2)]) (use b in auto)
  ultimately show "arm_reaches other vector (a, s) (case f of
      Fall \<Rightarrow> a + length (block_bytes b (emit_constant [] 30 c) (Some g)) | Direct g \<Rightarrow> land g | Register g \<Rightarrow> g, s')"
    using e assms(1) by (auto intro: reaches_trans)
qed (use assms in auto)

lemma move_immediate_branch_block:
  assumes "move_immediate_branch (source + n) n offset pc w tr = Ok tr'" "pc = source + offset"
    "w AND 0x7c000000 = 0x14000000" "source + n \<le> usize_max"
  shows "\<exists>head br. appended tr head br tr' \<and>
    block_moves other vector pc w a head br"
proof -
  from assms(1) obtain g where g: "add_signed pc (signed_field (w AND 0x03ffffff) 26 * 4) = Ok g"
    and tr: "if w AND 0x80000000 \<noteq> 0
      then offset + 4 = n \<and> tr' = emit_branch (emit_constant (at_output tr) 30 (source + n)) g tr
      else tr' = emit_branch (at_output tr) g tr"
    by (auto simp: move_immediate_branch_def result_simps split: if_splits)
  have go: "goal pc 0 26 w = g" using g by (rule goal_add_signed) (simp_all add: blast32)
  show ?thesis
  proof (cases "w AND 0x80000000 = 0")
    case True
    with assms(3) have "w AND 0xfc000000 = 0x14000000" by (simp add: blast32)
    with go have "exec other vector pc w s = (s, Direct g)" for s by (simp add: exec_def)
    from block_branch [OF this, of a] go [symmetric] True tr show ?thesis
      by (intro exI [of _ "[]"] exI [of _ "Some g"])
        (simp add: appended_def emit_branch_def block_bytes_def emit_word_def)
  next
    case False
    with assms(3) have "w AND 0xfc000000 = 0x94000000" by (simp add: blast32)
    with go False tr assms(2) have "exec other vector pc w s = (set_reg 30 (word_of_nat (source + n)) s, Direct g)" for s
      by (auto simp: exec_def add.assoc)
    from block_call [OF this assms(4), of a] go [symmetric] False tr show ?thesis
      by (intro exI [of _ "emit_constant [] 30 (source + n)"] exI [of _ "Some g"])
        (simp add: appended_def emit_branch_def block_bytes_def emit_word_def emit_constant_append [of "at_output tr"])
  qed
qed

text \<open>
  A conditional branch becomes the inverted condition over a branch word: when the condition of the
  original holds, the branch word runs, and otherwise it is skipped.
\<close>

lemma block_conditional:
  assumes "\<And>s. exec other vector pc w s = branch_if (taken s) g s"
    "\<And>s. exec other vector a i s = branch_if (\<not> taken s) (a + 8) s" "g \<le> usize_max"
  shows "block_moves other vector pc w a (u32_to_le i) (Some g)"
  unfolding block_moves_def
proof (intro conjI allI impI)
  fix s s' f land b
  assume e: "exec other vector pc w s = (s', f)"
    and st: "stands_at (cpu_mem s) a (block_bytes b (u32_to_le i) (Some g))"
    and b: "\<forall>h s. Some g = Some h \<longrightarrow> exec other vector (a + length (u32_to_le i)) b s = (s, Direct (land h))"
  have st': "stands_at (cpu_mem s) a (u32_to_le i)" "stands_at (cpu_mem s) (a + 4) (u32_to_le b)"
    using st by (simp_all add: block_bytes_def stands_at_append)
  show "arm_reaches other vector (a, s) (case f of
      Fall \<Rightarrow> a + length (block_bytes b (u32_to_le i) (Some g)) | Direct g \<Rightarrow> land g | Register g \<Rightarrow> g, s')"
  proof (cases "taken s")
    case True
    with assms(1) e have f: "f = Direct g" "s' = s" by (auto simp: branch_if_def)
    have "arm_reaches other vector (a + 4, s) (land g, s)"
      by (rule reaches_step [OF st'(2)]) (use b in auto)
    with True assms(2) f show ?thesis
      by (auto intro!: reaches_fall [OF st'(1)] simp: branch_if_def)
  next
    case False
    with assms(1) e have f: "f = Fall" "s' = s" by (auto simp: branch_if_def)
    with False assms(2) show ?thesis
      by (auto intro!: reaches_step [OF st'(1)] simp: branch_if_def block_bytes_def)
  qed
qed (use assms in \<open>auto simp: branch_if_def split: if_splits\<close>)

lemma goal_skip:
  assumes "a + 8 \<le> usize_max" "take_bit n (drop_bit lo w) = 2" "n = 14 \<or> n = 19"
  shows "goal a lo n w = a + 8"
proof -
  have "sfield lo n w = signed_take_bit (n - 1) (uint (2 :: u32))"
    using assms(2,3) by (intro sfield_eq) auto
  then have "sfield lo n w = 2" using assms(3) by auto
  with assms(1) show ?thesis by (simp add: goal_def wrap64_id nat_add_distrib)
qed

definition branch_field :: "nat \<Rightarrow> u32" where
  "branch_field n = push_bit 5 (push_bit n 1 - 1)"

definition inverted :: "nat \<Rightarrow> u32 \<Rightarrow> u32 \<Rightarrow> u32" where
  "inverted n flip w = ((w AND NOT (branch_field n)) XOR flip) OR push_bit 5 2"

lemmas inverted_defs = inverted_def branch_field_def

lemma exec_conditional: "is_conditional w \<Longrightarrow>
    exec other vector pc w s = branch_if (condition (take_bit 4 w) (cpu_flags s)) (goal pc 5 19 w) s"
  by (simp add: exec_def is_conditional_def blast32)

lemma exec_compare: "is_compare_branch w \<Longrightarrow>
    exec other vector pc w s = branch_if (compare_taken w s) (goal pc 5 19 w) s"
  by (simp add: exec_def is_compare_branch_def blast32)

lemma exec_test: "is_test_branch w \<Longrightarrow>
    exec other vector pc w s = branch_if (test_taken w s) (goal pc 5 14 w) s"
  by (simp add: exec_def is_test_branch_def blast32)

lemma inverted_compare:
  fixes w :: u32
  assumes "is_compare_branch w"
  defines "i \<equiv> inverted 19 (push_bit 24 1) w"
  shows "is_compare_branch i" "take_bit 19 (drop_bit 5 i) = 2" "compare_taken i s \<longleftrightarrow> \<not> compare_taken w s"
proof -
  have "bit i 24 \<longleftrightarrow> \<not> bit w 24" "bit i 31 = bit w 31" by (simp_all add: i_def inverted_defs bit_simps)
  moreover have "ufield 0 5 i = ufield 0 5 w"
    unfolding ufield_def by (rule arg_cong [of _ _ unat]) (simp add: blast32 i_def inverted_defs)
  ultimately show "compare_taken i s \<longleftrightarrow> \<not> compare_taken w s" by (auto simp: compare_taken_def)
  show "is_compare_branch i" "take_bit 19 (drop_bit 5 i) = 2"
    using assms(1) by (simp_all add: is_compare_branch_def i_def inverted_defs blast32)
qed

lemma inverted_test:
  fixes w :: u32
  assumes "is_test_branch w"
  defines "i \<equiv> inverted 14 (push_bit 24 1) w"
  shows "is_test_branch i" "take_bit 14 (drop_bit 5 i) = 2" "test_taken i s \<longleftrightarrow> \<not> test_taken w s"
proof -
  have "bit i 24 \<longleftrightarrow> \<not> bit w 24" by (simp add: i_def inverted_defs bit_simps)
  moreover have "ufield 0 5 i = ufield 0 5 w" "ufield 31 1 i = ufield 31 1 w" "ufield 19 5 i = ufield 19 5 w"
    unfolding ufield_def by (rule arg_cong [of _ _ unat], simp add: blast32 i_def inverted_defs)+
  ultimately show "test_taken i s \<longleftrightarrow> \<not> test_taken w s" by (auto simp: test_taken_def)
  show "is_test_branch i" "take_bit 14 (drop_bit 5 i) = 2"
    using assms(1) by (simp_all add: is_test_branch_def i_def inverted_defs blast32)
qed

lemma always_bits: "w AND 15 < (14 :: u32) \<longleftrightarrow> take_bit 3 (drop_bit 1 w) \<noteq> 7"
proof -
  have "unat (w AND 15) < 16"
    using unsigned_less [of "w AND 15"] take_bit_nat_less_exp [of 4 "unat w"]
    by (simp add: take_bit_eq_mask mask_numeral unsigned_and_eq)
  then have "w AND 15 < 14 \<longleftrightarrow> \<not> (w AND 15 = 14 \<or> w AND 15 = 15)"
    by (auto simp: word_less_nat_alt word_unat_eq_iff)
  also have "\<dots> \<longleftrightarrow> take_bit 3 (drop_bit 1 w) \<noteq> 7"
    by (simp add: blast32 numeral_2_eq_2 numeral_3_eq_3) blast
  finally show ?thesis .
qed

lemma inverted_conditional:
  fixes w :: u32
  assumes "is_conditional w" "w AND 15 < 14"
  defines "i \<equiv> inverted 19 (1) w"
  shows "is_conditional i" "take_bit 19 (drop_bit 5 i) = 2"
    "condition (take_bit 4 i) fl \<longleftrightarrow> \<not> condition (take_bit 4 w) fl"
proof -
  have "bit i 0 \<longleftrightarrow> \<not> bit w 0" by (simp add: i_def inverted_defs bit_simps)
  moreover have "take_bit 3 (drop_bit 1 (take_bit 4 i)) = take_bit 3 (drop_bit 1 w)"
    "take_bit 3 (drop_bit 1 (take_bit 4 w)) = take_bit 3 (drop_bit 1 w)" by (simp_all add: blast32 i_def inverted_defs)
  ultimately show "condition (take_bit 4 i) fl \<longleftrightarrow> \<not> condition (take_bit 4 w) fl"
    using assms(2) unfolding always_bits by (cases fl) (auto simp: Let_def bit_take_bit_iff)
  show "is_conditional i" "take_bit 19 (drop_bit 5 i) = 2"
    using assms(1) by (simp_all add: is_conditional_def i_def inverted_defs blast32)
qed

lemma branch_goals:
  assumes "add_signed pc (signed_field (drop_bit 5 (w AND branch_field n)) n * 4) = Ok g" "n = 14 \<or> n = 19"
  shows "goal pc 5 n w = g"
  using assms(1) by (rule goal_add_signed) (use assms(2) in \<open>auto simp: branch_field_def blast32\<close>)

lemma test_block:
  assumes "is_test_branch w" "a + 8 \<le> usize_max"
  shows "block_moves other vector pc w a (u32_to_le (inverted 14 (push_bit 24 1) w)) (Some (goal pc 5 14 w))"
proof (rule block_conditional)
  note i = inverted_test [OF assms(1)]
  show "exec other vector pc w s = branch_if (test_taken w s) (goal pc 5 14 w) s" for s
    by (rule exec_test [OF assms(1)])
  show "exec other vector a (inverted 14 (push_bit 24 1) w) s = branch_if (\<not> test_taken w s) (a + 8) s" for s
    unfolding exec_test [OF i(1)] i(3) using goal_skip [OF assms(2) i(2)] by simp
qed simp

lemma compare_block:
  assumes "is_compare_branch w" "a + 8 \<le> usize_max"
  shows "block_moves other vector pc w a (u32_to_le (inverted 19 (push_bit 24 1) w)) (Some (goal pc 5 19 w))"
proof (rule block_conditional)
  note i = inverted_compare [OF assms(1)]
  show "exec other vector pc w s = branch_if (compare_taken w s) (goal pc 5 19 w) s" for s
    by (rule exec_compare [OF assms(1)])
  show "exec other vector a (inverted 19 (push_bit 24 1) w) s = branch_if (\<not> compare_taken w s) (a + 8) s" for s
    unfolding exec_compare [OF i(1)] i(3) using goal_skip [OF assms(2) i(2)] by simp
qed simp

lemma conditional_block:
  assumes "is_conditional w" "w AND 15 < 14" "a + 8 \<le> usize_max"
  shows "block_moves other vector pc w a (u32_to_le (inverted 19 1 w)) (Some (goal pc 5 19 w))"
proof (rule block_conditional)
  note i = inverted_conditional [OF assms(1,2)]
  show "exec other vector pc w s = branch_if (condition (take_bit 4 w) (cpu_flags s)) (goal pc 5 19 w) s" for s
    by (rule exec_conditional [OF assms(1)])
  show "exec other vector a (inverted 19 1 w) s =
      branch_if (\<not> condition (take_bit 4 w) (cpu_flags s)) (a + 8) s" for s
    unfolding exec_conditional [OF i(1)] i(3) using goal_skip [OF assms(3) i(2)] by simp
qed simp

lemma always_block:
  assumes "is_conditional w" "\<not> w AND 15 < 14"
  shows "block_moves other vector pc w a [] (Some (goal pc 5 19 w))"
proof (rule block_branch)
  have "take_bit 3 (drop_bit 1 (take_bit 4 w)) = take_bit 3 (drop_bit 1 w)" by (simp add: blast32)
  with assms(2) have "condition (take_bit 4 w) fl" for fl
    unfolding always_bits by (cases fl) (simp add: Let_def)
  then show "exec other vector pc w s = (s, Direct (goal pc 5 19 w))" for s
    unfolding exec_conditional [OF assms(1)] by (simp add: branch_if_def)
qed simp

lemma appended_branch:
  "appended tr head (Some g)
     (emit_branch (at_output tr @ head) g tr)"
  by (simp add: appended_def emit_branch_def block_bytes_def emit_word_def)

lemma move_conditional_branch_block:
  assumes "move_conditional_branch pc w tr = Ok tr'"
    "is_conditional w \<or> is_compare_branch w \<or> is_test_branch w" "a + 8 \<le> usize_max"
  shows "\<exists>head br. appended tr head br tr' \<and>
    block_moves other vector pc w a head br"
proof -
  let ?n = "if is_test_branch w then 14 else 19 :: nat"
  let ?head = "if is_conditional w then if w AND 15 < 14 then u32_to_le (inverted ?n 1 w) else []
    else u32_to_le (inverted ?n (push_bit 24 1) w)"
  from assms(1) obtain g where
    g: "add_signed pc (signed_field (drop_bit 5 (w AND branch_field ?n)) ?n * 4) = Ok g"
    and tr: "tr' = emit_branch (at_output tr @ ?head) g tr"
    unfolding move_conditional_branch_def branch_field_def [symmetric] inverted_def [symmetric] Let_def
    by (auto simp: result_simps emit_word_def)
  have go: "goal pc 5 ?n w = g" using g by (rule branch_goals) simp
  consider (test) "is_test_branch w" "\<not> is_conditional w"
    | (compare) "is_compare_branch w" "\<not> is_test_branch w" "\<not> is_conditional w"
    | (conditional) "is_conditional w" "\<not> is_test_branch w"
    using assms(2) by (auto simp: is_conditional_def is_test_branch_def is_compare_branch_def blast32)
  then have "block_moves other vector pc w a ?head (Some (goal pc 5 ?n w))"
    by cases (simp_all add: test_block [simplified] compare_block [simplified] conditional_block always_block assms(3))
  with go appended_branch [of tr ?head g] show ?thesis unfolding tr by metis
qed

lemma block_word:
  assumes "\<And>s. exec other vector a i s = exec other vector pc w s" "\<And>s g. snd (exec other vector pc w s) \<noteq> Direct g"
  shows "block_moves other vector pc w a (u32_to_le i) None"
  unfolding block_moves_def
proof (intro conjI allI impI)
  fix s s' f land b
  assume e: "exec other vector pc w s = (s', f)"
    and st: "stands_at (cpu_mem s) a (block_bytes b (u32_to_le i) None)"
  have "exec other vector a i s = (s', f)" using e assms(1) by simp
  with st e assms(2) [of s] show "arm_reaches other vector (a, s) (case f of
      Fall \<Rightarrow> a + length (block_bytes b (u32_to_le i) None) | Direct g \<Rightarrow> land g | Register g \<Rightarrow> g, s')"
    by (auto intro!: reaches_step simp: block_bytes_def split: flow.split)
qed (use assms in auto)

text \<open>A block that loads a constant and then runs one more word, or none.\<close>

lemma block_constant:
  assumes "\<And>s. exec other vector pc w s = (set_reg (unat r) (word_of_nat v) s, Fall)"
    "take_bit 5 r = r" "v \<le> usize_max"
  shows "block_moves other vector pc w a (emit_constant [] r v) None"
  unfolding block_moves_def block_bytes_def using assms
  by (auto intro!: reaches_constant)

lemma block_constant_word:
  assumes "\<And>s. exec other vector (a + 16) i (set_reg (unat r) (word_of_nat v) s) = exec other vector pc w s"
    "\<And>s g. snd (exec other vector pc w s) \<noteq> Direct g" "take_bit 5 r = r" "v \<le> usize_max"
  shows "block_moves other vector pc w a (emit_constant [] r v @ u32_to_le i) None"
  unfolding block_moves_def
proof (intro conjI allI impI)
  fix s s' f land b
  assume e: "exec other vector pc w s = (s', f)"
    and st: "stands_at (cpu_mem s) a (block_bytes b (emit_constant [] r v @ u32_to_le i) None)"
  let ?t = "set_reg (unat r) (word_of_nat v) s"
  have st': "stands_at (cpu_mem s) a (emit_constant [] r v)" "stands_at (cpu_mem ?t) (a + 16) (u32_to_le i)"
    using st by (simp_all add: block_bytes_def stands_at_append)
  have "exec other vector (a + 16) i ?t = (s', f)" using e assms(1) by simp
  with st'(2) e assms(2) [of s] have "arm_reaches other vector (a + 16, ?t) (case f of
      Fall \<Rightarrow> a + 20 | Direct g \<Rightarrow> land g | Register g \<Rightarrow> g, s')"
    by (auto intro!: reaches_step split: flow.split)
  from reaches_trans [OF reaches_constant [OF st'(1) assms(3,4)] this] show "arm_reaches other vector (a, s) (case f of
      Fall \<Rightarrow> a + length (block_bytes b (emit_constant [] r v @ u32_to_le i) None)
    | Direct g \<Rightarrow> land g | Register g \<Rightarrow> g, s')"
    by (cases f) (simp_all add: block_bytes_def)
qed (use assms in auto)

lemma exec_plain:
  assumes "w AND 0x7c000000 \<noteq> 0x14000000" "\<not> is_conditional w" "\<not> is_compare_branch w" "\<not> is_test_branch w"
    "w AND 0x1f000000 \<noteq> 0x10000000" "w AND 0x3b000000 \<noteq> 0x18000000" "w AND 0xfffffc1f \<noteq> 0xd63f0000"
  shows "exec other vector a w s = exec other vector pc w s" "snd (exec other vector pc w s) \<noteq> Direct g"
proof -
  have c: "w AND 0xfc000000 \<noteq> 0x14000000" "w AND 0xfc000000 \<noteq> 0x94000000"
    "w AND 0xff000010 \<noteq> 0x54000000" "w AND 0x7e000000 \<noteq> 0x34000000"
    "w AND 0x7e000000 \<noteq> 0x36000000" "w AND 0x9f000000 \<noteq> 0x10000000"
    "w AND 0x9f000000 \<noteq> 0x90000000"
    using assms(1-5) by (auto simp: blast32 is_conditional_def is_compare_branch_def is_test_branch_def)
  note n = c [THEN if_not_P] assms(6,7) [THEN if_not_P]
  show "exec other vector a w s = exec other vector pc w s"
    unfolding exec_def Let_def n by simp
  show "snd (exec other vector pc w s) \<noteq> Direct g"
    unfolding exec_def Let_def n by (auto split: prod.split option.split)
qed

lemma appended_plain:
  "appended tr head None
     (tr\<lparr>at_output := at_output tr @ head\<rparr>)"
  by (simp add: appended_def block_bytes_def)

lemma register_field: "take_bit 5 (w AND 31) = (w AND 31 :: u32)" "unat (w AND 31) = ufield 0 5 w"
  by (simp_all add: ufield_def take_bit_eq_mask mask_numeral and.assoc)

lemma move_address_block:
  assumes "move_address pc w tr = Ok tr'" "w AND 0x1f000000 = 0x10000000"
  shows "\<exists>head br. appended tr head br tr' \<and>
    block_moves other vector pc w a head br"
proof -
  let ?imm = "push_bit 2 (drop_bit 5 w AND 0x7ffff) OR (drop_bit 29 w AND 3)"
  from assms(1) obtain t where tr: "tr' = tr\<lparr>at_output := at_output tr @ emit_constant [] (w AND 31) t\<rparr>"
    and t: "(if w AND 0x80000000 \<noteq> 0 then add_signed (pc div 4096 * 4096) (signed_field ?imm 21 * 4096)
       else add_signed pc (signed_field ?imm 21)) = Ok t"
    unfolding move_address_def Let_def and_then_eq_Ok by (auto simp: emit_constant_append [of "at_output tr"])
  have imm: "signed_field ?imm 21 = adr_offset w"
    unfolding signed_field_eq [of 21, simplified] adr_offset_def
    by (rule signed_take_bit_uint_cong [of 21, simplified]) (simp add: blast32)
  have t': "word_of_nat t = (word_of_int (if bit w 31 then int (pc div 4096 * 4096) + 4096 * adr_offset w
      else int pc + adr_offset w) :: u64)" "t \<le> usize_max"
    using t unfolding imm by (auto simp: add_signed_Ok blast32 mult.commute split: if_splits)
  have "exec other vector pc w s = (set_reg (ufield 0 5 w) (word_of_nat t) s, Fall)" for s
  proof (cases "bit w 31")
    case True
    with assms(2) have "exec other vector pc w s =
      (set_reg (ufield 0 5 w) (word_of_int (int (pc div 4096 * 4096) + 4096 * adr_offset w)) s, Fall)"
      by (simp add: exec_def blast32)
    with True t'(1) show ?thesis by simp
  next
    case False
    with assms(2) have "exec other vector pc w s = (set_reg (ufield 0 5 w) (word_of_int (int pc + adr_offset w)) s, Fall)"
      by (simp add: exec_def blast32)
    with False t'(1) show ?thesis by simp
  qed
  then have "block_moves other vector pc w a (emit_constant [] (w AND 31) t) None"
    using t'(2) by (intro block_constant) (simp_all add: register_field [simplified])
  with appended_plain [of tr "emit_constant [] (w AND 31) t"] show ?thesis unfolding tr by auto
qed

lemma move_indirect_call_block:
  assumes "move_indirect_call (source + n) n offset w tr = Ok tr'" "pc = source + offset"
    "w AND 0xfffffc1f = 0xd63f0000" "source + n \<le> usize_max"
  shows "\<exists>head br. appended tr head br tr' \<and>
    block_moves other vector pc w a head br"
proof -
  let ?i = "w AND NOT (push_bit 21 1)"
  from assms(1) have l: "offset + 4 = n" and r: "drop_bit 5 w AND 31 \<noteq> 30"
    and tr: "tr' = tr\<lparr>at_output := at_output tr @ emit_constant [] 30 (source + n) @ u32_to_le ?i\<rparr>"
    unfolding move_indirect_call_def
    by (simp_all add: emit_word_def emit_constant_append [of "at_output tr"] split: if_splits)
  have i: "?i AND 0xfffffc1f = 0xd61f0000" using assms(3) by (simp add: blast32)
  have f: "ufield 5 5 ?i = ufield 5 5 w"
    unfolding ufield_def by (rule arg_cong [of _ _ unat]) (simp add: blast32)
  have rn: "ufield 5 5 w \<noteq> 30"
    using r by (auto simp: ufield_def take_bit_eq_mask mask_numeral word_unat_eq_iff)
  have e: "exec other vector pc w s = (set_reg 30 (word_of_nat (source + n)) s, Register (unat (reg s (ufield 5 5 w))))" for s
    using assms(2,3) l by (simp add: exec_def blast32 add.assoc)
  have b: "exec other vector p ?i s = (s, Register (unat (reg s (ufield 5 5 w))))" for p s
    using i unfolding f [symmetric] by (simp add: exec_def blast32)
  have "block_moves other vector pc w a (emit_constant [] 30 (source + n) @ u32_to_le ?i) None"
    using assms(4) rn by (intro block_constant_word) (auto simp: b [simplified] e reg_set_reg)
  with appended_plain [of tr "emit_constant [] 30 (source + n) @ u32_to_le ?i"] show ?thesis unfolding tr by auto
qed

lemma exec_literal: "w AND 0x3b000000 = 0x18000000 \<Longrightarrow>
    exec other vector pc w s = ((if bit w 26 then vector else load) (ufield 30 2 w) (ufield 0 5 w) (goal pc 5 19 w) s, Fall)"
  by (simp add: exec_def blast32)

lemma near_literal_block:
  assumes "w AND 0x3b000000 = 0x18000000" "relative a (goal pc 5 19 w) 19 = Ok d" "goal pc 5 19 w \<le> usize_max"
  shows "block_moves other vector pc w a (u32_to_le ((w AND NOT 0x00ffffe0) OR push_bit 5 d)) None"
proof (rule block_word)
  let ?i = "(w AND NOT 0x00ffffe0) OR push_bit 5 d"
  have d: "take_bit 19 d = d" using assms(2) by (rule relative_Ok) simp_all
  then have b: "\<not> bit d i" if "19 \<le> i" for i using that by (metis bit_take_bit_iff not_less)
  have i: "?i AND 0x3b000000 = 0x18000000" "bit ?i 26 = bit w 26"
    using assms(1) by (simp_all add: blast32 b)
  have f: "ufield 30 2 ?i = ufield 30 2 w" "ufield 0 5 ?i = ufield 0 5 w"
    unfolding ufield_def by (rule arg_cong [of _ _ unat], simp add: blast32 b)+
  have "goal a 5 19 ?i = goal pc 5 19 w"
    using assms(2) _ _ _ assms(3) by (rule goal_relative) (simp_all add: blast32 b)
  then show "exec other vector a ?i s = exec other vector pc w s" for s
    unfolding exec_literal [OF i(1)] exec_literal [OF assms(1)] f i(2) by simp
  show "snd (exec other vector pc w s) \<noteq> Direct g" for s g
    unfolding exec_literal [OF assms(1)] by simp
qed

lemma exec_register_load:
  assumes "take_bit 5 r = r" "r \<noteq> 31" "k < 3"
  shows "exec other vector pc ([0xb9400000, 0xf9400000, 0xb9800000] ! k OR push_bit 5 r OR r) s =
    (load k (unat r) (unat (reg s (unat r))) s, Fall)"
proof -
  let ?op = "[0xb9400000, 0xf9400000, 0xb9800000] ! k :: u32"
  let ?i = "?op OR push_bit 5 r OR r"
  have b: "\<not> bit r i" if "5 \<le> i" for i using assms(1) that by (metis bit_take_bit_iff not_less)
  have k: "k = 0 \<or> k = 1 \<or> k = 2" using assms(3) by linarith
  then have i: "?i AND 0xfffffc00 = ?op" by (auto simp: blast32 b)
  have f: "ufield 0 5 ?i = unat r" "ufield 5 5 ?i = unat r"
    unfolding ufield_def by (rule arg_cong [of _ _ unat], use k in \<open>auto simp: blast32 b\<close>)+
  have "unat r \<noteq> 31" using assms(2) by (auto simp: word_unat_eq_iff)
  have c: "?i AND 0xfc000000 \<noteq> 0x14000000" "?i AND 0xfc000000 \<noteq> 0x94000000"
    "?i AND 0xff000010 \<noteq> 0x54000000" "?i AND 0x7e000000 \<noteq> 0x34000000"
    "?i AND 0x7e000000 \<noteq> 0x36000000" "?i AND 0x9f000000 \<noteq> 0x10000000"
    "?i AND 0x9f000000 \<noteq> 0x90000000" "?i AND 0x3b000000 \<noteq> 0x18000000"
    "?i AND 0xfffffc1f \<noteq> 0xd61f0000" "?i AND 0xfffffc1f \<noteq> 0xd63f0000"
    "?i AND 0xff800000 \<noteq> 0xd2800000" "?i AND 0xff800000 \<noteq> 0xf2800000"
    using k by (auto simp: blast32 b)
  show ?thesis
    unfolding exec_def Let_def c [THEN if_not_P] f i using k \<open>unat r \<noteq> 31\<close> by auto
qed

lemma far_literal_block:
  assumes "w AND 0x3b000000 = 0x18000000" "\<not> bit w 26" "w AND 31 \<noteq> 31" "ufield 30 2 w < 3"
    "goal pc 5 19 w \<le> usize_max"
  shows "block_moves other vector pc w a (emit_constant [] (w AND 31) (goal pc 5 19 w) @
    u32_to_le ([0xb9400000, 0xf9400000, 0xb9800000] ! ufield 30 2 w OR push_bit 5 (w AND 31) OR (w AND 31))) None"
proof (rule block_constant_word)
  have r: "unat (w AND 31) \<noteq> 31" using assms(3) by (auto simp: word_unat_eq_iff)
  show "exec other vector (a + 16) ([0xb9400000, 0xf9400000, 0xb9800000] ! ufield 30 2 w OR
      push_bit 5 (w AND 31) OR (w AND 31)) (set_reg (unat (w AND 31)) (word_of_nat (goal pc 5 19 w)) s) =
    exec other vector pc w s" for s
    unfolding exec_register_load [OF register_field(1) assms(3,4)] exec_literal [OF assms(1)] register_field(2) [symmetric]
    using assms(2,4,5) r by (simp add: reg_set_reg unat_u64 load_def)
  show "snd (exec other vector pc w s) \<noteq> Direct g" for s g
    unfolding exec_literal [OF assms(1)] by simp
qed (use assms(5) in \<open>simp_all add: register_field(1) [simplified]\<close>)

lemma exec_nop: "exec other vector pc NOP s = (s, Fall)"
  by (simp add: exec_def NOP_def)

lemma move_literal_cases:
  assumes "move_literal destination pc w tr = Ok tr'"
  obtains (near) d where "relative (destination + length (at_output tr)) (goal pc 5 19 w) 19 = Ok d"
      "tr' = tr\<lparr>at_output := at_output tr @ u32_to_le ((w AND NOT 0x00ffffe0) OR push_bit 5 d)\<rparr>"
      "goal pc 5 19 w \<le> usize_max"
    | (prefetch) "\<not> bit w 26" "ufield 30 2 w = 3" "tr' = tr\<lparr>at_output := at_output tr @ u32_to_le NOP\<rparr>"
    | (far) "\<not> bit w 26" "w AND 31 \<noteq> 31" "ufield 30 2 w < 3"
      "tr' = tr\<lparr>at_output := at_output tr @ emit_constant [] (w AND 31) (goal pc 5 19 w) @
        u32_to_le ([0xb9400000, 0xf9400000, 0xb9800000] ! ufield 30 2 w OR push_bit 5 (w AND 31) OR (w AND 31))\<rparr>"
      "goal pc 5 19 w \<le> usize_max"
proof -
  from assms obtain t where t: "add_signed pc (signed_field (drop_bit 5 w AND 0x7ffff) 19 * 4) = Ok t"
    by (auto simp: move_literal_def result_simps)
  have go: "goal pc 5 19 w = t" using t by (rule goal_add_signed) (simp_all add: blast32)
  have max: "t \<le> usize_max" using t by (auto simp: add_signed_Ok)
  have beyond: "\<not> bit w i" if "32 \<le> i" for i using that bit_imp_le_length [of w i] by auto
  have top: "unat (drop_bit 30 w) = ufield 30 2 w"
    unfolding ufield_def by (rule arg_cong [of _ _ unat]) (simp add: blast32 beyond)
  have v: "w AND push_bit 26 1 \<noteq> 0 \<longleftrightarrow> bit w 26" by (simp add: blast32)
  let ?a = "destination + length (at_output tr)"
  have m: "(case relative ?a t 19 of
         Ok delta \<Rightarrow> Ok (tr\<lparr>at_output := at_output tr @ u32_to_le ((w AND NOT 0x00ffffe0) OR push_bit 5 delta)\<rparr>)
       | _ \<Rightarrow> if bit w 26 \<or> w AND 31 = 31 then Err InvalidRange
           else if ufield 30 2 w = 3 then Ok (tr\<lparr>at_output := at_output tr @ u32_to_le NOP\<rparr>)
           else and_then (index_at [0xb9400000, 0xf9400000, 0xb9800000] (ufield 30 2 w)) (\<lambda>opcode.
             Ok (tr\<lparr>at_output := at_output tr @ emit_constant [] (w AND 31) t @
               u32_to_le (opcode OR push_bit 5 (w AND 31) OR (w AND 31))\<rparr>))) = Ok tr'"
    using assms unfolding move_literal_def Let_def top v emit_word_def t and_then.simps and_then_eq_Ok [of "ok_or _ _"]
      emit_constant_append [of "at_output tr"] append_assoc
    by (auto simp: result_simps)
  show ?thesis
  proof (cases "relative ?a t 19")
    case (Ok d)
    with m max go near show ?thesis by simp
  qed (use m max go prefetch far in \<open>auto simp: result_simps index_at_def split: if_splits\<close>)
qed

lemma move_literal_block:
  assumes "move_literal destination pc w tr = Ok tr'" "w AND 0x3b000000 = 0x18000000"
    "a = destination + length (at_output tr)"
  shows "\<exists>head br. appended tr head br tr' \<and>
    block_moves other vector pc w a head br"
proof -
  from assms(1) have "\<exists>head. tr' = tr\<lparr>at_output := at_output tr @ head\<rparr> \<and> block_moves other vector pc w a head None"
  proof (cases rule: move_literal_cases)
    case (near d)
    from near_literal_block [OF assms(2) near(1) [folded assms(3)] near(3)] near(2) show ?thesis by blast
  next
    case prefetch
    have "exec other vector p NOP s = exec other vector pc w s" for p s
      unfolding exec_literal [OF assms(2)] exec_nop using prefetch(1,2) by (simp add: load_def)
    then have "block_moves other vector pc w a (u32_to_le NOP) None"
      by (intro block_word) (auto simp: exec_literal [OF assms(2)])
    with prefetch(3) show ?thesis by blast
  next
    case far
    from far_literal_block [OF assms(2) far(1-3,5)] far(4) show ?thesis by blast
  qed
  then obtain head where "tr' = tr\<lparr>at_output := at_output tr @ head\<rparr>" "block_moves other vector pc w a head None"
    by blast
  with appended_plain [of tr head] show ?thesis by auto
qed

lemma arm_move_block:
  assumes m: "arm_move source destination (source + n) n offset w tr = Ok tr'"
    and room: "destination + length (at_output tr) + 8 \<le> usize_max" "source + n \<le> usize_max"
  shows "\<exists>head br. appended (tr\<lparr>at_positions := at_positions tr @ [(offset, length (at_output tr))]\<rparr>) head br tr' \<and>
    block_moves other vector (source + offset) w (destination + length (at_output tr)) head br"
proof -
  let ?tr = "tr\<lparr>at_positions := at_positions tr @ [(offset, length (at_output tr))]\<rparr>"
  let ?pc = "source + offset"
  consider (branch) "w AND 0x7c000000 = 0x14000000" "move_immediate_branch (source + n) n offset ?pc w ?tr = Ok tr'"
    | (conditional) "is_conditional w \<or> is_compare_branch w \<or> is_test_branch w" "move_conditional_branch ?pc w ?tr = Ok tr'"
    | (address) "w AND 0x1f000000 = 0x10000000" "move_address ?pc w ?tr = Ok tr'"
    | (literal) "w AND 0x3b000000 = 0x18000000" "move_literal destination ?pc w ?tr = Ok tr'"
    | (call) "w AND 0xfffffc1f = 0xd63f0000" "move_indirect_call (source + n) n offset w ?tr = Ok tr'"
    | (plain) "w AND 0x7c000000 \<noteq> 0x14000000" "\<not> is_conditional w" "\<not> is_compare_branch w" "\<not> is_test_branch w"
      "w AND 0x1f000000 \<noteq> 0x10000000" "w AND 0x3b000000 \<noteq> 0x18000000" "w AND 0xfffffc1f \<noteq> 0xd63f0000"
      "move_plain w ?tr = Ok tr'"
    using m unfolding arm_move_def Let_def by (metis (no_types, lifting) result.distinct(1))
  then show ?thesis
  proof cases
    case branch
    from move_immediate_branch_block [OF branch(2) refl branch(1) room(2)] show ?thesis .
  next
    case conditional
    from move_conditional_branch_block [OF conditional(2,1)] room(1) show ?thesis .
  next
    case address
    from move_address_block [OF address(2,1)] show ?thesis .
  next
    case literal
    from move_literal_block [OF literal(2,1), of "destination + length (at_output tr)"] show ?thesis by simp
  next
    case call
    from move_indirect_call_block [OF call(2) refl call(1) room(2)] show ?thesis .
  next
    case plain
    have tr: "tr' = ?tr\<lparr>at_output := at_output ?tr @ u32_to_le w\<rparr>"
      using plain(8) by (auto simp: move_plain_def emit_word_def split: if_splits)
    have "block_moves other vector ?pc w (destination + length (at_output tr)) (u32_to_le w) None"
      by (rule block_word) (rule exec_plain [OF plain(1-7)])+
    with appended_plain [of ?tr "u32_to_le w"] show ?thesis unfolding tr by blast
  qed
qed

section \<open>All instructions\<close>

type_synonym arm_block = "u8 list \<times> usize option"

definition block_size :: "arm_block \<Rightarrow> nat" where
  "block_size b = length (fst b) + (if snd b = None then 0 else 4)"

lemma length_block_bytes [simp]: "length (block_bytes w (fst b) (snd b)) = block_size b"
  by (auto simp: block_bytes_def block_size_def)

text \<open>
  The output is a sequence of blocks. \<open>arm_render fill\<close> writes them with the branch word
  \<open>fill field goal\<close> at every branch field; the fields, the positions of the instructions and the
  places where the blocks start are read off the same list.
\<close>

primrec arm_render :: "(nat \<Rightarrow> usize \<Rightarrow> u32) \<Rightarrow> nat \<Rightarrow> arm_block list \<Rightarrow> u8 list" where
  "arm_render fill pos [] = []"
| "arm_render fill pos (b # bs) =
     block_bytes (fill (pos + length (fst b)) (the (snd b))) (fst b) (snd b) @
     arm_render fill (pos + block_size b) bs"

primrec arm_fields :: "nat \<Rightarrow> arm_block list \<Rightarrow> (nat \<times> usize) list" where
  "arm_fields pos [] = []"
| "arm_fields pos (b # bs) =
     (case snd b of None \<Rightarrow> [] | Some g \<Rightarrow> [(pos + length (fst b), g)]) @ arm_fields (pos + block_size b) bs"

primrec arm_starts :: "nat \<Rightarrow> arm_block list \<Rightarrow> nat list" where
  "arm_starts pos [] = [pos]"
| "arm_starts pos (b # bs) = pos # arm_starts (pos + block_size b) bs"

primrec arm_places :: "nat \<Rightarrow> nat \<Rightarrow> arm_block list \<Rightarrow> (nat \<times> nat) list" where
  "arm_places index pos [] = []"
| "arm_places index pos (b # bs) = (index * 4, pos) # arm_places (index + 1) (pos + block_size b) bs"

lemma move_literal_grows:
  "move_literal destination pc w tr = Ok tr' \<Longrightarrow> length (at_output tr) + 4 \<le> length (at_output tr')"
  by (erule move_literal_cases) simp_all

lemma arm_move_grows:
  "arm_move source destination continuation n offset w tr = Ok tr' \<Longrightarrow>
   length (at_output tr) + 4 \<le> length (at_output tr')"
  by (auto simp: arm_move_def move_immediate_branch_def move_conditional_branch_def move_address_def
      move_indirect_call_def move_plain_def emit_branch_def emit_word_def Let_def result_simps
      dest: move_literal_grows split: if_splits)

lemma arm_loop_grows:
  "arm_loop source destination continuation n index chunks tr = Ok tr' \<Longrightarrow>
   length (at_output tr) \<le> length (at_output tr')"
  by (induction source destination continuation n index chunks tr rule: arm_loop.induct)
    (fastforce simp: result_simps dest: arm_move_grows)+

lemma arm_loop_blocks:
  assumes "arm_loop source destination (source + n) n index chunks tr = Ok tr'"
    "\<forall>c\<in>set chunks. length c = 4" "destination + length (at_output tr') + 4 \<le> usize_max" "source + n \<le> usize_max"
  shows "\<exists>bs. length bs = length chunks \<and>
    at_output tr' = at_output tr @ arm_render (\<lambda>_ _. 0x14000000) (length (at_output tr)) bs \<and>
    at_branches tr' = at_branches tr @ arm_fields (length (at_output tr)) bs \<and>
    at_positions tr' = at_positions tr @ arm_places index (length (at_output tr)) bs \<and>
    (\<forall>i<length bs. block_moves other vector (source + (index + i) * 4) (u32_from_le (chunks ! i))
      (destination + arm_starts (length (at_output tr)) bs ! i) (fst (bs ! i)) (snd (bs ! i)))"
  using assms(1,2)
proof (induction chunks arbitrary: index tr)
  case Nil
  then show ?case by simp
next
  case (Cons c cs)
  let ?w = "u32_from_le c"
  from Cons.prems obtain tr1 where m: "arm_move source destination (source + n) n (index * 4) ?w tr = Ok tr1"
    and l: "arm_loop source destination (source + n) n (index + 1) cs tr1 = Ok tr'"
    by (auto simp: result_simps arm_word_def)
  have "destination + length (at_output tr) + 8 \<le> usize_max"
    using arm_move_grows [OF m] arm_loop_grows [OF l] assms(3) by linarith
  from arm_move_block [OF m this assms(4)] obtain b where
    a: "appended (tr\<lparr>at_positions := at_positions tr @ [(index * 4, length (at_output tr))]\<rparr>) (fst b) (snd b) tr1"
    and v: "block_moves other vector (source + index * 4) ?w (destination + length (at_output tr)) (fst b) (snd b)"
    by (metis fst_conv snd_conv)
  have len: "length (at_output tr1) = length (at_output tr) + block_size b" using a by (simp add: appended_def)
  from Cons.IH [OF l] Cons.prems(2) obtain bs where bs: "length bs = length cs"
    "at_output tr' = at_output tr1 @ arm_render (\<lambda>_ _. 0x14000000) (length (at_output tr1)) bs"
    "at_branches tr' = at_branches tr1 @ arm_fields (length (at_output tr1)) bs"
    "at_positions tr' = at_positions tr1 @ arm_places (index + 1) (length (at_output tr1)) bs"
    and w: "\<forall>i<length bs. block_moves other vector (source + (index + 1 + i) * 4) (u32_from_le (cs ! i))
      (destination + arm_starts (length (at_output tr1)) bs ! i) (fst (bs ! i)) (snd (bs ! i))" by auto
  show ?case
  proof (intro exI [of _ "b # bs"] conjI)
    show "\<forall>i<length (b # bs). block_moves other vector (source + (index + i) * 4) (u32_from_le ((c # cs) ! i))
        (destination + arm_starts (length (at_output tr)) (b # bs) ! i) (fst ((b # bs) ! i)) (snd ((b # bs) ! i))"
      using v w len by (auto simp: nth_Cons algebra_simps split: nat.split)
  qed (use a bs len in \<open>auto simp: appended_def split: option.splits\<close>)
qed

section \<open>Branch words\<close>

definition arm_landing :: "usize \<Rightarrow> usize \<Rightarrow> usize \<Rightarrow> (nat \<times> nat) list \<Rightarrow> usize \<Rightarrow> usize" where
  "arm_landing source destination continuation positions g =
     (if source \<le> g \<and> g < continuation
      then case List.find (\<lambda>entry. fst entry = g - source) positions of
             Some entry \<Rightarrow> destination + snd entry | None \<Rightarrow> g
      else g)"

definition arm_filled :: "usize \<Rightarrow> (usize \<Rightarrow> usize) \<Rightarrow> nat \<Rightarrow> usize \<Rightarrow> u32" where
  "arm_filled destination land field g =
     (case relative (destination + field) (land g) 26 of Ok delta \<Rightarrow> 0x14000000 OR delta | _ \<Rightarrow> 0x14000000)"

text \<open>A field is in range when its branch word was encoded and its goal, if displaced, was found.\<close>

definition field_ok :: "usize \<Rightarrow> usize \<Rightarrow> usize \<Rightarrow> (nat \<times> nat) list \<Rightarrow> nat \<times> usize \<Rightarrow> bool" where
  "field_ok source destination continuation positions br \<longleftrightarrow>
     (\<exists>delta. relative (destination + fst br)
        (arm_landing source destination continuation positions (snd br)) 26 = Ok delta) \<and>
     (source \<le> snd br \<longrightarrow> snd br < continuation \<longrightarrow>
       (\<exists>entry. List.find (\<lambda>entry. fst entry = snd br - source) positions = Some entry \<and>
          destination + snd entry \<le> usize_max))"

lemma arm_fixup_Ok:
  assumes "arm_fixup source destination continuation positions br (pre @ u32_to_le b @ post) = Ok out"
    "fst br = length pre"
  shows "field_ok source destination continuation positions br \<and>
    out = pre @ u32_to_le (arm_filled destination (arm_landing source destination continuation positions)
      (fst br) (snd br)) @ post"
proof -
  obtain field g where br: "br = (field, g)" by (cases br)
  have splice: "splice_at (pre @ u32_to_le b @ post) (length pre) (u32_to_le v) = pre @ u32_to_le v @ post" for v
    by (simp add: splice_at_def)
  show ?thesis
    using assms unfolding br
    by (auto simp: arm_fixup_def result_simps copy_from_slice_Ok field_ok_def arm_landing_def arm_filled_def splice
        split: if_splits)
qed

lemma arm_fixups_Ok:
  assumes "arm_fixups source destination continuation positions (arm_fields pos bs)
      (pre @ arm_render (\<lambda>_ _. 0x14000000) pos bs) = Ok out" "length pre = pos"
  shows "(\<forall>br\<in>set (arm_fields pos bs). field_ok source destination continuation positions br) \<and>
    out = pre @ arm_render (arm_filled destination (arm_landing source destination continuation positions)) pos bs"
  using assms
proof (induction bs arbitrary: pre pos out)
  case (Cons b bs)
  let ?fill = "arm_filled destination (arm_landing source destination continuation positions)"
  show ?case
  proof (cases "snd b")
    case None
    with Cons.prems Cons.IH [of "pos + block_size b" "pre @ fst b" out] show ?thesis
      by (auto simp: block_bytes_def block_size_def)
  next
    case (Some g)
    let ?br = "(pos + length (fst b), g)"
    let ?rest = "arm_render (\<lambda>_ _. 0x14000000) (pos + block_size b) bs"
    from Cons.prems Some obtain out1 where
      f: "arm_fixup source destination continuation positions ?br ((pre @ fst b) @ u32_to_le 0x14000000 @ ?rest) = Ok out1"
      and r: "arm_fixups source destination continuation positions (arm_fields (pos + block_size b) bs) out1 = Ok out"
      by (auto simp: result_simps block_bytes_def)
    have o: "field_ok source destination continuation positions ?br"
      "out1 = (pre @ fst b @ u32_to_le (?fill (pos + length (fst b)) g)) @ ?rest"
      using arm_fixup_Ok [OF f] Cons.prems(2) by simp_all
    from Cons.IH [OF r [unfolded o(2)]] o(1) Some Cons.prems(2) show ?thesis
      by (simp add: block_bytes_def block_size_def)
  qed
qed simp

section \<open>The whole trampoline\<close>

lemma arm_starts_0 [simp]: "arm_starts pos bs ! 0 = pos"
  by (cases bs) simp_all

lemma arm_starts_Suc: "i < length bs \<Longrightarrow> arm_starts pos bs ! Suc i = arm_starts pos bs ! i + block_size (bs ! i)"
  by (induction bs arbitrary: pos i) (auto simp: nth_Cons split: nat.split)

lemma arm_starts_end: "arm_starts pos bs ! length bs = pos + length (arm_render fill pos bs)"
  by (induction bs arbitrary: pos) simp_all

lemma render_block:
  assumes "stands_at mem (d + pos) (arm_render fill pos bs)" "i < length bs"
  shows "stands_at mem (d + arm_starts pos bs ! i)
    (block_bytes (fill (arm_starts pos bs ! i + length (fst (bs ! i))) (the (snd (bs ! i)))) (fst (bs ! i)) (snd (bs ! i)))"
  using assms
  by (induction bs arbitrary: pos i) (auto simp: stands_at_append nth_Cons add.assoc split: nat.split)

lemma arm_fields_mem:
  "i < length bs \<Longrightarrow> snd (bs ! i) = Some g \<Longrightarrow>
   (arm_starts pos bs ! i + length (fst (bs ! i)), g) \<in> set (arm_fields pos bs)"
  by (induction bs arbitrary: pos i) (auto simp: nth_Cons split: nat.splits)

lemma find_place:
  assumes "List.find (\<lambda>e. fst e = k) (arm_places index pos bs) = Some e"
  shows "\<exists>j<length bs. k = (index + j) * 4 \<and> snd e = arm_starts pos bs ! j"
  using assms
proof (induction bs arbitrary: index pos)
  case (Cons b bs)
  show ?case
  proof (cases "k = index * 4")
    case False
    with Cons.prems Cons.IH [of "index + 1" "pos + block_size b"] obtain j where
      "j < length bs" "k = (index + 1 + j) * 4" "snd e = arm_starts (pos + block_size b) bs ! j" by auto
    then show ?thesis by (intro exI [of _ "Suc j"]) simp
  qed (use Cons.prems in \<open>auto intro: exI [of _ 0]\<close>)
qed simp

definition arm_laid_out ::
  "'x other \<Rightarrow> 'x vector \<Rightarrow> usize \<Rightarrow> usize \<Rightarrow> u8 list \<Rightarrow> arm_block list \<Rightarrow> (usize \<Rightarrow> usize) \<Rightarrow> u8 list \<Rightarrow> u8 list \<Rightarrow> bool" where
  "arm_laid_out other vector source destination original bs land tail bytes \<longleftrightarrow>
     length bs = length (arm_words original) \<and> land = arm_landing source destination (source + length original) (arm_places 0 4 bs) \<and>
     bytes = u32_to_le BTI @ arm_render (arm_filled destination land) 4 bs @ tail \<and>
     arm_jump (destination + arm_starts 4 bs ! length bs) (source + length original) = Ok tail \<and>
     (\<forall>br\<in>set (arm_fields 4 bs). field_ok source destination (source + length original) (arm_places 0 4 bs) br) \<and>
     (\<forall>i<length bs. block_moves other vector (source + i * 4) (arm_words original ! i)
        (destination + arm_starts 4 bs ! i) (fst (bs ! i)) (snd (bs ! i)))"

lemma laid_out:
  assumes "arm_laid_out other vector source destination original bs land tail bytes"
  shows "length bs = length (arm_words original)"
    and "land = arm_landing source destination (source + length original) (arm_places 0 4 bs)"
    and "bytes = u32_to_le BTI @ arm_render (arm_filled destination land) 4 bs @ tail"
    and "arm_jump (destination + arm_starts 4 bs ! length bs) (source + length original) = Ok tail"
    and "i < length bs \<Longrightarrow> block_moves other vector (source + i * 4) (arm_words original ! i)
      (destination + arm_starts 4 bs ! i) (fst (bs ! i)) (snd (bs ! i))"
  using assms unfolding arm_laid_out_def by blast+

lemma block_goal: "block_moves other vector pc w a head br \<Longrightarrow> exec other vector pc w s = (s', Direct g) \<Longrightarrow> br = Some g"
  unfolding block_moves_def by (metis snd_conv)

lemma arm_fixups_length:
  "arm_fixups source destination continuation positions brs out = Ok out' \<Longrightarrow> length out' = length out"
  by (induction brs arbitrary: out)
    (auto simp: result_simps arm_fixup_def copy_from_slice_Ok splice_at_def split: prod.splits)

lemma arm_trampoline_layout:
  assumes "arm_trampoline source destination original = Ok bytes" "destination + length bytes \<le> usize_max"
  shows "\<exists>bs land tail. arm_laid_out other vector source destination original bs land tail bytes \<and>
    source + length original \<le> usize_max"
proof -
  let ?c = "source + length original"
  from assms(1) obtain tr out tail where c: "?c \<le> usize_max"
    and l: "arm_loop source destination ?c (length original) 0 (chunks4 original)
      \<lparr>at_output = u32_to_le BTI, at_positions = [], at_branches = []\<rparr> = Ok tr"
    and f: "arm_fixups source destination ?c (at_positions tr) (at_branches tr) (at_output tr) = Ok out"
    and j: "arm_jump (destination + length out) ?c = Ok tail" and b: "bytes = out @ tail"
    unfolding arm_trampoline_def by (auto simp: result_simps split: if_splits)
  have "4 \<le> length tail" using arm_jump_length [OF j] by auto
  then have "destination + length (at_output tr) + 4 \<le> usize_max"
    using assms(2) b arm_fixups_length [OF f] by simp
  from arm_loop_blocks [OF l _ this c, of other vector] chunks4_length obtain bs where
    bs: "length bs = length (chunks4 original)" "at_output tr = u32_to_le BTI @ arm_render (\<lambda>_ _. 0x14000000) 4 bs"
      "at_branches tr = arm_fields 4 bs" "at_positions tr = arm_places 0 4 bs"
    and m: "\<forall>i<length bs. block_moves other vector (source + i * 4) (u32_from_le (chunks4 original ! i))
      (destination + arm_starts 4 bs ! i) (fst (bs ! i)) (snd (bs ! i))" by auto
  let ?land = "arm_landing source destination ?c (arm_places 0 4 bs)"
  have o: "(\<forall>br\<in>set (arm_fields 4 bs). field_ok source destination ?c (arm_places 0 4 bs) br) \<and>
      out = u32_to_le BTI @ arm_render (arm_filled destination ?land) 4 bs"
    using f unfolding bs(2-4) by (rule arm_fixups_Ok) simp
  then have "length out = arm_starts 4 bs ! length bs"
    using arm_starts_end [of 4 bs "arm_filled destination ?land"] by simp
  with o j b bs(1) m c show ?thesis
    by (intro exI [of _ bs] exI [of _ ?land] exI [of _ tail]) (simp add: arm_laid_out_def arm_words_def)
qed

text \<open>
  One displaced instruction: the trampoline goes from its block to the block of the instruction
  that comes next, to the landing of a direct branch, or wherever a register branch goes.
\<close>

lemma trampoline_step:
  assumes lay: "arm_laid_out other vector source destination original bs land tail bytes"
    and st: "stands_at (cpu_mem s) destination bytes" and i: "i < length bs"
    and e: "exec other vector (source + i * 4) (arm_words original ! i) s = (s', f)"
  shows "arm_reaches other vector (destination + arm_starts 4 bs ! i, s)
    (case f of Fall \<Rightarrow> destination + arm_starts 4 bs ! Suc i | Direct g \<Rightarrow> land g | Register g \<Rightarrow> g, s')"
proof -
  let ?h = "fst (bs ! i)" and ?br = "snd (bs ! i)" and ?p = "arm_starts 4 bs ! i"
  let ?b = "arm_filled destination land (?p + length ?h) (the ?br)"
  have m: "block_moves other vector (source + i * 4) (arm_words original ! i) (destination + ?p) ?h ?br"
    using lay i by (simp add: arm_laid_out_def)
  have "stands_at (cpu_mem s) (destination + 4) (arm_render (arm_filled destination land) 4 bs)"
    using st lay by (simp add: arm_laid_out_def stands_at_append)
  from render_block [OF this i] have b: "stands_at (cpu_mem s) (destination + ?p) (block_bytes ?b ?h ?br)" .
  have w: "exec other vector (destination + ?p + length ?h) ?b s = (s, Direct (land g))" if g: "?br = Some g" for g s
  proof -
    have "field_ok source destination (source + length original) (arm_places 0 4 bs) (?p + length ?h, g)"
      using arm_fields_mem [OF i g, of 4] lay by (simp add: arm_laid_out_def)
    moreover have l: "land = arm_landing source destination (source + length original) (arm_places 0 4 bs)"
      using lay by (simp add: arm_laid_out_def)
    moreover have "g \<le> usize_max" using m g by (simp add: block_moves_def)
    ultimately obtain delta where "relative (destination + (?p + length ?h)) (land g) 26 = Ok delta" "land g \<le> usize_max"
      by (auto simp: field_ok_def arm_landing_def)
    then show ?thesis using exec_branch g by (auto simp: arm_filled_def add.assoc)
  qed
  from m [unfolded block_moves_def] e b w have "arm_reaches other vector (destination + ?p, s)
      (case f of Fall \<Rightarrow> destination + ?p + length (block_bytes ?b ?h ?br) | Direct g \<Rightarrow> land g | Register g \<Rightarrow> g, s')"
    by blast
  then show ?thesis using arm_starts_Suc [OF i, of 4] by (cases f) (simp_all add: add.assoc)
qed

section \<open>The trampoline runs the displaced instructions\<close>

text \<open>
  \<open>prefix_run\<close> is the run of the displaced words at their old place, from the \<open>i\<close>-th of them until
  control leaves them: it falls out at the end, branches out, or a register branch ends it.
\<close>

inductive prefix_run ::
  "'x other \<Rightarrow> 'x vector \<Rightarrow> usize \<Rightarrow> u32 list \<Rightarrow> nat \<Rightarrow> 'x cpu_scheme \<Rightarrow> usize \<Rightarrow> 'x cpu_scheme \<Rightarrow> bool"
  for other vector source ws where
  Next: "exec other vector (source + i * 4) (ws ! i) s = (s', Fall) \<Longrightarrow> Suc i < length ws \<Longrightarrow>
    prefix_run other vector source ws (Suc i) s' t u \<Longrightarrow> prefix_run other vector source ws i s t u"
| Falls_out: "exec other vector (source + i * 4) (ws ! i) s = (s', Fall) \<Longrightarrow> Suc i = length ws \<Longrightarrow>
    prefix_run other vector source ws i s (source + length ws * 4) s'"
| Within: "exec other vector (source + i * 4) (ws ! i) s = (s', Direct g) \<Longrightarrow> i < length ws \<Longrightarrow>
    source \<le> g \<Longrightarrow> g < source + length ws * 4 \<Longrightarrow>
    prefix_run other vector source ws ((g - source) div 4) s' t u \<Longrightarrow> prefix_run other vector source ws i s t u"
| Branches_out: "exec other vector (source + i * 4) (ws ! i) s = (s', Direct g) \<Longrightarrow> i < length ws \<Longrightarrow>
    g < source \<or> source + length ws * 4 \<le> g \<Longrightarrow> prefix_run other vector source ws i s g s'"
| Leaves: "exec other vector (source + i * 4) (ws ! i) s = (s', Register g) \<Longrightarrow> i < length ws \<Longrightarrow>
    prefix_run other vector source ws i s g s'"

text \<open>
  Trampolines live in pages that are readable and executable only, so no instruction changes their
  bytes. The instructions of the reference semantics write registers only; the hypothesis is about
  the two parameters.
\<close>

definition code_kept :: "'x other \<Rightarrow> 'x vector \<Rightarrow> usize \<Rightarrow> nat \<Rightarrow> bool" where
  "code_kept other vector a n \<longleftrightarrow>
     (\<forall>w s. fetch (cpu_mem (fst (other w s))) a n = fetch (cpu_mem s) a n) \<and>
     (\<forall>opc rt t s. fetch (cpu_mem (vector opc rt t s)) a n = fetch (cpu_mem s) a n)"

lemma keeps_if:
  "fetch (cpu_mem (fst x)) a n = m \<Longrightarrow> fetch (cpu_mem (fst y)) a n = m \<Longrightarrow>
   fetch (cpu_mem (fst (if c then x else y))) a n = m"
  by simp

lemma exec_keeps_code:
  assumes "code_kept other vector a n" "exec other vector pc w s = (s', f)"
  shows "fetch (cpu_mem s') a n = fetch (cpu_mem s) a n"
proof -
  have k: "fetch (cpu_mem (fst (other w s))) a n = fetch (cpu_mem s) a n"
    "fetch (cpu_mem (vector opc rt t s)) a n = fetch (cpu_mem s) a n" for opc rt t
    using assms(1) by (simp_all add: code_kept_def)
  have o: "fetch (cpu_mem (fst (case other w s of (s', None) \<Rightarrow> (s', Fall) | (s', Some t) \<Rightarrow> (s', Register t)))) a n =
      fetch (cpu_mem s) a n"
    using k(1) by (cases "other w s") (auto split: option.split)
  have "fetch (cpu_mem (fst (exec other vector pc w s))) a n = fetch (cpu_mem s) a n"
    unfolding exec_def Let_def by (intro keeps_if o) (simp_all add: branch_if_def load_def k)
  with assms(2) show ?thesis by simp
qed

lemma landing_within:
  assumes lay: "arm_laid_out other vector source destination original bs land tail bytes"
    and i: "i < length bs" "snd (bs ! i) = Some g" and g: "source \<le> g" "g < source + length original"
  shows "land g = destination + arm_starts 4 bs ! ((g - source) div 4) \<and> (g - source) div 4 < length bs"
proof -
  have "field_ok source destination (source + length original) (arm_places 0 4 bs)
      (arm_starts 4 bs ! i + length (fst (bs ! i)), g)"
    using arm_fields_mem [OF i, of 4] lay by (simp add: arm_laid_out_def)
  with g obtain e where e: "List.find (\<lambda>e. fst e = g - source) (arm_places 0 4 bs) = Some e"
    by (auto simp: field_ok_def)
  then obtain j where "j < length bs" "g - source = j * 4" "snd e = arm_starts 4 bs ! j"
    using find_place by fastforce
  with e g lay show ?thesis by (simp add: arm_laid_out_def arm_landing_def)
qed

lemma trampoline_tail:
  assumes lay: "arm_laid_out other vector source destination original bs land tail bytes"
    and st: "stands_at (cpu_mem s) destination bytes"
    and room: "destination + length bytes \<le> usize_max" "source + length original \<le> usize_max"
  shows "\<exists>u. arm_reaches other vector (destination + arm_starts 4 bs ! length bs, s) (source + length original, u) \<and>
    same_but_x16 s u"
proof -
  have l: "arm_starts 4 bs ! length bs = 4 + length (arm_render (arm_filled destination land) 4 bs)"
    by (rule arm_starts_end)
  have "stands_at (cpu_mem s) (destination + arm_starts 4 bs ! length bs) tail"
    using st unfolding laid_out(3) [OF lay] l by (simp add: stands_at_append add.assoc)
  moreover have "destination + arm_starts 4 bs ! length bs + length tail \<le> usize_max"
    using room(1) unfolding laid_out(3) [OF lay] l by simp
  ultimately show ?thesis by (intro jump_runs [OF laid_out(4) [OF lay] room(2)])
qed

lemma arm_words_length: "length original mod 4 = 0 \<Longrightarrow> length (arm_words original) * 4 = length original"
  by (auto simp: arm_words_def length_chunks4)

lemma prefix_run_moved:
  assumes run: "prefix_run other vector source (arm_words original) i s t u"
    and lay: "arm_laid_out other vector source destination original bs land tail bytes"
    and kept: "code_kept other vector destination (length bytes)"
    and room: "destination + length bytes \<le> usize_max" "source + length original \<le> usize_max"
    and n: "length original mod 4 = 0" and st: "stands_at (cpu_mem s) destination bytes"
  shows "\<exists>v. arm_reaches other vector (destination + arm_starts 4 bs ! i, s) (t, v) \<and> same_but_x16 u v"
  using run st
proof induction
  case (Next i s s' t u)
  note len = laid_out(1) [OF lay]
  have "stands_at (cpu_mem s') destination bytes"
    using exec_keeps_code [OF kept Next.hyps(1)] Next.prems by (simp add: stands_at_def)
  with Next.IH trampoline_step [OF lay Next.prems _ Next.hyps(1)] Next.hyps(2) len show ?case
    by (auto intro: reaches_trans)
next
  case (Falls_out i s s')
  note len = laid_out(1) [OF lay]
  have "stands_at (cpu_mem s') destination bytes"
    using exec_keeps_code [OF kept Falls_out.hyps(1)] Falls_out.prems by (simp add: stands_at_def)
  from trampoline_tail [OF lay this room] trampoline_step [OF lay Falls_out.prems _ Falls_out.hyps(1)]
    Falls_out.hyps(2) len arm_words_length [OF n] show ?case
    by (auto intro: reaches_trans)
next
  case (Within i s s' g t u)
  note len = laid_out(1) [OF lay]
  have "snd (bs ! i) = Some g"
    using block_goal [OF laid_out(5) [OF lay] Within.hyps(1)] Within.hyps(2) len by simp
  then have "land g = destination + arm_starts 4 bs ! ((g - source) div 4)"
    using landing_within [OF lay, of i g] Within.hyps(2-4) len arm_words_length [OF n] by simp
  moreover have "stands_at (cpu_mem s') destination bytes"
    using exec_keeps_code [OF kept Within.hyps(1)] Within.prems by (simp add: stands_at_def)
  ultimately show ?case
    using Within.IH trampoline_step [OF lay Within.prems _ Within.hyps(1)] Within.hyps(2) len
    by (auto intro: reaches_trans)
next
  case (Branches_out i s s' g)
  have "land g = g"
    unfolding laid_out(2) [OF lay] using Branches_out.hyps(3) arm_words_length [OF n] by (auto simp: arm_landing_def)
  with laid_out(1) [OF lay] trampoline_step [OF lay Branches_out.prems _ Branches_out.hyps(1)] Branches_out.hyps(2) show ?case
    by (intro exI [of _ s']) simp
next
  case (Leaves i s s' g)
  with laid_out(1) [OF lay] trampoline_step [OF lay Leaves.prems _ Leaves.hyps(1)] show ?case
    by (intro exI [of _ s']) simp
qed

text \<open>C6: the ARM64 trampoline runs the displaced instructions: whenever they, at the entry of the
  function, would take the processor from state \<open>s\<close> to the address \<open>t\<close> and state \<open>u\<close>, a call of the
  trampoline from \<open>s\<close> arrives at \<open>t\<close> with \<open>u\<close>, but for \<open>x16\<close>. Calls return behind the original
  call, branches between displaced instructions stay inside the trampoline, and literals and
  addresses relative to the program counter are those of the original.\<close>

theorem arm_trampoline_faithful:
  assumes "arm_trampoline source destination original = Ok bytes" "destination + length bytes \<le> usize_max"
    "stands_at (cpu_mem s) destination bytes" "code_kept other vector destination (length bytes)"
    "prefix_run other vector source (arm_words original) 0 s t u"
  shows "\<exists>v. arm_reaches other vector (destination, s) (t, v) \<and> same_but_x16 u v"
proof -
  from arm_trampoline_layout [OF assms(1,2)] obtain bs land tail where
    lay: "arm_laid_out other vector source destination original bs land tail bytes"
    and c: "source + length original \<le> usize_max" by blast
  have n: "length original mod 4 = 0"
    using assms(1) by (auto simp: arm_trampoline_def result_simps split: if_splits)
  have "stands_at (cpu_mem s) destination (u32_to_le BTI)"
    using assms(3) unfolding laid_out(3) [OF lay] by (simp add: stands_at_append)
  moreover have "exec other vector destination BTI s = (s, Fall)"
    by (rule exec_landing_pad) (simp add: BTI_def)
  moreover from prefix_run_moved [OF assms(5) lay assms(4,2) c n assms(3)] obtain v where
    "arm_reaches other vector (destination + 4, s) (t, v)" "same_but_x16 u v" by auto
  ultimately show ?thesis by (blast intro: reaches_fall)
qed

section \<open>No panics\<close>

definition fields_inside :: "arm_tramp \<Rightarrow> bool" where
  "fields_inside tr \<longleftrightarrow> (\<forall>br\<in>set (at_branches tr). fst br + 4 \<le> length (at_output tr))"

lemma arm_move_fields:
  assumes "arm_move source destination continuation n offset w tr = Ok tr'" "fields_inside tr"
  shows "fields_inside tr'"
proof -
  have lit: "fields_inside tr2" if "move_literal destination pc w tr1 = Ok tr2" "fields_inside tr1" for pc tr1 tr2
    using that(1) by (cases rule: move_literal_cases) (use that(2) in \<open>auto simp: fields_inside_def\<close>)
  show ?thesis
    using assms
    by (fastforce simp: arm_move_def move_immediate_branch_def move_conditional_branch_def move_address_def
      move_indirect_call_def move_plain_def emit_branch_def emit_word_def Let_def result_simps fields_inside_def
      dest: lit [unfolded fields_inside_def] split: if_splits)
qed

lemma arm_loop_fields:
  "arm_loop source destination continuation n index chunks tr = Ok tr' \<Longrightarrow> fields_inside tr \<Longrightarrow> fields_inside tr'"
  by (induction source destination continuation n index chunks tr rule: arm_loop.induct)
    (auto simp: result_simps dest: arm_move_fields)

lemma relative_returns [simp]: "returns (relative source target n)"
  by (simp add: relative_def Let_def)

lemma add_signed_returns [simp]: "returns (add_signed a d)"
  by (simp add: add_signed_def)

lemma move_literal_returns [simp]: "returns (move_literal destination pc w tr)"
proof -
  have "unat (drop_bit 30 w) < 4"
  proof -
    have "unat w < 2 ^ 32" using unsigned_less [of w] by simp
    then show ?thesis by (simp add: unat_drop_bit_eq drop_bit_nat_def less_mult_imp_div_less)
  qed
  then show ?thesis
    by (auto simp: move_literal_def Let_def result_simps index_at_def split: result.split)
qed

lemma arm_move_returns [simp]: "returns (arm_move source destination continuation n offset w tr)"
  by (simp add: arm_move_def move_immediate_branch_def move_conditional_branch_def move_address_def
      move_indirect_call_def move_plain_def Let_def result_simps)

lemma arm_loop_returns:
  "\<forall>c\<in>set chunks. length c = 4 \<Longrightarrow> returns (arm_loop source destination continuation n index chunks tr)"
  by (induction chunks arbitrary: index tr) (simp_all add: result_simps arm_word_def)

lemma arm_fixup_returns:
  "fst br + 4 \<le> length out \<Longrightarrow> returns (arm_fixup source destination continuation positions br out)"
  by (auto simp: arm_fixup_def result_simps copy_from_slice_def split: prod.split)

lemma arm_fixups_returns:
  "\<forall>br\<in>set brs. fst br + 4 \<le> length out \<Longrightarrow> returns (arm_fixups source destination continuation positions brs out)"
proof (induction brs arbitrary: out)
  case (Cons br brs)
  have "length out' = length out" if "arm_fixup source destination continuation positions br out = Ok out'" for out'
    using arm_fixups_length [of source destination continuation positions "[br]" out out'] that by simp
  with Cons show ?case by (simp add: result_simps arm_fixup_returns)
qed simp

lemma arm_trampoline_returns: "returns (arm_trampoline source destination original)"
proof -
  have "returns (arm_fixups source destination c (at_positions tr) (at_branches tr) (at_output tr))"
    if "arm_loop source destination c n 0 chunks \<lparr>at_output = u32_to_le BTI, at_positions = [], at_branches = []\<rparr> = Ok tr"
    for c n chunks tr
    by (rule arm_fixups_returns) (use arm_loop_fields [OF that] in \<open>simp add: fields_inside_def\<close>)
  moreover have "\<forall>c\<in>set (chunks4 original). length c = 4" using chunks4_length by blast
  ultimately show ?thesis by (auto simp: arm_trampoline_def result_simps arm_loop_returns)
qed

lemma arm_trampoline_example:
  "arm_trampoline 4096 8192 (u32_to_le 0x94000004) =
     Ok (u32_to_le BTI @ emit_constant [] 30 4100 @ u32_to_le 0x17fffbff @ u32_to_le 0x17fffbfb)"
proof -
  have c: "chunks4 (u32_to_le 0x94000004) = [u32_to_le 0x94000004]" by (simp add: u32_to_le_def le_bytes_numeral)
  have s: "signed_field 4 26 = 4" by (simp add: signed_field_eq)
  have a: "add_signed 4096 16 = Ok 4112" by (simp add: add_signed_def usize_try_from_def usize_defs)
  have r: "relative 8212 4112 26 = Ok 0x03fffbff" "relative 8216 4100 26 = Ok 0x03fffbfb"
    by (simp_all add: relative_def mask_numeral)
  have l: "arm_loop 4096 8192 4100 4 0 (chunks4 (u32_to_le 0x94000004))
      \<lparr>at_output = u32_to_le BTI, at_positions = [], at_branches = []\<rparr> =
    Ok \<lparr>at_output = u32_to_le BTI @ emit_constant [] 30 4100 @ u32_to_le 0x14000000,
        at_positions = [(0, 4)], at_branches = [(20, 4112)]\<rparr>"
    by (simp add: c arm_word_def le_simps arm_move_def valid_word_def move_immediate_branch_def s a
        emit_branch_def emit_word_def emit_constant_append [of "u32_to_le BTI"])
  have f: "arm_fixups 4096 8192 4100 [(0, 4)] [(20, 4112)]
      (u32_to_le BTI @ emit_constant [] 30 4100 @ u32_to_le 0x14000000) =
    Ok (u32_to_le BTI @ emit_constant [] 30 4100 @ u32_to_le 0x17fffbff)"
    by (simp add: arm_fixup_def r checked_add_def usize_defs copy_from_slice_def splice_at_def)
  have j: "arm_jump 8216 4100 = Ok (u32_to_le 0x17fffbfb)"
    by (simp add: arm_jump_def r aligned_def emit_word_def)
  have "u32_to_le 0x94000004 \<noteq> []" by (simp add: u32_to_le_def le_bytes_numeral)
  with l f j show ?thesis by (simp add: arm_trampoline_def aligned_def checked_add_def usize_defs)
qed

lemma same_but_x16_reg:
  assumes "same_but_x16 s t" "n \<noteq> 16"
  shows "reg t n = reg s n"
proof -
  have "reg t n = reg (set_reg 16 (reg t 16) s) n" using assms(1) unfolding same_but_x16_def by simp
  with assms(2) show ?thesis by (simp add: reg_set_reg)
qed

theorem arm_trampoline_faithful_witness:
  "\<exists>v. arm_reaches (\<lambda>_ s. (s, None)) (\<lambda>_ _ _ s. s)
     (8192, \<lparr>cpu_regs = (\<lambda>_. 0),
       cpu_mem = write_bytes (\<lambda>_. 0) 8192
         (u32_to_le BTI @ emit_constant [] 30 4100 @ u32_to_le 0x17fffbff @ u32_to_le 0x17fffbfb),
       cpu_flags = (False, False, False, False)\<rparr>) (4112, v) \<and> cpu_regs v 30 = 4100"
proof -
  let ?bytes = "u32_to_le BTI @ emit_constant [] 30 4100 @ u32_to_le 0x17fffbff @ u32_to_le 0x17fffbfb"
  let ?s = "\<lparr>cpu_regs = (\<lambda>_. 0), cpu_mem = write_bytes (\<lambda>_. 0) 8192 ?bytes, cpu_flags = (False, False, False, False)\<rparr>"
  let ?other = "\<lambda>_ s. (s, None) :: cpu \<times> usize option"
  let ?vector = "\<lambda>_ _ _ (s :: cpu). s"
  have w: "arm_words (u32_to_le 0x94000004) = [0x94000004]"
    by (simp add: arm_words_def u32_to_le_def u32_from_le_def le_bytes_numeral)
  have "exec ?other ?vector 4096 0x94000004 ?s = (set_reg 30 4100 ?s, Direct 4112)"
    by (simp add: exec_def goal_def sfield_def wrap64_def)
  then have "prefix_run ?other ?vector 4096 (arm_words (u32_to_le 0x94000004)) 0 ?s 4112 (set_reg 30 4100 ?s)"
    unfolding w by (intro prefix_run.Branches_out) simp_all
  moreover have "stands_at (cpu_mem ?s) 8192 ?bytes"
    using fetch_write_bytes [of "\<lambda>_. 0" 8192 ?bytes] by (simp only: stands_at_def cpu.simps)
  ultimately obtain v where "arm_reaches ?other ?vector (8192, ?s) (4112, v)" "same_but_x16 (set_reg 30 4100 ?s) v"
    using arm_trampoline_faithful [OF arm_trampoline_example, of ?s ?other ?vector 4112 "set_reg 30 4100 ?s"]
    by (auto simp: code_kept_def usize_defs)
  moreover from this(2) have "cpu_regs v 30 = 4100"
    using same_but_x16_reg [of _ v 30] by (simp add: reg_def set_reg_def)
  ultimately show ?thesis by blast
qed

end
