(* ===== verification/Trampoline_Size.thy ===== *)
theory Trampoline_Size
  imports Code_Target Arm64_Trampoline
begin

text \<open>
  The size of a trampoline (src/code/relocate.rs, src/code/arm64.rs). src/routing.rs keeps the saved
  code in the first 512 bytes of a page and cuts it to that size (\<^verbatim>\<open>saved.resize(512, 0xcc)\<close>); the
  bounds show that nothing is ever cut off.
\<close>

section \<open>x86-64\<close>

lemma copy_instruction_size:
  assumes "copy_instruction source original off ins out = Ok (out', brs)" "instruction_ok rest ins"
  shows "length out' \<le> length out + ins_size ins + 5"
proof (cases "ins_branch ins")
  case (Some b)
  then have "br_displacement b + br_width b = ins_size ins" "br_width b = 1 \<or> br_width b = 4"
    using assms(2) by (auto simp: instruction_ok_def)
  with assms(1) Some show ?thesis
    by (auto simp: copy_instruction_def Let_def result_simps branch_prefix_def usize_sub_def subslice_def branch_opcode_def
        split: if_splits option.splits)
next
  case None
  have "5 \<le> ins_size ins" if "ins_call ins = Some (call_kind.Direct d)" for d
    using assms(2) that by (auto simp: instruction_ok_def)
  with assms(1) None show ?thesis
    by (auto simp: copy_instruction_def Let_def result_simps subslice_def split: option.splits call_kind.splits if_splits)
qed

lemma relocate_memory_size:
  "relocate_memory source destination original off ins start out = Ok out' \<Longrightarrow> length out' = length out"
  by (auto simp: relocate_memory_def Let_def result_simps copy_from_slice_Ok splice_at_def split: option.splits if_splits)

lemma push_return_size:
  "push_return continuation ins start out = Ok out' \<Longrightarrow>
   length out' = length out + (if ins_call ins = None then 0 else 8)"
  by (auto simp: push_return_def result_simps copy_from_slice_Ok splice_at_def split: if_splits)

text \<open>A call takes fourteen bytes more than another instruction, and can only be the last one.\<close>

lemma trampoline_step_size:
  assumes "trampoline_step source destination continuation original off st = Ok (e, st')"
  shows "off < e \<and> e \<le> length original \<and>
    length (tr_output st') \<le> length (tr_output st) + 6 * (e - off) + (if e = length original then 14 else 0)"
proof -
  from assms obtain rest ins out1 out2 brs out3 where d: "decode rest = Ok ins" "rest = drop off original" "off \<le> length original"
    and e: "e = off + ins_size ins"
    and o1: "out1 = (if ins_call ins = None then tr_output st else tr_output st @ [0xff, 0x35, 0, 0, 0, 0])"
      "ins_call ins \<noteq> None \<longrightarrow> e = length original"
    and o2: "copy_instruction source original off ins out1 = Ok (out2, brs)"
    and o3: "relocate_memory source destination original off ins (length out1) out2 = Ok out3"
    and o4: "push_return continuation ins (length (tr_output st)) out3 = Ok (tr_output st')"
    by (auto simp: trampoline_step_def Let_def result_simps slice_from_def split: if_splits)
  have ok: "instruction_ok rest ins" using decode_ok [OF d(1)] by simp
  then have "0 < ins_size ins" "off + ins_size ins \<le> length original"
    using d(2,3) by (auto simp: instruction_ok_def)
  moreover note copy_instruction_size [OF o2 ok] relocate_memory_size [OF o3] push_return_size [OF o4]
  ultimately show ?thesis using e o1 by (auto split: if_splits)
qed

lemma trampoline_loop_size:
  "trampoline_loop source destination continuation original off st = Ok st' \<Longrightarrow> off \<le> length original \<Longrightarrow>
   length (tr_output st') \<le> length (tr_output st) + 6 * (length original - off) + 14"
proof (induction source destination continuation original off st rule: trampoline_loop.induct)
  case (1 source destination continuation original off st)
  show ?case
  proof (cases "off < length original")
    case True
    with "1.prems"(1) obtain e st1 where
      step: "trampoline_step source destination continuation original off st = Ok (e, st1)"
      and loop: "trampoline_loop source destination continuation original e st1 = Ok st'"
      by (subst (asm) trampoline_loop.simps) (auto simp: result_simps)
    note s = trampoline_step_size [OF step]
    show ?thesis
    proof (cases "e = length original")
      case last: True
      with loop have "st' = st1" by (simp add: trampoline_loop.simps)
      with s last show ?thesis by simp
    next
      case False
      have "(length original - e) + (e - off) = length original - off" using s by simp
      moreover have "length (tr_output st') \<le> length (tr_output st1) + 6 * (length original - e) + 14"
        using "1.IH" [OF True step refl loop] s by simp
      moreover have "length (tr_output st1) \<le> length (tr_output st) + 6 * (e - off)" using s False by simp
      ultimately show ?thesis by linarith
    qed
  qed (use "1.prems" in \<open>simp add: trampoline_loop.simps\<close>)
qed

lemma fixups_size:
  "fixups source destination continuation positions brs out = Ok out' \<Longrightarrow> length out' = length out"
  by (induction brs arbitrary: out) (auto simp: result_simps fixup_def Let_def copy_from_slice_Ok splice_at_def)

lemma trampoline_size:
  assumes "trampoline source destination original = Ok saved"
  shows "length saved \<le> 23 + 6 * length original"
proof -
  from assms obtain continuation st out where
    "trampoline_loop source destination continuation original 0 \<lparr>tr_output = ENDBR64, tr_positions = [], tr_branches = []\<rparr> = Ok st"
    "fixups source destination continuation (tr_positions st) (tr_branches st) (tr_output st) = Ok out"
    "length saved = length out + 5"
    by (auto simp: trampoline_def result_simps split: if_splits)
  with trampoline_loop_size fixups_size show ?thesis by (fastforce simp: ENDBR64_def)
qed

section \<open>ARM64\<close>

lemma move_literal_size:
  "move_literal destination pc w tr = Ok tr' \<Longrightarrow> length (at_output tr') \<le> length (at_output tr) + 20"
  by (erule move_literal_cases) simp_all

lemma arm_move_size:
  assumes "arm_move source destination continuation n off w tr = Ok tr'"
  shows "length (at_output tr') \<le> length (at_output tr) + 20"
  using assms
  by (auto simp: arm_move_def Let_def result_simps move_immediate_branch_def move_conditional_branch_def move_address_def
      move_indirect_call_def move_plain_def emit_branch_def emit_word_def split: if_splits dest: move_literal_size)

lemma arm_loop_size:
  "arm_loop source destination continuation n index chunks tr = Ok tr' \<Longrightarrow>
   length (at_output tr') \<le> length (at_output tr) + 20 * length chunks"
  by (induction chunks arbitrary: index tr) (fastforce simp: result_simps dest: arm_move_size)+

lemma arm_trampoline_size:
  assumes "arm_trampoline source destination original = Ok saved"
  shows "length saved \<le> 20 + 5 * length original"
proof -
  from assms obtain continuation tr out tail after where
    "arm_loop source destination continuation (length original) 0 (chunks4 original)
        \<lparr>at_output = u32_to_le BTI, at_positions = [], at_branches = []\<rparr> = Ok tr"
    "arm_fixups source destination continuation (at_positions tr) (at_branches tr) (at_output tr) = Ok out"
    "arm_jump after continuation = Ok tail" "saved = out @ tail"
    by (auto simp: arm_trampoline_def result_simps split: if_splits)
  with arm_loop_size arm_fixups_length arm_jump_length show ?thesis by (fastforce simp: length_chunks4)
qed

section \<open>Both\<close>

lemma code_trampoline_size:
  assumes "code_trampoline tg source destination original = Ok saved" "length original \<le> MAX_PREFIX"
  shows "length saved \<le> 512"
  using assms trampoline_size [of source destination original saved] arm_trampoline_size [of source destination original saved]
  by (cases tg) (auto simp: MAX_PREFIX_def)

end
