(* ===== verification/Replacement_Runs.thy ===== *)
theory Replacement_Runs
  imports Session_Restore Trampoline_Size
begin

text \<open>
  The parts put together: after a function was replaced, a call of it runs the replacement. The patch
  of src/code/x86.rs or src/code/arm64.rs, the page of src/executable.rs and the write of
  src/memory.rs are followed to the memory that the processor sees, for the builds that write code in
  place.
\<close>

section \<open>Where a call arrives\<close>

text \<open>
  \<open>enters tg other vector m a b\<close>: a processor that fetches at \<open>a\<close> from the memory \<open>m\<close> arrives at \<open>b\<close>. On
  x86-64 it runs jumps and landing pads, which change nothing else; on ARM64 any instructions of the
  reference semantics, after which all but \<open>x16\<close> is as before.
\<close>

inductive x86_enters :: "memory \<Rightarrow> usize \<Rightarrow> usize \<Rightarrow> bool" for m where
  Here: "x86_enters m a a"
| Pad: "fetch m a 4 = ENDBR64 \<Longrightarrow> x86_enters m (a + 4) b \<Longrightarrow> x86_enters m a b"
| Jump: "x86_jump m a = Some c \<Longrightarrow> x86_enters m c b \<Longrightarrow> x86_enters m a b"

fun enters :: "target \<Rightarrow> 'x other \<Rightarrow> 'x vector \<Rightarrow> memory \<Rightarrow> usize \<Rightarrow> usize \<Rightarrow> bool" where
  "enters X86_64 other vector m a b \<longleftrightarrow> x86_enters m a b"
| "enters Arm64 other vector m a b \<longleftrightarrow>
     (\<forall>s. cpu_mem s = m \<longrightarrow> (\<exists>t. arm_reaches other vector (a, s) (b, t) \<and> same_but_x16 s t))"

lemma x86_enters_trans: "x86_enters m a b \<Longrightarrow> x86_enters m b c \<Longrightarrow> x86_enters m a c"
  by (induction rule: x86_enters.induct) (auto intro: x86_enters.intros)

lemma same_but_x16_trans: "same_but_x16 r s \<Longrightarrow> same_but_x16 s t \<Longrightarrow> same_but_x16 r t"
  unfolding same_but_x16_def by (metis set_reg_set_reg)

lemma same_but_x16_mem: "same_but_x16 s t \<Longrightarrow> cpu_mem t = cpu_mem s"
  unfolding same_but_x16_def by (metis cpu_mem_set_reg)

lemma enters_trans:
  "enters tg other vector m a b \<Longrightarrow> enters tg other vector m b c \<Longrightarrow> enters tg other vector m a c"
proof (cases tg)
  case Arm64
  assume ab: "enters tg other vector m a b" and bc: "enters tg other vector m b c"
  have "\<exists>t. arm_reaches other vector (a, s) (c, t) \<and> same_but_x16 s t" if "cpu_mem s = m" for s
  proof -
    from ab that Arm64 obtain t where t: "arm_reaches other vector (a, s) (b, t)" "same_but_x16 s t" by auto
    with bc that Arm64 same_but_x16_mem [OF t(2)] obtain u where "arm_reaches other vector (b, t) (c, u)" "same_but_x16 t u"
      by auto
    with t show ?thesis by (blast intro: reaches_trans same_but_x16_trans)
  qed
  with Arm64 show ?thesis by simp
qed (auto intro: x86_enters_trans)

lemma jump_enters:
  assumes "code_jump tg a b = Ok bytes" "stands_at m a bytes" "a + 16 \<le> usize_max" "b \<le> usize_max"
  shows "enters tg other vector m a b"
proof (cases tg)
  case X86_64
  then have "jump a b = Ok bytes" using assms(1) by simp
  then have "x86_jump m a = Some b"
    using assms jump_length [of a b bytes] by (intro jump_reaches) (auto simp: stands_at_def)
  with X86_64 show ?thesis by (auto intro: x86_enters.intros)
next
  case Arm64
  then have j: "arm_jump a b = Ok bytes" using assms(1) by simp
  with arm_jump_length [OF j] assms show ?thesis
    unfolding Arm64 enters.simps by (intro allI impI jump_runs [OF j assms(4)]) auto
qed

lemma plan_enters:
  assumes "code_plan tg a b bytes = Ok p" "stands_at m a (take (plan_offset p) bytes @ plan_replacement p)"
    "a + length bytes \<le> usize_max" "b \<le> usize_max"
  shows "enters tg other vector m a b"
proof (cases tg)
  case X86_64
  then have p: "plan a b bytes = Ok p" using assms(1) by simp
  then have len: "plan_offset p \<le> length bytes" "plan_offset p = (if starts_with bytes ENDBR64 then 4 else 0)"
    by (auto elim: plan_Ok)
  then have "stands_at m (a + plan_offset p) (plan_replacement p)"
    using assms(2) by (simp add: stands_at_append min_absorb2)
  then have "patched_entry a p m" by (simp add: patched_entry_def stands_at_def)
  from plan_reaches [OF p assms(4,3) this] have j: "x86_enters m (a + plan_offset p) b"
    by (auto intro: x86_enters.intros)
  have four: "length ENDBR64 = 4" by (simp add: ENDBR64_def)
  have "stands_at m a (take (plan_offset p) bytes)" using assms(2) by (simp add: stands_at_append)
  then have "fetch m a 4 = ENDBR64" if "plan_offset p \<noteq> 0"
    using that len four by (auto simp: stands_at_def starts_with_def min_absorb2 split: if_splits)
  with j len X86_64 show ?thesis by (cases "starts_with bytes ENDBR64") (auto intro: x86_enters.Pad)
next
  case Arm64
  then have p: "arm_plan a b bytes = Ok p" using assms(1) by simp
  with assms show ?thesis
    unfolding Arm64 enters.simps by (intro allI impI plan_runs [OF p assms(4,3)]) simp
qed

lemma code_plan_fits:
  assumes "code_plan tg a b bytes = Ok p"
  shows "plan_offset p + length (plan_replacement p) \<le> length bytes"
proof (cases tg)
  case X86_64
  with assms plan_shape(3,5) [of a b bytes p] show ?thesis by simp
next
  case Arm64
  with assms have "arm_plan a b bytes = Ok p" by simp
  then show ?thesis by (auto elim: arm_plan_Ok)
qed

text \<open>The patch is written over the bytes that were read, and leaves what is apart from the entry.\<close>

lemma patch_enters:
  assumes p: "code_plan tg a b bytes = Ok p" and bytes: "bytes = fetch m0 a c" "same_on code m m0" "{a ..< a + c} \<subseteq> code"
    and bounds: "a + c \<le> usize_max" "b \<le> usize_max"
    and m': "m' = write_bytes m (a + plan_offset p) (plan_replacement p)"
  shows "enters tg other vector m' a b"
    and "x \<notin> code \<Longrightarrow> m' x = m x"
proof -
  let ?o = "plan_offset p"
  have fits: "?o + length (plan_replacement p) \<le> c" using code_plan_fits [OF p] bytes(1) by simp
  then have "?o \<le> c" by simp
  then have "a + i \<in> code" if "i < ?o" for i using that bytes(3) by auto
  then have "fetch m a ?o = take ?o bytes"
    using \<open>?o \<le> c\<close> bytes(1,2) by (auto simp: fetch_def same_on_def take_map intro!: nth_equalityI)
  moreover have "fetch m' a ?o = fetch m a ?o" unfolding m' by (rule fetch_write_bytes_other) simp
  ultimately have "stands_at m' a (take ?o bytes @ plan_replacement p)"
    using fetch_write_bytes [of m "a + ?o" "plan_replacement p"] \<open>?o \<le> c\<close> bytes(1)
    by (simp add: stands_at_append m') (simp add: stands_at_def min_absorb2)
  from plan_enters [OF p this] bounds bytes(1) show "enters tg other vector m' a b" by simp
  show "m' x = m x" if "x \<notin> code"
  proof -
    have "x \<notin> {a ..< a + c}" using that bytes(3) by blast
    with fits show ?thesis by (auto simp: m' write_bytes_def)
  qed
qed

section \<open>What a page holds\<close>

lemma page_apartD: "page_apart code a \<Longrightarrow> i < CAPACITY \<Longrightarrow> a + i \<notin> code"
  unfolding page_apart_def by (metis atLeastLessThan_iff disjoint_iff le_add1 nat_add_left_cancel_less)

lemma code_jump_length: "code_jump tg a b = Ok bytes \<Longrightarrow> length bytes \<le> 16"
  by (cases tg) (auto dest: jump_length arm_jump_length)

text \<open>Pages lie within the address space, hold what is written to them, and keep it when sealed.\<close>

locale page_contents =
  fixes G :: "'k page_source" and mem :: "'k \<Rightarrow> memory"
  assumes allocate_bound: "ps_allocate G source k = (Ok a, k') \<Longrightarrow> a + CAPACITY \<le> usize_max"
    and store_writes: "length bytes \<le> CAPACITY \<Longrightarrow> mem (ps_store G a bytes k) = write_bytes (mem k) a bytes"
    and seal_keeps: "ps_seal G a k = (Ok (), k') \<Longrightarrow> mem k' = mem k"
    and shadow_keeps: "ps_shadow_stack G k = (r, k') \<Longrightarrow> mem k' = mem k"
begin

lemma near_bound: "near G source k = (Ok page, k') \<Longrightarrow> ex_address page + CAPACITY \<le> usize_max"
  by (auto simp: near_def result_simps split: if_splits dest: allocate_bound)

lemma publish_writes:
  assumes "publish G bytes page k = ((Ok (), page'), k')"
  shows "mem k' = write_bytes (mem k) (ex_address page) bytes" "length bytes \<le> CAPACITY"
    "ex_address page' = ex_address page"
  using assms seal_keeps store_writes
  by (auto simp: publish_def Let_def split: if_splits prod.splits)

end

locale unix_contents =
  fixes M :: "'k mman" and shadow :: "(bool, 'k) call" and copy :: "usize \<Rightarrow> u8 list \<Rightarrow> 'k \<Rightarrow> 'k"
    and mem :: "'k \<Rightarrow> memory"
  assumes map_bound: "mm_map M hint k = (Some a, k') \<Longrightarrow> a + CAPACITY \<le> usize_max"
    and protect_mem: "mm_protect M a k = (0, k') \<Longrightarrow> mem k' = mem k"
    and flush_mem: "mem (mm_cache_flush M a n k) = mem k"
    and copy_mem: "length bytes \<le> CAPACITY \<Longrightarrow> mem (copy a bytes k) = write_bytes (mem k) a bytes"
    and shadow_mem: "shadow k = (r, k') \<Longrightarrow> mem k' = mem k"
begin

lemma search_steps_bound:
  "search_steps reach (reserve_unix M) (release_unix M) source steps k = (Ok a, k') \<Longrightarrow> a + CAPACITY \<le> usize_max"
  by (induction steps arbitrary: k)
    (auto simp: Let_def reserve_unix_def result_simps split: if_splits prod.splits option.splits dest: map_bound)

end

sublocale unix_contents \<subseteq> page_contents "unix_page_source reach M shadow copy" mem for reach
  using search_steps_bound copy_mem protect_mem flush_mem shadow_mem
  by unfold_locales (auto simp: unix_page_source_def allocate_unix_def search_unix_def seal_unix_def split: prod.splits if_splits)

interpretation sim_contents: unix_contents sim_mman sim_shadow sim_copy sm_bytes
  by unfold_locales (auto simp: sim_mman_def sim_copy_def CAPACITY_def usize_defs sim_shadow_def query_shadow_stack_def)

section \<open>Replacing in place\<close>

locale in_place_host =
  fixes H :: "'k host" and mem :: "'k \<Rightarrow> memory" and code :: "usize set" and prot can_write grant
  assumes platform: "code_platform (h_memory H) mem prot can_write grant"
    and in_place: "h_remaps H = None"
    and pages: "relay_pages (h_pages H) mem code (\<lambda>k. True)"
    and contents: "page_contents (h_pages H) mem"
begin

lemma read_mem:
  assumes "memory_read (h_memory H) a n k = (Ok bytes, k')"
  shows "mem k' = mem k" "\<exists>c\<le>n. bytes = fetch (mem k) a c"
  using code_reader.memory_read_law [OF code_platform.axioms(1) [OF platform] assms] by auto

lemma write_mem:
  assumes "host_write H a expected replacement k = (Ok (), k')"
  shows "mem k' = write_bytes (mem k) a replacement"
  using leavesD [OF code_platform.replace_law [OF platform] assms [unfolded host_write_def in_place option.case memory_write_def]]
  by simp

text \<open>On ARM64 the page of a raw replacement jumps to the target.\<close>

lemma relay_jumps:
  assumes "raw_relay H source target k = (Ok (d, relay), k')" "h_target H = Arm64"
  shows "\<exists>bytes m. arm_jump d target = Ok bytes \<and> mem k' = write_bytes m d bytes \<and> length bytes \<le> CAPACITY \<and>
    same_on code m (mem k) \<and> page_apart code d \<and> d + CAPACITY \<le> usize_max"
proof -
  from assms obtain page k1 bytes page' where n: "near (h_pages H) source k = (Ok page, k1)"
    and j: "arm_jump (ex_address page) target = Ok bytes"
    and pub: "publish (h_pages H) bytes page k1 = ((Ok (), page'), k')" and d: "d = ex_address page'"
    by (auto simp: raw_relay_def result_simps dropping_Ok case_prod_unfold) (metis prod.collapse)
  note w = page_contents.publish_writes [OF contents pub]
  from leavesD [OF relay_pages.near_law [OF pages TrueI] n] have "page_apart code (ex_address page)"
    "same_on code (mem k1) (mem k)" by (auto simp: keeps_code_def)
  with j w page_contents.near_bound [OF contents n] show ?thesis unfolding d by metis
qed

text \<open>A jump that stands in a page apart from the code still stands there when the entry is patched.\<close>

lemma page_stands:
  assumes "stands_at m a bytes" "\<And>x. x \<notin> code \<Longrightarrow> m' x = m x" "\<And>i. i < length bytes \<Longrightarrow> a + i \<notin> code"
  shows "stands_at m' a bytes"
proof -
  have "fetch m' a (length bytes) = fetch m a (length bytes)" using assms(2,3) by (simp add: fetch_def)
  with assms(1) show ?thesis by (simp add: stands_at_def)
qed

lemma patch_source_enters:
  assumes run: "patch_source H source target (s, w) = (Ok (), s', w')"
    and entry: "{source ..< source + MAX_PREFIX} \<subseteq> code"
    and bounds: "source + MAX_PREFIX \<le> usize_max" "target \<le> usize_max"
  shows "enters (h_target H) other vector (mem (pr_system (mc_process w'))) source target"
proof -
  from run obtain u k1 bytes k2 d relay k3 p taken where
    r1: "memory_read (h_memory H) target 1 (pr_system (mc_process w)) = (Ok u, k1)"
    and r2: "memory_read (h_memory H) source MAX_PREFIX k1 = (Ok bytes, k2)"
    and relay: "raw_relay H source target k2 = (Ok (d, relay), k3)"
    and patch: "dropping_relay H relay (write_patch H taken source bytes (d, relay) k3) = (Ok p, pr_system (mc_process w'))"
    by (auto simp: patch_source_def result_simps in_process_def in_system_def split: prod.splits)
  let ?m = "mem (pr_system (mc_process w'))"
  from patch have "write_patch H taken source bytes (d, relay) k3 = (Ok p, pr_system (mc_process w'))"
    by (cases relay) (simp_all add: dropping_relay_def dropping_Ok)
  then obtain pl where pl: "code_plan (h_target H) source d bytes = Ok pl"
    and w: "host_write H (source + plan_offset pl) (plan_original pl) (plan_replacement pl) k3 = (Ok (), pr_system (mc_process w'))"
    by (auto simp: write_patch_def result_simps split: if_splits)
  note m = write_mem [OF w]
  from read_mem [OF r2] obtain c where c: "c \<le> MAX_PREFIX" "bytes = fetch (mem k2) source c" by auto
  then have c': "{source ..< source + c} \<subseteq> code" "source + c \<le> usize_max" using entry bounds by auto
  show ?thesis
  proof (cases "h_target H")
    case X86_64
    then have "d = target" "k3 = k2" using relay by (simp_all add: raw_relay_def)
    with patch_enters(1) [OF pl c(2) same_on_refl c'] bounds(2) m show ?thesis by simp
  next
    case Arm64
    from relay_jumps [OF relay Arm64] obtain jb m0 where j: "arm_jump d target = Ok jb" "mem k3 = write_bytes m0 d jb"
      "length jb \<le> CAPACITY" "same_on code m0 (mem k2)" "page_apart code d" "d + CAPACITY \<le> usize_max" by blast
    have same: "same_on code (mem k3) (mem k2)"
      unfolding j(2) by (rule same_on_trans [OF copy_apart [OF j(5,3)] j(4)])
    have d: "d \<le> usize_max" "d + 16 \<le> usize_max" using j(6) by (simp_all add: CAPACITY_def)
    note e = patch_enters [OF pl c(2) same c' d(1) m]
    have "enters Arm64 other vector ?m d target"
    proof (rule jump_enters [OF _ page_stands [OF _ e(2)] d(2) bounds(2)])
      show "stands_at (mem k3) d jb" unfolding j(2) stands_at_def by (rule fetch_write_bytes)
      show "d + i \<notin> code" if "i < length jb" for i using that j(3) page_apartD [OF j(5), of i] by simp
    qed (use j(1) in simp)
    with e(1) [of other vector] Arm64 show ?thesis by (simp only:) (rule enters_trans)
  qed
qed

text \<open>A prepared entry has a page with the saved code in front and the jump to the dispatcher behind it.\<close>

lemma fill_page_holds:
  assumes "fill_page H patches source dispatcher bytes page k = (Ok en, k')"
  shows "\<exists>pl saved tail. code_plan (h_target H) source (ex_address page + 512) bytes = Ok pl \<and>
    code_trampoline (h_target H) (source + plan_offset pl) (ex_address page) (plan_original pl) = Ok saved \<and>
    code_jump (h_target H) (ex_address page + 512) dispatcher = Ok tail \<and>
    mem k' = write_bytes (mem k) (ex_address page) (resize 512 0xcc saved @ tail) \<and>
    pt_address (en_patch en) = source + plan_offset pl \<and> pt_original (en_patch en) = plan_original pl \<and>
    pt_replacement (en_patch en) = plan_replacement pl \<and> ex_address (en_original en) = ex_address page"
proof -
  from assms obtain pl saved bridge k1 tail page' where
    pl: "code_plan (h_target H) source (ex_address page + 512) bytes = Ok pl"
    "code_trampoline (h_target H) (source + plan_offset pl) (ex_address page) (plan_original pl) = Ok saved"
    "code_jump (h_target H) (ex_address page + 512) dispatcher = Ok tail"
    and br: "(if bridge then check_call_bridge (h_pages H) k else (Ok (), k)) = (Ok (), k1)"
    and pub: "publish (h_pages H) (resize 512 0xcc saved @ tail) page k1 = ((Ok (), page'), k')"
    and en: "pt_address (en_patch en) = source + plan_offset pl" "pt_original (en_patch en) = plan_original pl"
    "pt_replacement (en_patch en) = plan_replacement pl" "en_original en = page'"
    by (auto simp: fill_page_def Let_def result_simps case_prod_unfold split: if_splits) (metis prod.collapse)+
  have "mem k1 = mem k"
    using br page_contents.shadow_keeps [OF contents]
    by (auto simp: check_call_bridge_def result_simps split: if_splits prod.splits)
  with page_contents.publish_writes [OF contents pub] pl en show ?thesis by auto
qed

lemma new_route_enters:
  assumes prepared: "prepare_entry H patches source dispatcher k = (Ok en, k1)"
    and written: "host_write H (pt_address (en_patch en)) (pt_original (en_patch en)) (pt_replacement (en_patch en)) k1 = (Ok (), k2)"
    and entry: "{source ..< source + MAX_PREFIX} \<subseteq> code"
    and bounds: "source + MAX_PREFIX \<le> usize_max" "dispatcher \<le> usize_max"
  shows "enters (h_target H) other vector (mem k2) source dispatcher \<and>
    (\<exists>saved. code_trampoline (h_target H) (pt_address (en_patch en)) (ex_address (en_original en)) (pt_original (en_patch en)) =
       Ok saved \<and> length saved \<le> 512 \<and> stands_at (mem k2) (ex_address (en_original en)) saved)"
proof -
  from prepared obtain bytes k3 page k4 where r: "memory_read (h_memory H) source MAX_PREFIX k = (Ok bytes, k3)"
    and n: "near (h_pages H) source k3 = (Ok page, k4)"
    and f: "fill_page H patches source dispatcher bytes page k4 = (Ok en, k1)"
    by (auto simp: prepare_entry_def result_simps dropping_Ok)
  let ?a = "ex_address page"
  from fill_page_holds [OF f] obtain pl saved tail where
    pl: "code_plan (h_target H) source (?a + 512) bytes = Ok pl"
    and saved: "code_trampoline (h_target H) (source + plan_offset pl) ?a (plan_original pl) = Ok saved"
    and tail: "code_jump (h_target H) (?a + 512) dispatcher = Ok tail"
    and k1: "mem k1 = write_bytes (mem k4) ?a (resize 512 0xcc saved @ tail)"
    and en: "pt_address (en_patch en) = source + plan_offset pl" "pt_original (en_patch en) = plan_original pl"
      "pt_replacement (en_patch en) = plan_replacement pl" "ex_address (en_original en) = ?a" by blast
  note m = write_mem [OF written, unfolded en]
  from leavesD [OF relay_pages.near_law [OF pages TrueI] n] have apart: "page_apart code ?a"
    and k4: "same_on code (mem k4) (mem k3)" by (auto simp: keeps_code_def)
  have top: "?a + CAPACITY \<le> usize_max" by (rule page_contents.near_bound [OF contents n])
  from read_mem [OF r] obtain c where c: "c \<le> MAX_PREFIX" "bytes = fetch (mem k3) source c" by auto
  then have c': "{source ..< source + c} \<subseteq> code" "source + c \<le> usize_max" using entry bounds by auto
  have "length (plan_original pl) \<le> MAX_PREFIX"
    using code_plan_fits [OF pl] code_plan_shape(3) [OF pl] c by simp
  with saved have short: "length saved \<le> 512" by (rule code_trampoline_size)
  then have sz: "resize 512 0xcc saved = saved @ replicate (512 - length saved) 0xcc" "length (resize 512 0xcc saved) = 512"
    by (simp_all add: resize_def)
  have len: "length (resize 512 0xcc saved @ tail) \<le> CAPACITY" using code_jump_length [OF tail] sz(2) by (simp add: CAPACITY_def)
  have same: "same_on code (mem k1) (mem k3)" unfolding k1 by (rule same_on_trans [OF copy_apart [OF apart len] k4])
  have near_end: "?a + 512 \<le> usize_max" "?a + 512 + 16 \<le> usize_max" using top by (simp_all add: CAPACITY_def)
  note e = patch_enters [OF pl c(2) same c' near_end(1) m]
  have "stands_at (mem k1) ?a (resize 512 0xcc saved @ tail)" unfolding k1 stands_at_def by (rule fetch_write_bytes)
  then have st: "stands_at (mem k1) (?a + 512) tail" "stands_at (mem k1) ?a saved"
    using sz by (simp_all add: stands_at_append)
  have out: "?a + i \<notin> code" if "i < 528" for i using that page_apartD [OF apart, of i] by (simp add: CAPACITY_def)
  have "enters (h_target H) other vector (mem k2) (?a + 512) dispatcher"
  proof (rule jump_enters [OF tail page_stands [OF st(1) e(2)] near_end(2) bounds(2)])
    show "?a + 512 + i \<notin> code" if "i < length tail" for i
      using out [of "512 + i"] that code_jump_length [OF tail] by (simp add: add.assoc)
  qed simp
  moreover have "stands_at (mem k2) ?a saved"
    by (rule page_stands [OF st(2) e(2)]) (use out short in simp_all)
  ultimately show ?thesis using e(1) [of other vector] saved short unfolding en by (blast intro: enters_trans)
qed

end

interpretation sim_in_place: in_place_host sim_host sm_bytes "{..<32768}" sim_prot writable_protection "\<lambda>p. p OR PROT_WRITE"
  using sim.code_platform_axioms sim_pages.unix.relay_pages_axioms sim_contents.page_contents_axioms
  by (intro in_place_host.intro) (simp_all add: sim_host_def)

interpretation sim_arm_in_place: in_place_host sim_arm_host sm_bytes "{..<32768}" sim_prot writable_protection "\<lambda>p. p OR PROT_WRITE"
  using sim.code_platform_axioms sim_pages.unix.relay_pages_axioms sim_contents.page_contents_axioms
  by (intro in_place_host.intro) (simp_all add: sim_arm_host_def)

section \<open>Properties\<close>

lemma sample_inside: "{4096 ..< 4128 :: nat} \<subseteq> {..<32768}"
  by auto

lemma replace_raw_Ok: "replace_raw H source target sw = (Ok (), sw') \<Longrightarrow> install_raw H source target sw = (Ok (), sw')"
  by (cases "install_raw H source target sw"; cases "fst (install_raw H source target sw)") (auto simp: replace_raw_def)

lemma new_route_Ok:
  assumes "new_route H source dispatcher pr = (Ok pointer, pr')"
  obtains en k1 where "prepare_entry H (pr_patches pr) source dispatcher (pr_system pr) = (Ok en, k1)"
    "host_write H (pt_address (en_patch en)) (pt_original (en_patch en)) (pt_replacement (en_patch en)) k1 =
       (Ok (), pr_system pr')"
    "pr_heap pr' ! pointer = en\<lparr>en_next := pr_head pr\<rparr>"
proof -
  obtain r1 k1 where q: "prepare_entry H (pr_patches pr) source dispatcher (pr_system pr) = (r1, k1)"
    by (cases "prepare_entry H (pr_patches pr) source dispatcher (pr_system pr)")
  with assms obtain en where en: "r1 = Ok en"
    by (cases r1) (auto simp: new_route_def pr_patches_def [symmetric] in_system_def)
  obtain r2 k2 where w: "host_write H (pt_address (en_patch en)) (pt_original (en_patch en))
      (pt_replacement (en_patch en)) k1 = (r2, k2)"
    by (cases "host_write H (pt_address (en_patch en)) (pt_original (en_patch en)) (pt_replacement (en_patch en)) k1")
  with assms q en that show thesis
    by (cases r2) (auto simp: new_route_def pr_patches_def [symmetric] in_system_def write_entry_def publish_entry_def Let_def)
qed

text \<open>
  C3: A replaced function runs its replacement. After a raw replacement that patches the function, a
  processor that calls it arrives at the target: on x86-64 through the patched entry, behind the
  landing pad if there is one; on ARM64 through the entry and the relay page, with nothing changed
  but \<open>x16\<close>. This joins the plan, the relay page and the write into memory.
\<close>

theorem replaced_function_runs_target:
  assumes "in_place_host H mem code prot can_write grant" "install_raw H source target (s, w) = (Ok (), s', w')"
    "ss_global_routes s' = ss_global_routes s" "{source ..< source + MAX_PREFIX} \<subseteq> code"
    "source + MAX_PREFIX \<le> usize_max" "target \<le> usize_max"
  shows "enters (h_target H) other vector (mem (pr_system (mc_process w'))) source target"
proof -
  from assms(2,3) obtain w1 where "patch_source H source target (s, w1) = (Ok (), s', w')"
    by (auto simp: install_raw_def result_simps in_process_def split: if_splits prod.splits)
  then show ?thesis by (rule in_place_host.patch_source_enters [OF assms(1) _ assms(4-6)])
qed

theorem replaced_function_runs_target_witness:
  "enters Arm64 (\<lambda>_ s. (s, None)) (\<lambda>_ _ _ s. s :: unit cpu_scheme)
     (write_bytes arm_relayed 4100 (pt_replacement arm_patch)) 4096 8192"
proof -
  let ?w = "with_code arm_code :: (unit, sim) machine"
  have "install_raw sim_arm_host 4096 8192 (new_session GlobalLock, ?w) =
     (Ok (), (new_session GlobalLock)\<lparr>ss_patches := [arm_patch]\<rparr>,
      with_code (write_bytes arm_relayed 4100 (pt_replacement arm_patch)))"
    by (rule replace_raw_Ok [OF arm_raw])
  from replaced_function_runs_target [OF sim_arm_in_place.in_place_host_axioms this,
      of "\<lambda>_ s. (s, None)" "\<lambda>_ _ _ s. s"]
  show ?thesis by (simp add: sample_inside new_session_def MAX_PREFIX_def usize_defs with_code_def fresh_process_def sample_state_def)
qed

text \<open>
  C4: A routed function runs its dispatcher, and its original stays callable. After the first route of
  a function is installed, a processor that calls the function arrives at the dispatcher, through the
  entry and the second part of the entry's page; the first part of the page holds the complete
  trampoline of the displaced instructions: the 512 bytes it is cut to are always enough. On both
  targets.
\<close>

theorem routed_function_runs_dispatcher:
  assumes "in_place_host H mem code prot can_write grant" "new_route H source dispatcher pr = (Ok pointer, pr')"
    "{source ..< source + MAX_PREFIX} \<subseteq> code" "source + MAX_PREFIX \<le> usize_max" "dispatcher \<le> usize_max"
  shows "enters (h_target H) other vector (mem (pr_system pr')) source dispatcher \<and>
    (\<exists>saved. code_trampoline (h_target H) (pt_address (en_patch (pr_heap pr' ! pointer)))
         (ex_address (en_original (pr_heap pr' ! pointer))) (pt_original (en_patch (pr_heap pr' ! pointer))) = Ok saved \<and>
       length saved \<le> 512 \<and>
       stands_at (mem (pr_system pr')) (ex_address (en_original (pr_heap pr' ! pointer))) saved)"
proof -
  from assms(2) obtain en k1 where "prepare_entry H (pr_patches pr) source dispatcher (pr_system pr) = (Ok en, k1)"
    "host_write H (pt_address (en_patch en)) (pt_original (en_patch en)) (pt_replacement (en_patch en)) k1 =
       (Ok (), pr_system pr')"
    and en: "pr_heap pr' ! pointer = en\<lparr>en_next := pr_head pr\<rparr>" by (rule new_route_Ok)
  from in_place_host.new_route_enters [OF assms(1) this(1,2) assms(3-5)] show ?thesis unfolding en by simp
qed

theorem routed_function_runs_dispatcher_witness:
  "x86_enters (sm_bytes (pr_system sample_patched)) 4096 8192"
proof -
  from sample_prepare sample_write have "new_route sim_host 4096 8192 sample_process = (Ok 0, sample_patched\<lparr>pr_local := (\<lambda>_. [])\<rparr>)"
    by (simp add: new_route_def sample_process_def fresh_process_def in_system_def publish_entry_def write_entry_def
        sample_entry_made_def sample_patched_def Let_def)
  from routed_function_runs_dispatcher [OF sim_in_place.in_place_host_axioms this,
      of "\<lambda>_ s. (s, None)" "\<lambda>_ _ _ s. s :: unit cpu_scheme"]
  show ?thesis by (simp add: sample_inside MAX_PREFIX_def usize_defs)
qed

end
