(* ===== verification/Windows_Memory.thy ===== *)
theory Windows_Memory
  imports Code_Memory
begin

text \<open>
  The Windows side of src/memory.rs (src/memory/windows.rs and the declarations of
  src/memory/windows/api.rs). The kernel is a record of calls; \<open>windows_kernel\<close> states their
  documented behaviour, and with it \<open>windows_platform\<close> meets the contract that src/memory.rs
  runs on.
\<close>

section \<open>Calls and constants\<close>

definition MEM_COMMIT :: nat where "MEM_COMMIT = 0x1000"

definition PAGE_READONLY :: nat where "PAGE_READONLY = 0x02"

definition PAGE_READWRITE :: nat where "PAGE_READWRITE = 0x04"

definition PAGE_WRITECOPY :: nat where "PAGE_WRITECOPY = 0x08"

definition PAGE_EXECUTE_READ :: nat where "PAGE_EXECUTE_READ = 0x20"

definition PAGE_EXECUTE_READWRITE :: nat where "PAGE_EXECUTE_READWRITE = 0x40"

definition PAGE_EXECUTE_WRITECOPY :: nat where "PAGE_EXECUTE_WRITECOPY = 0x80"

definition PAGE_GUARD :: nat where "PAGE_GUARD = 0x100"

lemmas page_flags = MEM_COMMIT_def PAGE_READONLY_def PAGE_READWRITE_def PAGE_WRITECOPY_def
  PAGE_EXECUTE_READ_def PAGE_EXECUTE_READWRITE_def PAGE_EXECUTE_WRITECOPY_def PAGE_GUARD_def

text \<open>The fields of \<^verbatim>\<open>MemoryInfo\<close> and \<^verbatim>\<open>SystemInfo\<close> that the program reads.\<close>

record memory_info =
  BaseAddress :: usize
  RegionSize :: usize
  State :: nat
  Protect :: nat

record system_info =
  dwPageSize :: nat

text \<open>
  The calls of \<^verbatim>\<open>kernel32\<close>, with their out parameters in the result. \<open>LastError\<close> is what
  \<^verbatim>\<open>last_os_error\<close> reads.
\<close>

record 'k windows =
  VirtualQuery :: "usize \<Rightarrow> 'k \<Rightarrow> (usize \<times> memory_info) \<times> 'k"
  VirtualProtect :: "usize \<Rightarrow> usize \<Rightarrow> nat \<Rightarrow> 'k \<Rightarrow> int \<times> 'k"
  GetSystemInfo :: "'k \<Rightarrow> system_info \<times> 'k"
  ReadProcessMemory :: "usize \<Rightarrow> usize \<Rightarrow> 'k \<Rightarrow> (int \<times> u8 list \<times> usize) \<times> 'k"
  FlushInstructionCache :: "usize \<Rightarrow> usize \<Rightarrow> 'k \<Rightarrow> int \<times> 'k"
  LastError :: "'k \<Rightarrow> int"
  wn_store :: "usize \<Rightarrow> u8 list \<Rightarrow> 'k \<Rightarrow> 'k"

section \<open>The platform functions\<close>

definition windows_region_at :: "'k windows \<Rightarrow> usize \<Rightarrow> (region option, 'k) call" where
  "windows_region_at W address k =
     (case VirtualQuery W address k of ((queried, information), k') \<Rightarrow>
        if queried = 0 then (Err (Os ''query memory'' (LastError W k')), k')
        else
          let start = BaseAddress information in
          (and_then (ok_or (checked_add start (RegionSize information)) InvalidRange) (\<lambda>e.
             let accessible = (State information = MEM_COMMIT \<and> Protect information AND PAGE_GUARD = 0);
                 protection = Protect information AND 0xff in
             Ok (Some \<lparr>rg_start = start, rg_end = e, rg_protection = Protect information,
               rg_readable = (accessible \<and> protection \<in> {PAGE_READONLY, PAGE_READWRITE, PAGE_WRITECOPY,
                 PAGE_EXECUTE_READ, PAGE_EXECUTE_READWRITE, PAGE_EXECUTE_WRITECOPY}),
               rg_executable = (accessible \<and> protection \<in> {PAGE_EXECUTE_READ, PAGE_EXECUTE_READWRITE,
                 PAGE_EXECUTE_WRITECOPY})\<rparr>)), k'))"

definition windows_read_bytes :: "'k windows \<Rightarrow> usize \<Rightarrow> usize \<Rightarrow> (u8 list, 'k) call" where
  "windows_read_bytes W address len k =
     (case ReadProcessMemory W address len k of ((result, bytes, copied), k') \<Rightarrow>
        if result = 0 then (Err (Os ''read memory'' (LastError W k')), k')
        else (Ok (take copied bytes), k'))"

definition windows_page_size :: "'k windows \<Rightarrow> (usize, 'k) call" where
  "windows_page_size W k =
     (case GetSystemInfo W k of (information, k') \<Rightarrow> (Ok (dwPageSize information), k'))"

text \<open>\<^verbatim>\<open>(protection & !0xff) | PAGE_EXECUTE_READWRITE\<close>\<close>

definition windows_grant :: "nat \<Rightarrow> nat" where
  "windows_grant protection = push_bit 8 (drop_bit 8 protection) OR PAGE_EXECUTE_READWRITE"

definition windows_protect :: "'k windows \<Rightarrow> page_range \<Rightarrow> bool \<Rightarrow> (unit, 'k) call" where
  "windows_protect W page writable k =
     (let protection = (if writable then windows_grant (pg_protection page) else pg_protection page) in
      case VirtualProtect W (pg_address page) (pg_length page) protection k of (result, k') \<Rightarrow>
        if result = 0 then (Err (Os ''protect memory'' (LastError W k')), k') else (Ok (), k'))"

definition windows_flush :: "'k windows \<Rightarrow> usize \<Rightarrow> usize \<Rightarrow> (unit, 'k) call" where
  "windows_flush W address len k =
     (case FlushInstructionCache W address len k of (result, k') \<Rightarrow>
        if result = 0 then (Err (Os ''flush instruction cache'' (LastError W k')), k') else (Ok (), k'))"

definition windows_platform :: "'k windows \<Rightarrow> 'k platform" where
  "windows_platform W = \<lparr>region_at = windows_region_at W, read_bytes = windows_read_bytes W,
     page_size = windows_page_size W, protect = windows_protect W, flush = windows_flush W,
     store = wn_store W\<rparr>"

section \<open>What the program relies on\<close>

definition windows_writable :: "nat \<Rightarrow> bool" where
  "windows_writable p \<longleftrightarrow> p AND PAGE_GUARD = 0 \<and>
     p AND 0xff \<in> {PAGE_READWRITE, PAGE_WRITECOPY, PAGE_EXECUTE_READWRITE, PAGE_EXECUTE_WRITECOPY}"

lemma windows_grant_writable:
  assumes "p AND PAGE_GUARD = 0"
  shows "windows_writable (windows_grant p)"
proof -
  have "\<not> bit (p AND PAGE_GUARD) 8" using assms by simp
  then have "\<not> bit p 8" by (simp add: bit_and_iff page_flags bit_0)
  moreover have "bit (256 :: nat) n \<longleftrightarrow> n = 8" "bit (64 :: nat) n \<longleftrightarrow> n = 6" for n
    using bit_exp_iff [of 8 n, where 'a = nat] bit_exp_iff [of 6 n, where 'a = nat] by auto
  ultimately have "windows_grant p AND PAGE_GUARD = 0"
    by (intro bit_eqI) (auto simp: windows_grant_def page_flags bit_simps)
  moreover have "windows_grant p AND 0xff = take_bit 8 (windows_grant p)"
    by (simp add: take_bit_eq_mask mask_eq_exp_minus_1)
  then have "windows_grant p AND 0xff = PAGE_EXECUTE_READWRITE"
    by (simp add: windows_grant_def page_flags take_bit_or take_bit_push_bit)
  ultimately show ?thesis by (simp add: windows_writable_def)
qed

text \<open>
  A query that succeeds describes the region around the address, and a committed region has one
  protection. Changing the protection of whole pages leaves the bytes alone and sets exactly those
  pages when it succeeds. A read copies a prefix of the range.
\<close>

locale windows_kernel =
  fixes W :: "'k windows"
    and mem :: "'k \<Rightarrow> memory"
    and prot :: "'k \<Rightarrow> usize \<Rightarrow> nat"
  assumes query_law: "VirtualQuery W a k = ((queried, info), k') \<Longrightarrow>
      mem k' = mem k \<and> prot k' = prot k \<and>
      (queried \<noteq> 0 \<longrightarrow> BaseAddress info \<le> a \<and> a < BaseAddress info + RegionSize info \<and>
         (State info = MEM_COMMIT \<longrightarrow>
           (\<forall>b. BaseAddress info \<le> b \<longrightarrow> b < BaseAddress info + RegionSize info \<longrightarrow> prot k b = Protect info)))"
    and read_process_law: "ReadProcessMemory W a n k = ((result, bytes, copied), k') \<Longrightarrow>
      mem k' = mem k \<and> prot k' = prot k \<and>
      (result \<noteq> 0 \<longrightarrow> copied \<le> n \<and> take copied bytes = fetch (mem k) a copied)"
    and system_info_law: "GetSystemInfo W k = (sysinfo, k') \<Longrightarrow>
      mem k' = mem k \<and> prot k' = prot k \<and> 0 < dwPageSize sysinfo"
    and virtual_protect_law: "VirtualProtect W a n p k = (result, k') \<Longrightarrow>
      mem k' = mem k \<and> (\<forall>b. b < a \<or> a + n \<le> b \<longrightarrow> prot k' b = prot k b) \<and>
      (result \<noteq> 0 \<longrightarrow> (\<forall>b. a \<le> b \<longrightarrow> b < a + n \<longrightarrow> prot k' b = p))"
    and flush_cache_law: "FlushInstructionCache W a n k = (result, k') \<Longrightarrow> mem k' = mem k \<and> prot k' = prot k"
    and wn_store_law: "(\<And>b. a \<le> b \<Longrightarrow> b < a + length data \<Longrightarrow> windows_writable (prot k b)) \<Longrightarrow>
      mem (wn_store W a data k) = write_bytes (mem k) a data \<and> prot (wn_store W a data k) = prot k"
begin

lemma windows_region_at_law:
  assumes "windows_region_at W a k = (r, k')"
  shows "returns r \<and> mem k' = mem k \<and> prot k' = prot k \<and>
    (\<forall>region. r = Ok (Some region) \<longrightarrow> rg_readable region \<longrightarrow>
      rg_start region \<le> a \<and> a < rg_end region \<and> windows_writable (windows_grant (rg_protection region)) \<and>
      (\<forall>b. rg_start region \<le> b \<longrightarrow> b < rg_end region \<longrightarrow> prot k b = rg_protection region))"
proof -
  obtain q info k1 where v: "VirtualQuery W a k = ((q, info), k1)" by (metis prod.exhaust)
  from query_law [OF v] assms v show ?thesis
    by (auto simp: windows_region_at_def Let_def result_simps intro: windows_grant_writable split: if_splits)
qed

end

sublocale windows_kernel \<subseteq> code_platform "windows_platform W" mem prot windows_writable windows_grant
proof
  fix a k r k'
  assume "region_at (windows_platform W) a k = (r, k')"
  then show "returns r \<and> mem k' = mem k \<and> prot k' = prot k \<and>
      (\<forall>region. r = Ok (Some region) \<longrightarrow> rg_readable region \<longrightarrow> rg_executable region \<longrightarrow>
         rg_start region \<le> a \<and> a < rg_end region \<and>
         (\<forall>b. rg_start region \<le> b \<longrightarrow> b < rg_end region \<longrightarrow> prot k b = rg_protection region))"
    using windows_region_at_law [of a k r k'] by (simp add: windows_platform_def)
next
  fix a n k r k'
  assume "read_bytes (windows_platform W) a n k = (r, k')"
  then show "returns r \<and> mem k' = mem k \<and> prot k' = prot k \<and>
      (\<forall>bs. r = Ok bs \<longrightarrow> (\<exists>c\<le>n. bs = fetch (mem k) a c))"
    using read_process_law [of a n k] by (auto simp: windows_platform_def windows_read_bytes_def split: prod.splits if_splits)
next
  fix k r k'
  assume "page_size (windows_platform W) k = (r, k')"
  then show "returns r \<and> mem k' = mem k \<and> prot k' = prot k \<and> (\<forall>n. r = Ok n \<longrightarrow> 0 < n)"
    using system_info_law [of k] by (auto simp: windows_platform_def windows_page_size_def split: prod.splits)
next
  fix page w k r k'
  assume "protect (windows_platform W) page w k = (r, k')"
  then show "returns r \<and> mem k' = mem k \<and>
      (\<forall>b. b \<notin> page_bytes page \<longrightarrow> prot k' b = prot k b) \<and>
      (\<forall>b. r = Ok () \<longrightarrow> b \<in> page_bytes page \<longrightarrow>
         prot k' b = (if w then windows_grant (pg_protection page) else pg_protection page))"
    using virtual_protect_law [of "pg_address page" "pg_length page" _ k]
    by (auto simp: windows_platform_def windows_protect_def page_bytes_def Let_def split: prod.splits if_splits)
next
  fix a n k r k'
  assume "flush (windows_platform W) a n k = (r, k')"
  then show "returns r \<and> mem k' = mem k \<and> prot k' = prot k"
    using flush_cache_law [of a n k] by (auto simp: windows_platform_def windows_flush_def split: prod.splits if_splits)
next
  fix a k and bytes :: "u8 list"
  assume "\<And>b. a \<le> b \<Longrightarrow> b < a + length bytes \<Longrightarrow> windows_writable (prot k b)"
  then show "mem (store (windows_platform W) a bytes k) = write_bytes (mem k) a bytes \<and>
      prot (store (windows_platform W) a bytes k) = prot k"
    using wn_store_law by (simp add: windows_platform_def)
next
  fix a k region k'
  assume "region_at (windows_platform W) a k = (Ok (Some region), k')" "rg_readable region"
  then show "windows_writable (windows_grant (rg_protection region))"
    using windows_region_at_law [of a k "Ok (Some region)" k'] by (simp add: windows_platform_def)
qed

context windows_kernel
begin

lemma windows_contract: "code_platform (windows_platform W) mem prot windows_writable windows_grant"
  by unfold_locales

end

section \<open>A kernel that behaves as documented\<close>

text \<open>Every page of 4096 bytes below \<open>0x10000\<close> is a committed region of its own; above, nothing is mapped.\<close>

record wsim =
  ws_bytes :: memory
  ws_page :: "nat \<Rightarrow> nat"

definition wsim_prot :: "wsim \<Rightarrow> usize \<Rightarrow> nat" where
  "wsim_prot k b = ws_page k (b div 4096)"

definition wsim_kernel :: "wsim windows" where
  "wsim_kernel = \<lparr>
     VirtualQuery = (\<lambda>a k. if a < 0x10000
       then ((48, \<lparr>BaseAddress = a div 4096 * 4096, RegionSize = 4096, State = MEM_COMMIT, Protect = wsim_prot k a\<rparr>), k)
       else ((0, \<lparr>BaseAddress = 0, RegionSize = 0, State = 0, Protect = 0\<rparr>), k)),
     VirtualProtect = (\<lambda>a n p k. if a mod 4096 = 0 \<and> n mod 4096 = 0
       then (1, k\<lparr>ws_page := (\<lambda>i. if a div 4096 \<le> i \<and> i < (a + n) div 4096 then p else ws_page k i)\<rparr>)
       else (0, k)),
     GetSystemInfo = (\<lambda>k. (\<lparr>dwPageSize = 4096\<rparr>, k)),
     ReadProcessMemory = (\<lambda>a n k. ((1, fetch (ws_bytes k) a n, n), k)),
     FlushInstructionCache = (\<lambda>a n k. (1, k)),
     LastError = (\<lambda>k. 487),
     wn_store = (\<lambda>a data k. k\<lparr>ws_bytes := write_bytes (ws_bytes k) a data\<rparr>)\<rparr>"

lemma page_of: "i * 4096 \<le> b \<Longrightarrow> b < i * 4096 + 4096 \<Longrightarrow> b div 4096 = i" for b i :: nat
  by (simp add: div_nat_eqI mult.commute)

interpretation wsim: windows_kernel wsim_kernel ws_bytes wsim_prot
proof
  fix a k queried info k'
  assume "VirtualQuery wsim_kernel a k = ((queried, info), k')"
  then show "ws_bytes k' = ws_bytes k \<and> wsim_prot k' = wsim_prot k \<and>
      (queried \<noteq> 0 \<longrightarrow> BaseAddress info \<le> a \<and> a < BaseAddress info + RegionSize info \<and>
         (State info = MEM_COMMIT \<longrightarrow>
           (\<forall>b. BaseAddress info \<le> b \<longrightarrow> b < BaseAddress info + RegionSize info \<longrightarrow> wsim_prot k b = Protect info)))"
    using dividend_less_div_times [of 4096 a]
    by (auto simp: wsim_kernel_def wsim_prot_def page_of split: if_splits)
next
  fix a n p k result k'
  assume q: "VirtualProtect wsim_kernel a n p k = (result, k')"
  show "ws_bytes k' = ws_bytes k \<and> (\<forall>b. b < a \<or> a + n \<le> b \<longrightarrow> wsim_prot k' b = wsim_prot k b) \<and>
      (result \<noteq> 0 \<longrightarrow> (\<forall>b. a \<le> b \<longrightarrow> b < a + n \<longrightarrow> wsim_prot k' b = p))"
  proof (cases "a mod 4096 = 0 \<and> n mod 4096 = 0")
    case True
    then obtain x y where al: "a = x * 4096" "n = y * 4096" by (metis div_mult_mod_eq add_0_right)
    have d: "a div 4096 = x" "n div 4096 = y" unfolding al by simp_all
    have r: "x \<le> b div 4096 \<and> b div 4096 < x + y \<longleftrightarrow> a \<le> b \<and> b < a + n" for b
      unfolding al add_mult_distrib [symmetric]
      by (simp add: less_eq_div_iff_mult_less_eq div_less_iff_less_mult)
    have k': "k' = k\<lparr>ws_page := (\<lambda>i. if x \<le> i \<and> i < x + y then p else ws_page k i)\<rparr>"
      using q True d by (auto simp: wsim_kernel_def)
    have "wsim_prot k' b = (if a \<le> b \<and> b < a + n then p else wsim_prot k b)" for b
      unfolding k' wsim_prot_def using r [of b] by simp
    then show ?thesis using k' by auto
  qed (use q in \<open>auto simp: wsim_kernel_def wsim_prot_def\<close>)
qed (auto simp: wsim_kernel_def wsim_prot_def fun_eq_iff)

end
