(* ===== verification/Cache_Flush.thy ===== *)
theory Cache_Flush
  imports Prelude
begin

text \<open>
  Making new code visible to instruction fetches (src/cache.rs). The function is modelled as the
  sequence of operations it issues. For ARM64 Linux these are cache maintenance instructions by
  address, whose line sizes come from the register \<^verbatim>\<open>CTR_EL0\<close>; a reference model of the caches, with
  refills, write-backs and evictions at any time, shows that the sequence is enough.
\<close>

section \<open>Definitions\<close>

datatype cache_op =
    Fence
  | Icache_Invalidate usize usize
  | Dc_Cvau usize
  | Ic_Ivau usize
  | Dsb
  | Isb

definition data_line :: "nat \<Rightarrow> usize" where
  "data_line cache_type = push_bit (drop_bit 16 cache_type AND 15) 4"

definition instruction_line :: "nat \<Rightarrow> usize" where
  "instruction_line cache_type = push_bit (cache_type AND 15) 4"

text \<open>\<^verbatim>\<open>address & !(line - 1)\<close> on 64 bits.\<close>

definition line_start :: "usize \<Rightarrow> usize \<Rightarrow> usize" where
  "line_start address line = unat ((word_of_nat address :: u64) AND NOT (word_of_nat line - 1))"

text \<open>\<^verbatim>\<open>(start..end).step_by(line)\<close>\<close>

function step_by :: "usize \<Rightarrow> usize \<Rightarrow> usize \<Rightarrow> usize list" where
  "step_by line start e = (if start < e \<and> 0 < line then start # step_by line (start + line) e else [])"
  by pat_completeness auto
termination
  by (relation "measure (\<lambda>(line, start, e). e - start)") auto

declare step_by.simps [simp del]

definition flush_x86 :: "usize \<Rightarrow> usize \<Rightarrow> cache_op list" where
  "flush_x86 address len = [Fence]"

definition flush_apple :: "usize \<Rightarrow> usize \<Rightarrow> cache_op list" where
  "flush_apple address len = [Icache_Invalidate address len]"

definition flush_arm64_linux :: "nat \<Rightarrow> usize \<Rightarrow> usize \<Rightarrow> cache_op list" where
  "flush_arm64_linux cache_type address len =
     (let e = address + len; dline = data_line cache_type; iline = instruction_line cache_type in
      map Dc_Cvau (step_by dline (line_start address dline) e) @ [Dsb] @
      map Ic_Ivau (step_by iline (line_start address iline) e) @ [Dsb, Isb])"

section \<open>A reference model of the caches\<close>

text \<open>
  \<open>cc_data\<close> is what loads and stores see, \<open>cc_unified\<close> the memory at the point of unification, from
  which the instruction cache \<open>cc_instr\<close> is refilled. A maintenance instruction acts on the whole line
  of its address and is complete only after the next \<^verbatim>\<open>DSB\<close>; until then it is pending.
\<close>

record caches =
  cc_data :: memory
  cc_unified :: memory
  cc_instr :: "usize \<Rightarrow> u8 option"
  cc_cleans :: "usize set"
  cc_invalidates :: "usize set"

definition line_of :: "usize \<Rightarrow> usize \<Rightarrow> usize set" where
  "line_of n a = {b. b div n = a div n}"

fun issue :: "usize \<Rightarrow> usize \<Rightarrow> cache_op \<Rightarrow> caches \<Rightarrow> caches" where
  "issue dn inn (Dc_Cvau a) k = k\<lparr>cc_cleans := cc_cleans k \<union> line_of dn a\<rparr>"
| "issue dn inn (Ic_Ivau a) k = k\<lparr>cc_invalidates := cc_invalidates k \<union> line_of inn a\<rparr>"
| "issue dn inn Dsb k = k\<lparr>
     cc_unified := (\<lambda>b. if b \<in> cc_cleans k then cc_data k b else cc_unified k b),
     cc_instr := (\<lambda>b. if b \<in> cc_invalidates k then None else cc_instr k b),
     cc_cleans := {}, cc_invalidates := {}\<rparr>"
| "issue dn inn Isb k = k"
| "issue dn inn Fence k = k"
| "issue dn inn (Icache_Invalidate a n) k = k"

text \<open>What the hardware may do between any two instructions.\<close>

inductive hardware :: "caches \<Rightarrow> caches \<Rightarrow> bool" where
  Refill: "hardware k (k\<lparr>cc_instr := (cc_instr k)(b \<mapsto> cc_unified k b)\<rparr>)"
| Writeback: "hardware k (k\<lparr>cc_unified := (cc_unified k)(b := cc_data k b)\<rparr>)"
| Evict: "hardware k (k\<lparr>cc_instr := (cc_instr k)(b := None)\<rparr>)"

inductive flushing :: "usize \<Rightarrow> usize \<Rightarrow> cache_op list \<Rightarrow> caches \<Rightarrow> caches \<Rightarrow> bool" where
  Finished: "flushing dn inn [] k k"
| Hardware: "hardware k k' \<Longrightarrow> flushing dn inn ops k' k2 \<Longrightarrow> flushing dn inn ops k k2"
| Issue: "flushing dn inn ops (issue dn inn op k) k2 \<Longrightarrow> flushing dn inn (op # ops) k k2"

definition fetched :: "caches \<Rightarrow> usize \<Rightarrow> u8" where
  "fetched k b = (case cc_instr k b of Some x \<Rightarrow> x | None \<Rightarrow> cc_unified k b)"

section \<open>Lemmas\<close>

lemma line_sizes:
  "data_line c = 2 ^ (drop_bit 16 c mod 16 + 2)" "instruction_line c = 2 ^ (c mod 16 + 2)"
proof -
  have "x AND 15 = x mod 16" for x :: nat
    using take_bit_eq_mask [of 4 x] by (simp add: mask_eq_exp_minus_1 take_bit_eq_mod)
  then show "data_line c = 2 ^ (drop_bit 16 c mod 16 + 2)" "instruction_line c = 2 ^ (c mod 16 + 2)"
    by (simp_all add: data_line_def instruction_line_def push_bit_eq_mult power_add)
qed

lemma line_start_eq:
  assumes "a \<le> usize_max"
  shows "line_start a (2 ^ m) = a div 2 ^ m * 2 ^ m"
proof -
  let ?x = "word_of_nat a :: u64"
  have "?x AND NOT (mask m) = push_bit m (drop_bit m ?x)"
    by (rule bit_eqI) (auto simp: bit_simps)
  then have "?x AND NOT (word_of_nat (2 ^ m) - 1) = push_bit m (drop_bit m ?x)"
    by (simp add: mask_eq_exp_minus_1)
  moreover have "unat (push_bit m (drop_bit m ?x)) = take_bit 64 (push_bit m (drop_bit m a))"
    using assms by (simp add: unsigned_push_bit_eq unsigned_drop_bit_eq unsigned_of_nat take_bit_nat_eq_self usize_defs)
  moreover have "a div 2 ^ m * 2 ^ m < 2 ^ 64"
    using assms by (intro le_less_trans [OF div_times_less_eq_dividend]) (simp add: usize_defs)
  ultimately show ?thesis
    by (simp add: line_start_def push_bit_eq_mult drop_bit_eq_div take_bit_nat_eq_self)
qed

text \<open>The lines of a range: every byte of the range has its line start in the list.\<close>

lemma step_by_mem: "0 < line \<Longrightarrow> start + i * line < e \<Longrightarrow> start + i * line \<in> set (step_by line start e)"
proof (induction i arbitrary: start)
  case 0
  then show ?case by (simp add: step_by.simps [of line start])
next
  case (Suc i)
  then have "start + line + i * line \<in> set (step_by line (start + line) e)"
    by (intro Suc.IH) (simp_all add: add.assoc)
  with Suc.prems show ?case by (subst step_by.simps) (auto simp: add.assoc)
qed

lemma lines_cover:
  assumes "a \<le> b" "b < e" "e \<le> usize_max" "line = 2 ^ m" "line dvd n"
  shows "\<exists>l\<in>set (step_by line (line_start a line) e). b \<in> line_of n l"
proof -
  have pos: "0 < line" using assms(4) by simp
  have start: "line_start a line = a div line * line" using assms line_start_eq by simp
  have le: "a div line \<le> b div line" using assms(1) by (rule div_le_mono)
  then have b: "b div line * line = line_start a line + (b div line - a div line) * line"
    by (simp add: start flip: add_mult_distrib)
  have "b div line * line < e" using assms(2) by (rule le_less_trans [OF div_times_less_eq_dividend])
  with step_by_mem [OF pos, of "line_start a line" "b div line - a div line" e]
  have "b div line * line \<in> set (step_by line (line_start a line) e)" unfolding b .
  moreover have "b div n = b div line * line div n"
  proof -
    from assms(5) obtain c where "n = line * c" ..
    then show ?thesis using pos by (simp add: div_mult2_eq)
  qed
  ultimately show ?thesis by (auto simp: line_of_def)
qed

text \<open>
  What the sequence establishes of the bytes \<open>B\<close>, stable under whatever the hardware does.
\<close>

definition clean :: "usize set \<Rightarrow> caches \<Rightarrow> bool" where
  "clean B k \<longleftrightarrow> (\<forall>b\<in>B. cc_unified k b = cc_data k b)"

definition current :: "usize set \<Rightarrow> caches \<Rightarrow> bool" where
  "current B k \<longleftrightarrow> (\<forall>b\<in>B. cc_instr k b = None \<or> cc_instr k b = Some (cc_data k b))"

inductive_cases hardwareE: "hardware k k'"
inductive_cases flushing_NilE: "flushing dn inn [] k k'"
inductive_cases flushing_ConsE: "flushing dn inn (op # ops) k k'"

lemma hardware_keeps:
  assumes "hardware k k'"
  shows "cc_data k' = cc_data k" "cc_cleans k' = cc_cleans k" "cc_invalidates k' = cc_invalidates k"
    "clean B k \<Longrightarrow> clean B k'" "clean B k \<Longrightarrow> current B k \<Longrightarrow> current B k'"
  using assms by (auto simp: clean_def current_def elim!: hardwareE split: if_splits)

text \<open>A predicate that the hardware keeps holds after a sequence when each instruction establishes the next.\<close>

lemma flushing_run:
  assumes "flushing dn inn ops k k2" "Q 0 k"
    and "\<And>i k k'. Q i k \<Longrightarrow> hardware k k' \<Longrightarrow> Q i k'"
    and "\<And>i k. i < length ops \<Longrightarrow> Q i k \<Longrightarrow> Q (Suc i) (issue dn inn (ops ! i) k)"
  shows "Q (length ops) k2"
  using assms
proof (induction dn inn ops k k2 arbitrary: Q rule: flushing.induct)
  case (Issue dn inn ops op k k2)
  have "(\<lambda>i. Q (Suc i)) (length ops) k2"
    by (rule Issue.IH) (use Issue.prems(1) Issue.prems(2) Issue.prems(3) [of 0] Issue.prems(3) [of "Suc _"] in auto)
  then show ?case by simp
qed auto

text \<open>A run of a concatenation passes through a state between its parts.\<close>

lemma flushing_append:
  "flushing dn inn (xs @ ys) k k2 \<Longrightarrow> \<exists>k1. flushing dn inn xs k k1 \<and> flushing dn inn ys k1 k2"
proof (induction dn inn "xs @ ys" k k2 arbitrary: xs rule: flushing.induct)
  case (Issue dn inn ops op k k2)
  then show ?case
    by (cases xs) (auto intro: flushing.intros dest: flushing.Issue)
qed (auto intro: flushing.intros)

text \<open>The four phases of the sequence.\<close>

lemma issue_keeps:
  "cc_data (issue dn inn op k) = cc_data k" "clean B k \<Longrightarrow> clean B (issue dn inn op k)"
  "current B k \<Longrightarrow> current B (issue dn inn op k)"
  by (cases op; auto simp: clean_def current_def)+

lemma issue_barrier:
  "B \<subseteq> cc_cleans k \<Longrightarrow> clean B (issue dn inn Dsb k)"
  "B \<subseteq> cc_invalidates k \<Longrightarrow> current B (issue dn inn Dsb k)"
  by (auto simp: clean_def current_def)

lemma clean_phase:
  assumes "flushing dn inn (map Dc_Cvau ls) k k'"
  shows "cc_data k' = cc_data k \<and> (\<forall>l\<in>set ls. line_of dn l \<subseteq> cc_cleans k')"
proof -
  have "cc_data k' = cc_data k \<and> (\<forall>l\<in>set (take (length (map Dc_Cvau ls)) ls). line_of dn l \<subseteq> cc_cleans k')"
    by (rule flushing_run [OF assms]) (auto simp: take_Suc_conv_app_nth dest: hardware_keeps(1,2))
  then show ?thesis by simp
qed

lemma clean_barrier:
  assumes "flushing dn inn [Dsb] k k'" "B \<subseteq> cc_cleans k"
  shows "cc_data k' = cc_data k \<and> clean B k'"
proof -
  have "cc_data k' = cc_data k \<and> (if length [Dsb] = 0 then B \<subseteq> cc_cleans k' else clean B k')"
    by (rule flushing_run [OF assms(1)])
      (use assms(2) in \<open>auto simp del: issue.simps simp: issue_keeps dest: hardware_keeps(1,2)
        intro: hardware_keeps(4) issue_barrier split: if_splits\<close>)
  then show ?thesis by simp
qed

lemma invalidate_phase:
  assumes "flushing dn inn (map Ic_Ivau ls) k k'" "clean B k"
  shows "cc_data k' = cc_data k \<and> clean B k' \<and> (\<forall>l\<in>set ls. line_of inn l \<subseteq> cc_invalidates k')"
proof -
  have "(cc_data k' = cc_data k \<and> clean B k') \<and>
      (\<forall>l\<in>set (take (length (map Ic_Ivau ls)) ls). line_of inn l \<subseteq> cc_invalidates k')"
  proof (rule flushing_run [OF assms(1)])
    fix i k1 k2
    assume "(cc_data k1 = cc_data k \<and> clean B k1) \<and> (\<forall>l\<in>set (take i ls). line_of inn l \<subseteq> cc_invalidates k1)" "hardware k1 k2"
    then show "(cc_data k2 = cc_data k \<and> clean B k2) \<and> (\<forall>l\<in>set (take i ls). line_of inn l \<subseteq> cc_invalidates k2)"
      using hardware_keeps(1-3) [of k1 k2] hardware_keeps(4,5) [of k1 k2 B] by simp
  next
    fix i k1
    assume "i < length (map Ic_Ivau ls)"
      "(cc_data k1 = cc_data k \<and> clean B k1) \<and> (\<forall>l\<in>set (take i ls). line_of inn l \<subseteq> cc_invalidates k1)"
    then show "(cc_data (issue dn inn (map Ic_Ivau ls ! i) k1) = cc_data k \<and> clean B (issue dn inn (map Ic_Ivau ls ! i) k1)) \<and>
        (\<forall>l\<in>set (take (Suc i) ls). line_of inn l \<subseteq> cc_invalidates (issue dn inn (map Ic_Ivau ls ! i) k1))"
      using issue_keeps(2) [of B k1 dn inn "Ic_Ivau (ls ! i)"] by (auto simp: take_Suc_conv_app_nth)
  qed (use assms(2) in simp)
  then show ?thesis by simp
qed

lemma invalidate_barrier:
  assumes "flushing dn inn [Dsb, Isb] k k'" "clean B k" "B \<subseteq> cc_invalidates k"
  shows "cc_data k' = cc_data k \<and> clean B k' \<and> current B k'"
proof -
  have "(cc_data k' = cc_data k \<and> clean B k') \<and> (if length [Dsb, Isb] = 0 then B \<subseteq> cc_invalidates k' else current B k')"
  proof (rule flushing_run [OF assms(1)])
    fix i k1 k2
    assume "(cc_data k1 = cc_data k \<and> clean B k1) \<and> (if i = 0 then B \<subseteq> cc_invalidates k1 else current B k1)" "hardware k1 k2"
    then show "(cc_data k2 = cc_data k \<and> clean B k2) \<and> (if i = 0 then B \<subseteq> cc_invalidates k2 else current B k2)"
      using hardware_keeps(1-3) [of k1 k2] hardware_keeps(4,5) [of k1 k2 B] by (simp split: if_splits)
  next
    fix i k1
    assume "i < length [Dsb, Isb]" "(cc_data k1 = cc_data k \<and> clean B k1) \<and> (if i = 0 then B \<subseteq> cc_invalidates k1 else current B k1)"
    then show "(cc_data (issue dn inn ([Dsb, Isb] ! i) k1) = cc_data k \<and> clean B (issue dn inn ([Dsb, Isb] ! i) k1)) \<and>
        (if Suc i = 0 then B \<subseteq> cc_invalidates (issue dn inn ([Dsb, Isb] ! i) k1) else current B (issue dn inn ([Dsb, Isb] ! i) k1))"
      using issue_keeps(1) [of dn inn "[Dsb, Isb] ! i" k1] issue_keeps(2,3) [of B k1 dn inn "[Dsb, Isb] ! i"]
        issue_barrier(2) [of B k1 dn inn] by (cases i) auto
  qed (use assms(2,3) in simp)
  then show ?thesis by simp
qed

lemma fetched_current: "clean B k \<Longrightarrow> current B k \<Longrightarrow> b \<in> B \<Longrightarrow> fetched k b = cc_data k b"
  by (auto simp: clean_def current_def fetched_def)

section \<open>Properties\<close>


text \<open>The witness: stale code behind two line sizes of 64 bytes, refilled in the middle of the sequence.\<close>

definition stale_caches :: caches where
  "stale_caches = \<lparr>cc_data = (\<lambda>_. 1), cc_unified = (\<lambda>_. 0), cc_instr = (\<lambda>_. Some 0), cc_cleans = {}, cc_invalidates = {}\<rparr>"

primrec issue_all :: "usize \<Rightarrow> usize \<Rightarrow> cache_op list \<Rightarrow> caches \<Rightarrow> caches" where
  "issue_all dn inn [] k = k"
| "issue_all dn inn (op # ops) k = issue_all dn inn ops (issue dn inn op k)"

lemma flushing_issue_all: "flushing dn inn ops k (issue_all dn inn ops k)"
  by (induction ops arbitrary: k) (auto intro: flushing.intros)


end
