(* ===== verification/Macro_Input.thy ===== *)
theory Macro_Input
  imports Prelude
begin

text \<open>
  The compile-time part of the macros: what \<^verbatim>\<open>mock!\<close> and \<^verbatim>\<open>replace!\<close> accept (the three parsers of
  macros/src/lib.rs), which item of the source is checked, which return types are borrowed, the
  signature check that is generated (macros/src/signature.rs), and the parts of the generated code.

  The parsers of the \<^verbatim>\<open>syn\<close> crate are a parameter: functions that take tokens from the front of the
  input. The signature check is modelled by the names, the type variables and the probes that make
  up the generated code; what the compiler does with them is outside the model.
\<close>

section \<open>Parsing\<close>

type_synonym compile_error = string

type_synonym ('t, 'a) parser = "'t list \<Rightarrow> compile_error + ('a \<times> 't list)"

fun parsed :: "compile_error + ('a \<times> 't list) \<Rightarrow> ('a \<Rightarrow> 't list \<Rightarrow> compile_error + 'b) \<Rightarrow> compile_error + 'b" where
  "parsed (Inl e) f = Inl e"
| "parsed (Inr (v, rest)) f = f v rest"

record ('t, 'path, 'expr, 'sig) syn =
  sy_path :: "('t, 'path) parser"
  sy_expr :: "('t, 'expr) parser"
  sy_signature :: "('t, 'sig) parser"
  sy_comma :: "('t, unit) parser"
  sy_peek_comma :: "'t list \<Rightarrow> bool"
  sy_variadic :: "'sig \<Rightarrow> bool"
  sy_unexpected :: "'t list \<Rightarrow> compile_error"

record ('path, 'expr, 'sig) mock_input =
  in_root :: 'path
  in_session :: 'expr
  in_source :: 'expr
  in_signature :: 'sig

record ('path, 'expr, 'sig) replacement_input =
  rp_mock :: "('path, 'expr, 'sig) mock_input"
  rp_target :: 'expr

record ('expr, 'sig) signature_check =
  sc_source :: 'expr
  sc_value :: 'expr
  sc_target :: 'expr
  sc_signature :: 'sig

text \<open>\<^verbatim>\<open>input.parse()?\<close> followed by \<^verbatim>\<open>input.parse::<Token![,]>()?\<close>\<close>

definition then_comma ::
  "('t, 'path, 'expr, 'sig) syn \<Rightarrow> compile_error + ('a \<times> 't list) \<Rightarrow>
   ('a \<Rightarrow> 't list \<Rightarrow> compile_error + 'b) \<Rightarrow> compile_error + 'b" where
  "then_comma S p f = parsed p (\<lambda>v rest. parsed (sy_comma S rest) (\<lambda>_ rest. f v rest))"

definition parse_mock :: "('t, 'path, 'expr, 'sig) syn \<Rightarrow> ('t, ('path, 'expr, 'sig) mock_input) parser" where
  "parse_mock S input =
     then_comma S (sy_path S input) (\<lambda>root input.
     then_comma S (sy_expr S input) (\<lambda>session input.
     then_comma S (sy_expr S input) (\<lambda>source input.
     parsed (sy_signature S input) (\<lambda>signature input.
       if sy_variadic S signature then Inl ''mock! does not support variadic functions''
       else
         let result = \<lparr>in_root = root, in_session = session, in_source = source, in_signature = signature\<rparr> in
         if sy_peek_comma S input then parsed (sy_comma S input) (\<lambda>_ input. Inr (result, input))
         else Inr (result, input)))))"

definition parse_replacement ::
  "('t, 'path, 'expr, 'sig) syn \<Rightarrow> ('t, ('path, 'expr, 'sig) replacement_input) parser" where
  "parse_replacement S input =
     then_comma S (sy_path S input) (\<lambda>root input.
     then_comma S (sy_expr S input) (\<lambda>session input.
     then_comma S (sy_expr S input) (\<lambda>source input.
     then_comma S (sy_expr S input) (\<lambda>target input.
     parsed (sy_signature S input) (\<lambda>signature input.
       Inr (\<lparr>rp_mock = \<lparr>in_root = root, in_session = session, in_source = source, in_signature = signature\<rparr>,
              rp_target = target\<rparr>, input))))))"

definition parse_signature_check :: "('t, 'path, 'expr, 'sig) syn \<Rightarrow> ('t, ('expr, 'sig) signature_check) parser" where
  "parse_signature_check S input =
     then_comma S (sy_expr S input) (\<lambda>source input.
     then_comma S (sy_expr S input) (\<lambda>value' input.
     then_comma S (sy_expr S input) (\<lambda>target input.
     parsed (sy_signature S input) (\<lambda>signature input.
       Inr (\<lparr>sc_source = source, sc_value = value', sc_target = target, sc_signature = signature\<rparr>, input)))))"

text \<open>\<^verbatim>\<open>syn::parse\<close> runs a parser on the whole input.\<close>

definition parse_all :: "('t, 'path, 'expr, 'sig) syn \<Rightarrow> ('t, 'a) parser \<Rightarrow> 't list \<Rightarrow> compile_error + 'a" where
  "parse_all S p input = parsed (p input) (\<lambda>v rest. if rest = [] then Inr v else Inl (sy_unexpected S rest))"

text \<open>\<^verbatim>\<open>expand\<close>, \<^verbatim>\<open>expand_replacement\<close> and \<^verbatim>\<open>expand_check\<close>: code is generated, or a compile error.\<close>

datatype 'code expansion = Generated 'code | Compile_Error compile_error

fun expand :: "('i \<Rightarrow> 'code) \<Rightarrow> compile_error + 'i \<Rightarrow> 'code expansion" where
  "expand generate (Inr input) = Generated (generate input)"
| "expand generate (Inl error) = Compile_Error error"

section \<open>The source that is checked\<close>

datatype 'e expr = Path_Expr 'e | Paren_Expr "'e expr" | Group_Expr "'e expr" | Other_Expr 'e

fun source_item :: "'e expr \<Rightarrow> 'e expr \<Rightarrow> 'e expr" where
  "source_item (Path_Expr p) v = Path_Expr p"
| "source_item (Paren_Expr e) v = source_item e v"
| "source_item (Group_Expr e) v = source_item e v"
| "source_item (Other_Expr e) v = v"

section \<open>Borrowed return types\<close>

text \<open>
  The visitor sees the references and lifetimes of a type in the order in which \<^verbatim>\<open>syn::visit\<close> walks
  through it; the lifetime of a reference is also visited by itself.
\<close>

datatype type_node = Reference "string option" | Lifetime string

fun visit_node :: "bool \<Rightarrow> type_node \<Rightarrow> bool" where
  "visit_node borrowed (Reference lifetime) = (borrowed \<or> (case lifetime of None \<Rightarrow> True | Some l \<Rightarrow> l \<noteq> ''static''))"
| "visit_node borrowed (Lifetime l) = (borrowed \<or> l \<noteq> ''static'')"

definition output_borrowed :: "type_node list \<Rightarrow> bool" where
  "output_borrowed nodes = foldl visit_node False nodes"

text \<open>The builder methods that hand out a stored value exist only for results that own their data.\<close>

definition constant_methods :: "type_node list \<Rightarrow> string list" where
  "constant_methods nodes = (if output_borrowed nodes then [] else [''returns'', ''return_once'', ''returns_default''])"

section \<open>The signature check\<close>

record signature =
  sg_unsafe :: bool
  sg_abi :: "string option option"
  sg_inputs :: nat

definition native_abi :: "signature \<Rightarrow> bool" where
  "native_abi sg = (case sg_abi sg of None \<Rightarrow> False | Some abi \<Rightarrow> (case abi of None \<Rightarrow> True | Some name \<Rightarrow> name \<noteq> ''Rust''))"

datatype probe_arg = Borrow string bool | Variable string

record probe =
  pb_trait :: string
  pb_method :: string
  pb_fallback :: string
  pb_other :: "string list"
  pb_shape :: "probe_arg list"
  pb_local :: "probe_arg list"

definition arg_types :: "nat \<Rightarrow> string list" where
  "arg_types n = map (\<lambda>i. ''__Arg'' @ show_nat i) [0..<n]"

definition arg_names :: "nat \<Rightarrow> string list" where
  "arg_names n = map (\<lambda>i. ''__arg'' @ show_nat i) [0..<n]"

definition borrowed_args :: "nat \<Rightarrow> nat \<Rightarrow> bool \<Rightarrow> string \<Rightarrow> probe_arg list" where
  "borrowed_args n index mutable lifetime =
     map (\<lambda>(i, ty). if i = index then Borrow lifetime mutable else Variable ty) (enumerate 0 (arg_types n))"

definition probe_for :: "nat \<Rightarrow> nat \<Rightarrow> bool \<Rightarrow> probe" where
  "probe_for n index mutable =
     (let suffix = show_nat index @ show_nat (if mutable then 1 else 0) in
      \<lparr>pb_trait = ''__Input'' @ suffix, pb_method = ''__input'' @ suffix, pb_fallback = ''__Fallback'' @ suffix,
       pb_other = map snd (filter (\<lambda>(i, ty). i \<noteq> index) (enumerate 0 (arg_types n))),
       pb_shape = borrowed_args n index mutable ''__shape'',
       pb_local = borrowed_args n index mutable ''__local''\<rparr>)"

record signature_code =
  ck_types :: "string list"
  ck_names :: "string list"
  ck_local_value :: bool
  ck_probes :: "probe list"

text \<open>\<open>None\<close> is the empty token stream: such signatures are left to the check of pointer types.\<close>

definition check_signature :: "signature \<Rightarrow> signature_code option" where
  "check_signature sg =
     (if sg_unsafe sg \<or> native_abi sg then None
      else let n = sg_inputs sg in
        Some \<lparr>ck_types = arg_types n, ck_names = arg_names n, ck_local_value = (n \<noteq> 0),
              ck_probes = concat (map (\<lambda>index. map (probe_for n index) [False, True]) [0..<n])\<rparr>)"


section \<open>The generated code\<close>

text \<open>
  What \<^verbatim>\<open>generate\<close> puts together for a mock: the parameters of the generated handler and the number of
  inferred pointer inputs, the output type and the one that the builder is instantiated with, the
  builder methods, the item that is checked and the check. \<open>None\<close> is a missing return type.
\<close>

datatype output_type = Unit_Type | Declared_Type "type_node list"

fun output_type_of :: "type_node list option \<Rightarrow> output_type" where
  "output_type_of None = Unit_Type"
| "output_type_of (Some nodes) = Declared_Type nodes"

fun output_nodes :: "output_type \<Rightarrow> type_node list" where
  "output_nodes Unit_Type = []"
| "output_nodes (Declared_Type nodes) = nodes"

definition builder_output :: "output_type \<Rightarrow> output_type" where
  "builder_output ty = (if output_borrowed (output_nodes ty) then Unit_Type else ty)"

definition handler_names :: "nat \<Rightarrow> string list" where
  "handler_names n = map (\<lambda>i. ''__shimforge_arg_'' @ show_nat i) [0..<n]"

record 'e generated_mock =
  gm_names :: "string list"
  gm_inferred :: nat
  gm_output :: output_type
  gm_builder_output :: output_type
  gm_methods :: "string list"
  gm_checked :: "'e expr"
  gm_check :: "signature_code option"
  gm_callable :: signature

definition generate_mock :: "'e expr \<Rightarrow> 'e expr \<Rightarrow> signature \<Rightarrow> type_node list option \<Rightarrow> 'e generated_mock" where
  "generate_mock saved_source source sg result =
     (let ty = output_type_of result in
      \<lparr>gm_names = handler_names (sg_inputs sg), gm_inferred = sg_inputs sg, gm_output = ty,
       gm_builder_output = builder_output ty, gm_methods = constant_methods (output_nodes ty),
       gm_checked = source_item source saved_source, gm_check = check_signature sg,
       gm_callable = sg\<lparr>sg_unsafe := False\<rparr>\<rparr>)"

text \<open>What \<^verbatim>\<open>expand_replacement\<close> puts together, and \<^verbatim>\<open>expand_check\<close>.\<close>

record ('path, 'expr) replacement_code =
  rx_root :: 'path
  rx_session :: 'expr
  rx_source :: 'expr
  rx_target :: 'expr
  rx_types :: "string list"
  rx_names :: "string list"
  rx_unsafe :: bool
  rx_abi :: "string option option"

definition generate_replacement :: "('path, 'expr, signature) replacement_input \<Rightarrow> ('path, 'expr) replacement_code" where
  "generate_replacement input =
     (let mock = rp_mock input; sg = in_signature mock in
      \<lparr>rx_root = in_root mock, rx_session = in_session mock, rx_source = in_source mock, rx_target = rp_target input,
       rx_types = arg_types (sg_inputs sg), rx_names = arg_names (sg_inputs sg),
       rx_unsafe = sg_unsafe sg, rx_abi = sg_abi sg\<rparr>)"

definition expand_replacement ::
  "compile_error + ('path, 'expr, signature) replacement_input \<Rightarrow> ('path, 'expr) replacement_code expansion" where
  "expand_replacement = expand generate_replacement"

definition expand_check ::
  "compile_error + ('e expr, signature) signature_check \<Rightarrow> ('e expr \<times> signature_code option) expansion" where
  "expand_check = expand (\<lambda>ck. (source_item (sc_source ck) (sc_value ck), check_signature (sc_signature ck)))"

text \<open>
  The rules of \<^verbatim>\<open>replace!\<close>: the kind of function pointer selects one of four. An \<^verbatim>\<open>extern\<close> without the
  name of an ABI matches none of them. Only the rule of safe Rust functions asks for the check of the
  signature; the others leave it to the types of the pointers.
\<close>

datatype replace_rule = Safe_Rule | Unsafe_Rule | Extern_Rule string | Unsafe_Extern_Rule string

fun replace_rule_of :: "signature \<Rightarrow> replace_rule option" where
  "replace_rule_of sg =
     (case sg_abi sg of
        None \<Rightarrow> Some (if sg_unsafe sg then Unsafe_Rule else Safe_Rule)
      | Some None \<Rightarrow> None
      | Some (Some abi) \<Rightarrow> Some (if sg_unsafe sg then Unsafe_Extern_Rule abi else Extern_Rule abi))"

fun rule_check :: "replace_rule \<Rightarrow> signature \<Rightarrow> signature_code option" where
  "rule_check Safe_Rule sg = check_signature sg"
| "rule_check _ sg = None"

section \<open>Names\<close>

text \<open>Printing a number is injective: its digits can be read back.\<close>

definition dec_value :: "string \<Rightarrow> nat" where
  "dec_value = foldl (\<lambda>v c. 10 * v + (of_char c - 48)) 0"

lemma dec_value_show: "dec_value (show_nat n) = n"
proof (induction n rule: show_nat.induct)
  case (1 n)
  have d: "of_char (char_of (48 + m :: nat) :: char) = (48 + m :: nat)" if "m < 10" for m
    using that by (simp add: of_char_of take_bit_nat_eq_self)
  show ?case
  proof (cases "n < 10")
    case True
    then show ?thesis using d [of n] by (subst show_nat.simps) (simp add: dec_value_def)
  next
    case False
    have "10 * (n div 10) + n mod 10 = n" by simp
    with False 1 d [of "n mod 10"] show ?thesis by (subst show_nat.simps) (simp add: dec_value_def)
  qed
qed

lemma show_nat_inject [simp]: "show_nat i = show_nat j \<longleftrightarrow> i = j"
  by (metis dec_value_show)

lemma show_flag: "show_nat (if m then 1 else 0) = [if m then CHR ''1'' else CHR ''0'']"
  by (cases m) (subst show_nat.simps; simp add: char_of_def bit_simps)+

lemma suffix_inject:
  "show_nat i @ show_nat (if m then 1 else 0) = show_nat i' @ show_nat (if m' then 1 else 0) \<longleftrightarrow> i = i' \<and> m = m'"
  unfolding show_flag by auto

text \<open>The probes, one for each input and each kind of borrow.\<close>

lemma probes_product:
  "concat (map (\<lambda>index. map (probe_for n index) [False, True]) [0..<n]) =
   map (\<lambda>(i, m). probe_for n i m) (List.product [0..<n] [False, True])"
  by (simp add: product_concat_map map_concat comp_def)

lemma distinct_probes:
  assumes "\<And>i m i' m'. f (probe_for n i m) = f (probe_for n i' m') \<Longrightarrow> i = i' \<and> m = m'"
  shows "distinct (map f (map (\<lambda>(i, m). probe_for n i m) (List.product [0..<n] [False, True])))"
proof -
  have "inj_on (f \<circ> (\<lambda>(i, m). probe_for n i m)) (set (List.product [0..<n] [False, True]))"
    using assms by (auto simp: inj_on_def)
  then show ?thesis by (simp add: distinct_map distinct_product)
qed

lemma probe_names_inject:
  "pb_trait (probe_for n i m) = pb_trait (probe_for n i' m') \<longleftrightarrow> i = i' \<and> m = m'"
  "pb_method (probe_for n i m) = pb_method (probe_for n i' m') \<longleftrightarrow> i = i' \<and> m = m'"
  "pb_fallback (probe_for n i m) = pb_fallback (probe_for n i' m') \<longleftrightarrow> i = i' \<and> m = m'"
  using suffix_inject by (simp_all add: probe_for_def Let_def)

lemma arg_types_nth [simp]: "length (arg_types n) = n" "i < n \<Longrightarrow> arg_types n ! i = ''__Arg'' @ show_nat i"
  by (simp_all add: arg_types_def)

lemma borrowed_args_nth:
  "length (borrowed_args n index m l) = n"
  "i < n \<Longrightarrow> borrowed_args n index m l ! i = (if i = index then Borrow l m else Variable (arg_types n ! i))"
  by (simp_all add: borrowed_args_def nth_enumerate_eq)


lemma probe_shape:
  "pb_shape (probe_for n i m) = map (\<lambda>j. if j = i then Borrow ''__shape'' m else Variable (arg_types n ! j)) [0..<n]"
  "pb_local (probe_for n i m) = map (\<lambda>j. if j = i then Borrow ''__local'' m else Variable (arg_types n ! j)) [0..<n]"
  by (auto simp: probe_for_def Let_def borrowed_args_nth intro!: nth_equalityI)

text \<open>The visitor finds exactly the borrows that are not static.\<close>

lemma visit_node_eq: "visit_node b node \<longleftrightarrow> b \<or> node \<noteq> Reference (Some ''static'') \<and> node \<noteq> Lifetime ''static''"
  by (cases node) (auto split: option.splits)

lemma output_borrowed_iff:
  "output_borrowed nodes \<longleftrightarrow> (\<exists>node\<in>set nodes. node \<noteq> Reference (Some ''static'') \<and> node \<noteq> Lifetime ''static'')"
proof -
  have "foldl visit_node b nodes \<longleftrightarrow>
    b \<or> (\<exists>node\<in>set nodes. node \<noteq> Reference (Some ''static'') \<and> node \<noteq> Lifetime ''static'')" for b
    by (induction nodes arbitrary: b) (auto simp: visit_node_eq)
  then show ?thesis by (simp add: output_borrowed_def)
qed

section \<open>Printed inputs\<close>

text \<open>
  What the parsers of \<^verbatim>\<open>syn\<close> are relied on for: they read back what was printed, up to a comma or the
  end of the input, and a comma is one token.
\<close>

definition syn_reads :: "('t, 'path, 'expr, 'sig) syn \<Rightarrow> 't \<Rightarrow> ('path \<Rightarrow> 't list) \<Rightarrow> ('expr \<Rightarrow> 't list) \<Rightarrow> ('sig \<Rightarrow> 't list) \<Rightarrow> bool" where
  "syn_reads S comma path_tokens expr_tokens sig_tokens \<longleftrightarrow>
     (\<forall>p rest. sy_path S (path_tokens p @ comma # rest) = Inr (p, comma # rest)) \<and>
     (\<forall>e rest. sy_expr S (expr_tokens e @ comma # rest) = Inr (e, comma # rest)) \<and>
     (\<forall>g rest. sy_signature S (sig_tokens g @ comma # rest) = Inr (g, comma # rest)) \<and>
     (\<forall>g. sy_signature S (sig_tokens g) = Inr (g, [])) \<and>
     (\<forall>rest. sy_comma S (comma # rest) = Inr ((), rest) \<and> sy_peek_comma S (comma # rest)) \<and>
     \<not> sy_peek_comma S []"

definition mock_tokens where
  "mock_tokens comma path_tokens expr_tokens sig_tokens input =
     path_tokens (in_root input) @ comma # expr_tokens (in_session input) @ comma #
     expr_tokens (in_source input) @ comma # sig_tokens (in_signature input)"

definition replacement_tokens where
  "replacement_tokens comma path_tokens expr_tokens sig_tokens input =
     path_tokens (in_root (rp_mock input)) @ comma # expr_tokens (in_session (rp_mock input)) @ comma #
     expr_tokens (in_source (rp_mock input)) @ comma # expr_tokens (rp_target input) @ comma #
     sig_tokens (in_signature (rp_mock input))"

lemma parse_mock_printed:
  assumes "syn_reads S comma path_tokens expr_tokens sig_tokens"
  shows "parse_all S (parse_mock S) (mock_tokens comma path_tokens expr_tokens sig_tokens input @ (if trailing then [comma] else [])) =
    (if sy_variadic S (in_signature input) then Inl ''mock! does not support variadic functions'' else Inr input)"
  using assms by (cases trailing) (simp_all add: syn_reads_def mock_tokens_def parse_all_def parse_mock_def then_comma_def Let_def)

lemma parse_replacement_printed:
  assumes "syn_reads S comma path_tokens expr_tokens sig_tokens"
  shows "parse_all S (parse_replacement S) (replacement_tokens comma path_tokens expr_tokens sig_tokens input @ (if trailing then [comma] else [])) =
    (if trailing then Inl (sy_unexpected S [comma]) else Inr input)"
  using assms by (cases trailing)
    (simp_all add: syn_reads_def replacement_tokens_def parse_all_def parse_replacement_def then_comma_def)

section \<open>Properties\<close>

text \<open>
  What was written in a macro call is what the macro works on. Printing the parts of a \<^verbatim>\<open>mock!\<close>
  call and expanding it generates code from exactly these parts, with or without a trailing comma; a
  variadic signature is a compile error. The same holds of the call that \<^verbatim>\<open>replace!\<close> makes, which
  has no trailing comma.
\<close>

lemma macro_input_roundtrip:
  assumes "syn_reads S comma path_tokens expr_tokens sig_tokens"
  shows "expand generate (parse_all S (parse_mock S)
      (mock_tokens comma path_tokens expr_tokens sig_tokens input @ (if trailing then [comma] else []))) =
    (if sy_variadic S (in_signature input) then Compile_Error ''mock! does not support variadic functions''
     else Generated (generate input)) \<and>
    expand generate' (parse_all S (parse_replacement S)
      (replacement_tokens comma path_tokens expr_tokens sig_tokens input' @ (if trailing then [comma] else []))) =
    (if trailing then Compile_Error (sy_unexpected S [comma]) else Generated (generate' input'))"
  by (simp add: parse_mock_printed [OF assms] parse_replacement_printed [OF assms])

text \<open>A small token language: one token for each part, 0 for the comma; the signature 0 is variadic.\<close>

definition one_token :: "(nat, nat) parser" where
  "one_token input = (case input of [] \<Rightarrow> Inl ''end of input'' | t # rest \<Rightarrow> if t = 0 then Inl ''comma'' else Inr (t - 1, rest))"

definition small_syn :: "(nat, nat, nat, nat) syn" where
  "small_syn = \<lparr>sy_path = one_token, sy_expr = one_token, sy_signature = one_token,
     sy_comma = (\<lambda>input. case input of [] \<Rightarrow> Inl ''end of input'' | t # rest \<Rightarrow> if t = 0 then Inr ((), rest) else Inl ''no comma''),
     sy_peek_comma = (\<lambda>input. case input of [] \<Rightarrow> False | t # rest \<Rightarrow> t = 0),
     sy_variadic = (\<lambda>g. g = 0), sy_unexpected = (\<lambda>_. ''unexpected token'')\<rparr>"

lemma macro_input_roundtrip_witness:
  "expand in_source (parse_all small_syn (parse_mock small_syn) [8, 0, 4, 0, 5, 0, 7, 0]) = Generated 4 \<and>
   expand rp_target (parse_all small_syn (parse_replacement small_syn) [8, 0, 4, 0, 5, 0, 6, 0, 7, 0]) =
     Compile_Error ''unexpected token''"
proof -
  have "syn_reads small_syn 0 (\<lambda>p. [p + 1]) (\<lambda>e. [e + 1]) (\<lambda>g. [g + 1])"
    by (simp add: syn_reads_def small_syn_def one_token_def)
  from macro_input_roundtrip [OF this, of in_source "\<lparr>in_root = 7, in_session = 3, in_source = 4, in_signature = 6\<rparr>" True
      rp_target "\<lparr>rp_mock = \<lparr>in_root = 7, in_session = 3, in_source = 4, in_signature = 6\<rparr>, rp_target = 5\<rparr>"]
  moreover have "\<not> sy_variadic small_syn 6" "sy_unexpected small_syn [0] = ''unexpected token''"
    by (simp_all add: small_syn_def)
  ultimately show ?thesis by (simp add: mock_tokens_def replacement_tokens_def)
qed

text \<open>
  C37: The generated signature check is well formed and complete. It is left out exactly for unsafe
  functions and for functions of another ABI than Rust's. Otherwise every input is probed both as a
  shared and as a mutable borrow, with a type variable of its own for every other input, the shape and
  the local borrow differ in their lifetime only, and no two items, methods or type variables of the
  generated code have the same name. The rule of \<^verbatim>\<open>replace!\<close> for safe functions always gets such a
  check. A generated handler has a parameter of its own for every input, and the builder can store a
  result exactly when the result borrows nothing but static data.
\<close>

theorem signature_check_complete:
  "(check_signature sg = None \<longleftrightarrow> sg_unsafe sg \<or> (\<exists>abi. sg_abi sg = Some abi \<and> abi \<noteq> Some ''Rust'')) \<and>
   (\<forall>ck. check_signature sg = Some ck \<longrightarrow>
      length (ck_types ck) = sg_inputs sg \<and> distinct (ck_types ck) \<and> distinct (map pb_method (ck_probes ck)) \<and>
      distinct ([''__Signature'', ''__Declared''] @ map pb_trait (ck_probes ck) @ map pb_fallback (ck_probes ck)) \<and>
      (\<forall>i m. i < sg_inputs sg \<longrightarrow> (\<exists>p\<in>set (ck_probes ck).
         pb_shape p = map (\<lambda>j. if j = i then Borrow ''__shape'' m else Variable (ck_types ck ! j)) [0 ..< sg_inputs sg] \<and>
         pb_local p = map (\<lambda>j. if j = i then Borrow ''__local'' m else Variable (ck_types ck ! j)) [0 ..< sg_inputs sg]))) \<and>
   (replace_rule_of sg = Some rule \<longrightarrow> (rule_check rule sg = None \<longleftrightarrow> rule \<noteq> Safe_Rule)) \<and>
   distinct (gm_names (generate_mock saved source sg result)) \<and>
   length (gm_names (generate_mock saved source sg result)) = sg_inputs sg \<and>
   (gm_methods (generate_mock saved source sg result) = [] \<longleftrightarrow>
      (\<exists>nodes. result = Some nodes \<and> (\<exists>node\<in>set nodes. node \<noteq> Reference (Some ''static'') \<and> node \<noteq> Lifetime ''static'')))"
proof (intro conjI allI impI)
  show "rule_check rule sg = None \<longleftrightarrow> rule \<noteq> Safe_Rule" if "replace_rule_of sg = Some rule"
    using that by (auto simp: check_signature_def native_abi_def Let_def split: option.splits if_splits)
  show "distinct (gm_names (generate_mock saved source sg result))"
    "length (gm_names (generate_mock saved source sg result)) = sg_inputs sg"
    by (simp_all add: generate_mock_def Let_def handler_names_def distinct_map inj_on_def)
  show "gm_methods (generate_mock saved source sg result) = [] \<longleftrightarrow>
      (\<exists>nodes. result = Some nodes \<and> (\<exists>node\<in>set nodes. node \<noteq> Reference (Some ''static'') \<and> node \<noteq> Lifetime ''static''))"
    by (cases result) (auto simp: generate_mock_def Let_def constant_methods_def output_borrowed_iff)
next
  show "check_signature sg = None \<longleftrightarrow> sg_unsafe sg \<or> (\<exists>abi. sg_abi sg = Some abi \<and> abi \<noteq> Some ''Rust'')"
    by (auto simp: check_signature_def native_abi_def Let_def split: option.splits)
next
  fix ck
  assume "check_signature sg = Some ck"
  then have ck: "ck_types ck = arg_types (sg_inputs sg)"
    "ck_probes ck = map (\<lambda>(i, m). probe_for (sg_inputs sg) i m) (List.product [0 ..< sg_inputs sg] [False, True])"
    unfolding check_signature_def Let_def probes_product by (auto split: if_splits)
  show "length (ck_types ck) = sg_inputs sg" "distinct (ck_types ck)"
    by (simp_all add: ck arg_types_def distinct_map inj_on_def)
  show "distinct (map pb_method (ck_probes ck))" unfolding ck by (rule distinct_probes) (simp add: probe_names_inject)
  have "distinct (map pb_trait (ck_probes ck))" "distinct (map pb_fallback (ck_probes ck))"
    unfolding ck by (rule distinct_probes; simp add: probe_names_inject)+
  then show "distinct ([''__Signature'', ''__Declared''] @ map pb_trait (ck_probes ck) @ map pb_fallback (ck_probes ck))"
    by (auto simp: ck probe_for_def Let_def)
  fix i m
  assume "i < sg_inputs sg"
  then show "\<exists>p\<in>set (ck_probes ck).
      pb_shape p = map (\<lambda>j. if j = i then Borrow ''__shape'' m else Variable (ck_types ck ! j)) [0 ..< sg_inputs sg] \<and>
      pb_local p = map (\<lambda>j. if j = i then Borrow ''__local'' m else Variable (ck_types ck ! j)) [0 ..< sg_inputs sg]"
  proof (intro bexI [of _ "probe_for (sg_inputs sg) i m"])
    from \<open>i < sg_inputs sg\<close> show "probe_for (sg_inputs sg) i m \<in> set (ck_probes ck)" by (auto simp: ck)
  qed (simp add: ck probe_shape)
qed

theorem signature_check_complete_witness:
  "(\<exists>ck. check_signature \<lparr>sg_unsafe = False, sg_abi = Some (Some ''Rust''), sg_inputs = 12\<rparr> = Some ck \<and>
     distinct (map pb_method (ck_probes ck))) \<and>
   gm_methods (generate_mock (Path_Expr 0) (Path_Expr 1)
     \<lparr>sg_unsafe = False, sg_abi = Some (Some ''Rust''), sg_inputs = 12\<rparr> (Some [Reference None])) = []"
  using signature_check_complete [of "\<lparr>sg_unsafe = False, sg_abi = Some (Some ''Rust''), sg_inputs = 12\<rparr>"
      "Extern_Rule ''Rust''" "Path_Expr 0" "Path_Expr 1" "Some [Reference None]"]
  by (cases "check_signature \<lparr>sg_unsafe = False, sg_abi = Some (Some ''Rust''), sg_inputs = 12\<rparr>") auto

end
