(* ===== verification/Spec2Isabelle.thy ===== *)
theory Spec2Isabelle
  imports Interleaving Mock_Calls Replacement_Runs Windows_Memory Cache_Flush Macro_Input
begin

text \<open>
  \<^bold>\<open>Shimforge\<close> replaces Rust functions while a test runs. It overwrites the first instructions of a
  function with a jump, keeps what it overwrote in a trampoline so that the original can still be
  called, finds for every call and thread the mock that should answer it, counts the calls against
  the expectations of the test, and puts everything back when the session of the test ends. This
  development models the crate from its sources (paths are relative to src/) and proves the
  properties that make it safe to use. The properties are numbered C1 to C40; each stands behind a
  text block that states it in words.

  \<^bold>\<open>Conventions.\<close> A call returns an element of \<open>result\<close> (theory \<open>Errors\<close>): \<open>Ok\<close> or \<open>Err\<close> for a Rust
  \<^verbatim>\<open>Result\<close>, \<open>Panics\<close> for unwinding, \<open>Aborts\<close> for the end of the process, \<open>Diverges\<close> for a call that does
  not come back. A call with effects is a function on a state and returns the state on every path,
  the failing ones included. Slices are read with their bounds checks. A \<^verbatim>\<open>usize\<close> is a natural number
  with \<open>usize_max\<close> wherever the code tests it; instruction words and bytes are machine words. Operating
  systems, processors, \<^verbatim>\<open>syn\<close> and the closures of a test are parameters; what is relied on is stated as
  a locale or as a named hypothesis, and every locale is interpreted on a simulated system, on which the
  witnesses run the code.

  \<^bold>\<open>Theories, in the order of the calls.\<close>

  \<^item> \<open>Prelude\<close>: integers, little-endian bytes, byte memories, list lemmas. \<open>Errors\<close>: src/error.rs and
  the ways a call ends.

  \<^item> \<open>Expectations\<close>: src/expectation.rs. Counts, sequences, claims, the rules of a mock, verification,
  checkpoints, the recursion guard. The heap of \<^verbatim>\<open>Meta\<close> and \<^verbatim>\<open>SequenceProgress\<close> objects is explicit.
  \<open>Interleaving\<close>: the critical sections of these operations as a step relation of many threads; call
  counts, the order of sequences and the permanence of failures are invariants of all its runs, and
  \<open>select\<close> is shown to be a run of it.

  \<^item> \<open>X86_Prefix\<close> (src/code/prefix.rs), \<open>X86_Code\<close> (src/code/x86.rs), \<open>X86_Relocate\<close>
  (src/code/relocate.rs): the length decoder, entry plans and trampolines for x86-64. A trampoline is
  compared with a reference layout of its instructions: same order, same branch goals, same operands,
  same return addresses.

  \<^item> \<open>Arm64_Code\<close> (src/code/arm64.rs): plans and trampolines for ARM64. \<open>Arm64_Machine\<close> is a reference
  semantics of the instructions that read the program counter (the others are a parameter);
  \<open>Arm64_Trampoline\<close> simulates every run of the displaced instructions in the trampoline.

  \<^item> \<open>Code_Memory\<close> (src/memory.rs): reading code, and replacing it with a rollback, over a record of
  platform calls. The locale \<open>code_reader\<close> is the contract of the queries, \<open>code_platform\<close> adds writing.
  \<open>Linux_Memory\<close> and \<open>Linux_Simulation\<close> (src/memory/linux.rs, src/memory/linux/maps.rs), \<open>Windows_Memory\<close>
  (src/memory/windows.rs, src/memory/windows/api.rs) and \<open>Mac_Memory\<close> (src/memory/macos.rs) implement it.
  \<open>Mac_Remap\<close> (src/memory/macos/remap.rs) replaces code on Apple silicon by remapping pages.

  \<^item> \<open>Cache_Flush\<close> (src/cache.rs): the cache maintenance of every target, with a reference model of the
  caches for ARM64 Linux.

  \<^item> \<open>Exec_Pages\<close> (src/executable.rs and its platforms): the search for a page near a function, sealing,
  release, the shadow stack queries.

  \<^item> \<open>Code_Target\<close> (src/code.rs): the operations of the target and what both targets promise. \<open>Hosts\<close>: a
  build, that is a target, a memory platform, the Apple silicon remapping and a source of pages, with the
  relay pages that raw replacements use on ARM64. \<open>code_contract\<close> says what a build relies on; the locales
  \<open>relay_pages\<close>, \<open>unix_code\<close>, \<open>windows_code\<close> and \<open>code_host\<close> derive from it that the program's code is kept.

  \<^item> \<open>Routing\<close> (src/routing.rs): the table of patched entries, the lock-free list, thread-local and global
  routes. Publishing an entry and writing its patch are separate steps.

  \<^item> \<open>Session_Lock\<close> (the lock of src/lib.rs) as a step relation of threads that open and drop sessions.
  \<open>Mock_Sites\<close>: the statics of a generated mock and the registry of src/asynchronous.rs. \<open>Sessions\<close>: the
  rest of src/lib.rs. \<open>Session_Restore\<close>: what any run of a session leaves behind.

  \<^item> \<open>Trampoline_Size\<close>: how long a trampoline can be. \<open>Replacement_Runs\<close>: a call of a replaced function on
  the processor, through entry, page and jump, to the target or the dispatcher (\<open>enters\<close>).

  \<^item> \<open>Mock_Calls\<close>: the code that \<^verbatim>\<open>mock!\<close> generates (macros/src/lib.rs) and the mocks of futures
  (src/asynchronous.rs): a call is answered by the state of its site or passed on along its route.

  \<^item> \<open>Macro_Input\<close>: the parsers of macros/src/lib.rs, the signature check of macros/src/signature.rs,
  the parts of the generated code and the rules of \<^verbatim>\<open>replace!\<close>.

  \<^bold>\<open>What the theorems show.\<close> Code memory: replacing bytes is all or nothing on every system, the
  systems meet the contract (the first property below), what the kernel prints is parsed back, pages are
  found in reach, flushed code is seen. Machine code: plans cover whole instructions and jump to their
  target, trampolines do what the displaced instructions did, the decoder stays in bounds and all of it
  ends; a replaced function runs its target and a routed one its dispatcher, with the original saved in
  full. Routing: the list and the table are consistent in every reachable state, a call is routed to the
  thread's replacement, else the global one, else the original, and a failed installation leaves nothing
  reachable. Sessions: at most one global session and never beside another, a waiting thread gets in,
  restoring gives back code and routes, dropping cleans up or ends the process. Mocks: the first matching
  rule that is not exhausted answers, counts are never exceeded, sequences are kept across threads,
  one-time responses are used once, failures are never forgotten.

  \<^bold>\<open>Loops and bounds.\<close> There is no fuel. A loop whose end depends on the system is a
  \<^verbatim>\<open>partial_function\<close>, \<open>None\<close> when it never ends, and its termination is proved under the contract: regions
  grow beyond the cursor (\<open>regions_loop\<close>), the depth of submaps is bounded (\<open>mac_region_loop\<close>), the list of
  entries only points backwards (\<open>fallback_loop\<close>), a kernel interrupts a read finitely often (\<open>retry\<close>,
  \<open>maps_loop\<close>). All other loops have a measure. The pages of the simulated Darwin kernel have eight bytes, so
  that a replacement across two pages can be run; the theorems hold for every page size.

  \<^bold>\<open>Not modelled.\<close> The token text that the macros generate (its run-time behaviour is in \<open>Mock_Sites\<close> and
  \<open>Mock_Calls\<close>; what the compiler makes of the probes of the signature check is the type system of Rust).
  Weak memory orders: the operations under a mutex and the
  accesses to \<^verbatim>\<open>HEAD\<close> are atomic steps. Allocation failure. A poisoned mutex, which the code takes over as it is.
  The examples and tests, and the fault injection that exists in test builds only.
\<close>

section \<open>Properties\<close>



text \<open>
  C34: All work on machine code ends as a \<^verbatim>\<open>Result\<close>, for every input: planning an entry, building a
  trampoline and looking for calls in a prefix on x86-64, planning and building a trampoline on
  ARM64. No slice and no field is out of range and every loop ends. Null and equal addresses are
  refused. A bridge for unwinding is requested exactly for prefixes with a call: a positive answer
  exhibits a decoded call, a negative one a complete decoding without any.
\<close>

theorem code_work_total:
  "returns (plan source target bytes) \<and> returns (arm_plan source target bytes) \<and>
   (source = 0 \<or> target = 0 \<longrightarrow> plan source target bytes = Err InvalidAddress) \<and>
   (source = target \<and> source \<noteq> 0 \<longrightarrow> plan source target bytes = Err SameAddress) \<and>
   returns (trampoline source destination original) \<and> returns (arm_trampoline source destination original) \<and>
   returns (needs_call_bridge original) \<and>
   (\<forall>v. needs_call_bridge original = Ok v \<longrightarrow> (\<exists>n inss. decoded original n inss \<and>
      (if v then \<exists>i\<in>set inss. ins_call i \<noteq> None
       else n = length original \<and> (\<forall>i\<in>set inss. ins_call i = None))))"
proof (intro conjI allI impI)
  show "source = 0 \<or> target = 0 \<Longrightarrow> plan source target bytes = Err InvalidAddress"
    "source = target \<and> source \<noteq> 0 \<Longrightarrow> plan source target bytes = Err SameAddress" by (auto simp: plan_def)
qed (simp_all only: plan_returns arm_plan_returns trampoline_returns arm_trampoline_returns
    needs_call_bridge_returns needs_call_bridge_Ok)

theorem code_work_total_witness:
  "plan 4096 4096 [] = Err SameAddress \<and> needs_call_bridge sample_prefix = Ok False \<and>
   (\<exists>inss. decoded sample_prefix 9 inss \<and> (\<forall>i\<in>set inss. ins_call i = None))"
  using code_work_total [of 4096 4096 "[]" 0 sample_prefix] sample_prefix_bridge by (auto simp: sample_lengths)

end
